(* ===== verification/Prelude.thy ===== *)
theory Prelude
  imports Main "HOL-Library.Word"
begin

text \<open>
  Shared vocabulary of the development: the integer conversions of C and C++ on an LP64
  target, the undefined behaviours a run can reach, results as sums with the failure on the
  left, decimal printing of sizes, and the list lemmas the components share.
\<close>

section \<open>Machine integers\<close>

type_synonym u8 = "8 word"
type_synonym u16 = "16 word"
type_synonym u32 = "32 word"
type_synonym u64 = "64 word"

text \<open>
  A value of type \<open>int\<close> is an integer in \<open>in_int\<close>; an expression that leaves that range is
  undefined.  A conversion to \<open>int\<close> keeps the low 32 bits (\<open>to_int\<close>), a conversion to
  \<open>size_t\<close> keeps the low 64 bits of the two's complement (\<open>to_size_t\<close>).
\<close>

definition in_int :: "int \<Rightarrow> bool" where
  "in_int x \<longleftrightarrow> - (2 ^ 31) \<le> x \<and> x < 2 ^ 31"

definition to_int :: "int \<Rightarrow> int" where
  "to_int x = (x + 2 ^ 31) mod 2 ^ 32 - 2 ^ 31"

definition to_size_t :: "int \<Rightarrow> int" where
  "to_size_t x = x mod 2 ^ 64"

section \<open>Failures\<close>

text \<open>The undefined behaviours of the C++ standard the modelled code can run into.\<close>

datatype ub =
    Signed_overflow
  | Back_of_empty_list
  | Front_of_empty_list
  | Dangling_iterator
  | Dangling_key_reference
  | Index_out_of_range
  | Null_dereference
  | Use_after_free

primrec res_bind :: "'e + 'a \<Rightarrow> ('a \<Rightarrow> 'e + 'b) \<Rightarrow> 'e + 'b" where
  "res_bind (Inl e) f = Inl e"
| "res_bind (Inr a) f = f a"

definition is_ok :: "'e + 'a \<Rightarrow> bool" where
  "is_ok r \<longleftrightarrow> (case r of Inl _ \<Rightarrow> False | Inr _ \<Rightarrow> True)"

text \<open>
  The result of code with loops that may not end: \<open>None\<close> when it does not return, otherwise a
  result as above.
\<close>

type_synonym 'a run = "(ub + 'a) option"

definition ret :: "'a \<Rightarrow> 'a run" where
  "ret a = Some (Inr a)"

definition run_bind :: "'a run \<Rightarrow> ('a \<Rightarrow> 'b run) \<Rightarrow> 'b run" where
  "run_bind m f = Option.bind m (\<lambda>r. case r of Inl u \<Rightarrow> Some (Inl u) | Inr a \<Rightarrow> f a)"

section \<open>Decimal text\<close>

definition digit_char :: "nat \<Rightarrow> char" where
  "digit_char d = char_of (48 + d)"

fun show_nat :: "nat \<Rightarrow> string" where
  "show_nat n = (if n < 10 then [digit_char n] else show_nat (n div 10) @ [digit_char (n mod 10)])"

declare show_nat.simps [simp del]

section \<open>Lemmas shared by the components\<close>

named_theorems res_simps "inversion of results"

lemma res_bind_Inr_iff [res_simps]:
  "res_bind m f = Inr b \<longleftrightarrow> (\<exists>a. m = Inr a \<and> f a = Inr b)"
  by (cases m) auto

lemma res_bind_Inl_iff [res_simps]:
  "res_bind m f = Inl e \<longleftrightarrow> m = Inl e \<or> (\<exists>a. m = Inr a \<and> f a = Inl e)"
  by (cases m) auto

lemma res_bind_assoc: "res_bind (res_bind m f) g = res_bind m (\<lambda>a. res_bind (f a) g)"
  by (cases m) auto

lemma run_bind_simps [simp]:
  "run_bind (ret a) f = f a" "run_bind (Some (Inr a)) f = f a" "run_bind (Some (Inl u)) f = Some (Inl u)"
  "run_bind None f = None"
  by (simp_all add: run_bind_def ret_def)

lemma run_bind_eq_ret: "run_bind m f = ret b \<longleftrightarrow> (\<exists>a. m = ret a \<and> f a = ret b)"
  by (cases m) (auto simp: run_bind_def ret_def split: sum.splits)

lemma ret_eq [simp]: "ret a = ret b \<longleftrightarrow> a = b" "ret a = Some r \<longleftrightarrow> r = Inr a"
  by (auto simp: ret_def)

lemma is_ok_simps [simp]: "is_ok (Inr a)" "\<not> is_ok (Inl e)"
  by (simp_all add: is_ok_def)

lemma is_ok_iff: "is_ok r \<longleftrightarrow> (\<exists>a. r = Inr a)"
  by (cases r) auto

lemma map_sum_res_bind:
  "map_sum id g (res_bind m f) = res_bind m (\<lambda>a. map_sum id g (f a))"
  by (cases m) auto

lemma to_int_id: "in_int x \<Longrightarrow> to_int x = x"
  by (simp add: in_int_def to_int_def)

lemma to_size_t_id: "0 \<le> x \<Longrightarrow> x < 2 ^ 64 \<Longrightarrow> to_size_t x = x"
  by (simp add: to_size_t_def)

lemma to_int_to_size_t: "to_int (to_size_t x) = to_int x"
proof -
  have "(x mod 2 ^ 64 + 2 ^ 31) mod 2 ^ 32 = (x + 2 ^ 31) mod (2 ^ 32 :: int)"
  proof -
    have "(2::int) ^ 32 dvd 2 ^ 64" by (simp add: le_imp_power_dvd)
    then have "(x mod 2 ^ 64) mod 2 ^ 32 = x mod (2 ^ 32 :: int)" by (rule mod_mod_cancel)
    then show ?thesis by (metis mod_add_left_eq)
  qed
  then show ?thesis by (simp add: to_int_def to_size_t_def)
qed

lemma to_int_add: "to_int (to_int x + y) = to_int (x + y)"
  by (simp add: to_int_def mod_simps algebra_simps)

lemma in_int_to_int: "in_int (to_int x)"
proof -
  have "0 \<le> (x + 2 ^ 31) mod (2 ^ 32 :: int)" "(x + 2 ^ 31) mod (2 ^ 32 :: int) < 2 ^ 32"
    by simp_all
  then show ?thesis by (simp add: in_int_def to_int_def)
qed

lemma map_of_filter_neq: "map_of (filter (\<lambda>p. fst p \<noteq> k) ps) = (map_of ps)(k := None)"
  by (induction ps) (auto simp: fun_eq_iff)

lemma map_of_filter_eq_distinct:
  "distinct (map fst ps) \<Longrightarrow> (k, v) \<in> set ps \<Longrightarrow> filter (\<lambda>p. fst p = k) ps = [(k, v)]"
proof (induction ps)
  case (Cons p ps)
  then show ?case
    by (cases "fst p = k") (auto simp: filter_empty_conv rev_image_eqI image_iff)
qed simp

lemma map_of_butlast:
  assumes "distinct (map fst ps)" and "ps \<noteq> []"
  shows "map_of (butlast ps) = (map_of ps)(fst (last ps) := None)"
proof -
  obtain qs p where ps: "ps = qs @ [p]" using assms(2) by (cases ps rule: rev_cases) auto
  with assms(1) have "map_of qs (fst p) = None" by (auto simp: map_of_eq_None_iff)
  then show ?thesis by (cases p) (auto simp: ps fun_eq_iff map_add_def split: option.splits)
qed

lemma sum_list_butlast:
  fixes f :: "'a \<Rightarrow> int"
  shows "ps \<noteq> [] \<Longrightarrow> sum_list (map f (butlast ps)) = sum_list (map f ps) - f (last ps)"
  by (cases ps rule: rev_cases) auto

end
