(* ===== verification/Storage_Contract.thy ===== *)
theory Storage_Contract
  imports Prelude
begin

text \<open>
  The abstract class \<open>Afina::Storage\<close> (src/include/afina/Storage.h).  Commands reach a storage
  through its virtual functions only, so the interface is a record of operations on an arbitrary
  state type.  The locale states what the comments of the header promise of the operations that
  commands use: what is readable after an operation answered, and what it may change.  A storage
  may drop any other key (it is a cache), and an operation may fail, so every law is about the
  answers an operation gives.
\<close>

record 's storage_ops =
  op_Put :: "'s \<Rightarrow> string \<Rightarrow> string \<Rightarrow> ub + 's \<times> bool"
  op_PutIfAbsent :: "'s \<Rightarrow> string \<Rightarrow> string \<Rightarrow> ub + 's \<times> bool"
  op_Set :: "'s \<Rightarrow> string \<Rightarrow> string \<Rightarrow> ub + 's \<times> bool"
  op_Delete :: "'s \<Rightarrow> string \<Rightarrow> ub + 's \<times> bool"
  op_Get :: "'s \<Rightarrow> string \<Rightarrow> string \<Rightarrow> ub + 's \<times> string \<times> bool"
  op_GetSize :: "'s \<Rightarrow> int"
  op_SetNewCurrentSize :: "'s \<Rightarrow> int \<Rightarrow> 's \<times> bool"
  op_GetCurrentSize :: "'s \<Rightarrow> int"

definition may_forget :: "(string \<rightharpoonup> 'v) \<Rightarrow> (string \<rightharpoonup> 'v) \<Rightarrow> string \<Rightarrow> bool" where
  "may_forget m m' k \<longleftrightarrow> (\<forall>k'. k' \<noteq> k \<longrightarrow> m' k' = None \<or> m' k' = m k')"

lemma may_forget_refl [simp]: "may_forget m m k"
  by (simp add: may_forget_def)

lemma may_forgetD: "may_forget m m' k \<Longrightarrow> k' \<noteq> k \<Longrightarrow> m' k' = Some v \<Longrightarrow> m k' = Some v"
  by (auto simp: may_forget_def dest: spec [of _ k'])

locale storage_contract =
  fixes ops :: "'s storage_ops"
    and inv :: "'s \<Rightarrow> bool"
    and lookup :: "'s \<Rightarrow> string \<rightharpoonup> string"
  assumes put_stored: "inv s \<Longrightarrow> op_Put ops s k v = Inr (s', True) \<Longrightarrow>
      inv s' \<and> lookup s' k = Some v \<and> may_forget (lookup s) (lookup s') k"
    and put_refused: "inv s \<Longrightarrow> op_Put ops s k v = Inr (s', False) \<Longrightarrow> s' = s"
    and put_if_absent_stored: "inv s \<Longrightarrow> op_PutIfAbsent ops s k v = Inr (s', True) \<Longrightarrow>
      lookup s k = None \<and> inv s' \<and> lookup s' k = Some v \<and> may_forget (lookup s) (lookup s') k"
    and put_if_absent_refused: "inv s \<Longrightarrow> op_PutIfAbsent ops s k v = Inr (s', False) \<Longrightarrow> s' = s"
    and set_stored: "inv s \<Longrightarrow> op_Set ops s k v = Inr (s', True) \<Longrightarrow>
      lookup s k \<noteq> None \<and> inv s' \<and> lookup s' k = Some v \<and> may_forget (lookup s) (lookup s') k"
    and set_refused: "inv s \<Longrightarrow> op_Set ops s k v = Inr (s', False) \<Longrightarrow> s' = s"
    and delete_removed: "inv s \<Longrightarrow> op_Delete ops s k = Inr (s', True) \<Longrightarrow>
      lookup s k \<noteq> None \<and> inv s' \<and> lookup s' k = None \<and> may_forget (lookup s) (lookup s') k"
    and delete_refused: "inv s \<Longrightarrow> op_Delete ops s k = Inr (s', False) \<Longrightarrow>
      s' = s \<and> lookup s k = None"
    and get_hit: "inv s \<Longrightarrow> op_Get ops s k v0 = Inr (s', v, True) \<Longrightarrow>
      inv s' \<and> lookup s k = Some v \<and> lookup s' = lookup s"
    and get_miss: "inv s \<Longrightarrow> op_Get ops s k v0 = Inr (s', v, False) \<Longrightarrow>
      s' = s \<and> v = v0 \<and> lookup s k = None"
    and get_total: "inv s \<Longrightarrow> is_ok (op_Get ops s k v0)"
begin

lemma get_cases:
  assumes "inv s"
  obtains (hit) s' v where "op_Get ops s k v0 = Inr (s', v, True)" "lookup s k = Some v"
      "inv s'" "lookup s' = lookup s"
    | (miss) "op_Get ops s k v0 = Inr (s, v0, False)" "lookup s k = None"
proof -
  from get_total [OF assms, of k v0] obtain s' v b where g: "op_Get ops s k v0 = Inr (s', v, b)"
    by (auto simp: is_ok_iff)
  show ?thesis
  proof (cases b)
    case True
    with g get_hit [OF assms, of k v0 s' v] show ?thesis using hit [of s' v] by auto
  next
    case False
    with g get_miss [OF assms, of k v0 s' v] show ?thesis using miss by auto
  qed
qed

lemma get_after_put:
  assumes "inv s" and "op_Put ops s k v = Inr (s', True)"
  shows "\<exists>s''. op_Get ops s' k v0 = Inr (s'', v, True)"
proof -
  from put_stored [OF assms] have "inv s'" "lookup s' k = Some v" by auto
  then show ?thesis by (cases rule: get_cases [of s' k v0]) auto
qed

lemma put_inv: "inv s \<Longrightarrow> op_Put ops s k v = Inr (s', b) \<Longrightarrow> inv s'"
  by (cases b) (auto dest: put_stored put_refused)

lemma put_if_absent_inv: "inv s \<Longrightarrow> op_PutIfAbsent ops s k v = Inr (s', b) \<Longrightarrow> inv s'"
  by (cases b) (auto dest: put_if_absent_stored put_if_absent_refused)

lemma set_inv: "inv s \<Longrightarrow> op_Set ops s k v = Inr (s', b) \<Longrightarrow> inv s'"
  by (cases b) (auto dest: set_stored set_refused)

lemma get_inv: "inv s \<Longrightarrow> op_Get ops s k v0 = Inr (s', v, b) \<Longrightarrow> inv s'"
  by (cases b) (auto dest: get_hit get_miss)

lemma get_lookup: "inv s \<Longrightarrow> op_Get ops s k v0 = Inr (s', v, b) \<Longrightarrow> lookup s' = lookup s"
  by (cases b) (auto dest: get_hit get_miss)

end

text \<open>
  A storage of bounded capacity also promises when it refuses data: only an entry that does not fit, or a key that is
  present (\<open>PutIfAbsent\<close>) or absent (\<open>Set\<close>).  What fits does not change.
\<close>

locale bounded_storage = storage_contract +
  fixes fits :: "'a \<Rightarrow> string \<Rightarrow> string \<Rightarrow> bool"
  assumes put_answer: "inv s \<Longrightarrow> op_Put ops s k v = Inr (s', b) \<Longrightarrow> b = fits s k v \<and> fits s' = fits s"
    and put_if_absent_answer: "inv s \<Longrightarrow> op_PutIfAbsent ops s k v = Inr (s', b) \<Longrightarrow>
      b = (fits s k v \<and> lookup s k = None) \<and> fits s' = fits s"
    and set_answer: "inv s \<Longrightarrow> op_Set ops s k v = Inr (s', b) \<Longrightarrow>
      b = (fits s k v \<and> lookup s k \<noteq> None) \<and> fits s' = fits s"
    and get_answer: "inv s \<Longrightarrow> op_Get ops s k v0 = Inr (s', v, b) \<Longrightarrow> fits s' = fits s"

end
