(* ===== verification/LRU_Storage.thy ===== *)
theory LRU_Storage
  imports Storage_Contract
begin

text \<open>
  The storage backend \<open>Afina::Backend::MapBasedGlobalLockImpl\<close>
  (src/src/storage/MapBasedGlobalLockImpl.h and .cpp).  Every public operation that touches the
  list or the map holds the mutex for its whole body, so an operation is one function on the state;
  that the mutex makes it one step for concurrent threads is shown in Concurrent_Clients (\<open>lock_step\<close>).
  A list node has an identity (its address), the map sends a key to the identity of its
  node (the iterator), and an operation that would dereference an iterator or a reference to a
  node that was destroyed, or take the front or back of an empty list, fails with the undefined
  behaviour it has in C++.

  The second half gives an abstract least-recently-used cache without node identities and without
  the index, shows that the operations refine it, and derives the storage contract from it.
\<close>

section \<open>State\<close>

record lru_store =
  max_size :: int
  current_size :: int
  lru :: "(nat \<times> string \<times> string) list"
  cacheMap :: "string \<rightharpoonup> nat"
  next_node :: nat

definition MapBasedGlobalLockImpl :: "int \<Rightarrow> lru_store" where
  "MapBasedGlobalLockImpl max_sz =
     \<lparr>max_size = max_sz, current_size = 0, lru = [], cacheMap = Map.empty, next_node = 0\<rparr>"

definition pair_size :: "string \<Rightarrow> string \<Rightarrow> int" where
  "pair_size k v = int (length k) + int (length v)"

text \<open>
  \<open>_lru.splice(_lru.begin(), _lru, it)\<close>: the node \<open>it\<close> becomes the first one, the order of the
  others is kept.
\<close>

definition splice_front :: "'i \<Rightarrow> ('i \<times> 'a) list \<Rightarrow> ('i \<times> 'a) list" where
  "splice_front it xs = filter (\<lambda>n. fst n = it) xs @ filter (\<lambda>n. fst n \<noteq> it) xs"

section \<open>Operations\<close>

function FreeSpace :: "lru_store \<Rightarrow> int \<Rightarrow> ub + lru_store \<times> bool" where
  "FreeSpace s new_size =
     (if \<not> in_int (current_size s + new_size) then Inl Signed_overflow
      else if current_size s + new_size > max_size s then
        (if lru s = [] then Inl Back_of_empty_list
         else
           (let (_, k, v) = last (lru s);
                cur = current_size s - to_int (pair_size k v)
            in if \<not> in_int cur then Inl Signed_overflow
               else FreeSpace
                      (s\<lparr>current_size := cur,
                         cacheMap := (cacheMap s)(k := None),
                         lru := butlast (lru s)\<rparr>)
                      new_size))
      else Inr (s, True))"
  by pat_completeness auto
termination
  by (relation "measure (\<lambda>(s, n). length (lru s))") auto

declare FreeSpace.simps [simp del]

text \<open>
  Adding a \<open>size_t\<close> to \<open>_current_size\<close>: the sum is computed in \<open>size_t\<close> and converted back.
\<close>

definition add_size :: "lru_store \<Rightarrow> int \<Rightarrow> lru_store" where
  "add_size s n = s\<lparr>current_size := to_int (to_size_t (current_size s + n))\<rparr>"

definition push_front :: "lru_store \<Rightarrow> string \<Rightarrow> string \<Rightarrow> lru_store" where
  "push_front s key value =
     s\<lparr>lru := (next_node s, key, value) # lru s,
       cacheMap := (cacheMap s)(key \<mapsto> next_node s),
       next_node := Suc (next_node s)\<rparr>"

definition set_front_value :: "lru_store \<Rightarrow> string \<Rightarrow> ub + lru_store" where
  "set_front_value s value =
     (case lru s of
        [] \<Rightarrow> Inl Front_of_empty_list
      | (i, k, v) # ns \<Rightarrow> Inr (s\<lparr>lru := (i, k, value) # ns\<rparr>))"

definition Put :: "lru_store \<Rightarrow> string \<Rightarrow> string \<Rightarrow> ub + lru_store \<times> bool" where
  "Put s key value =
     (let p = cacheMap s key;
          new_size = pair_size key value
      in if new_size > to_size_t (max_size s) then Inr (s, False)
         else case p of
           None \<Rightarrow>
             res_bind (FreeSpace s (to_int new_size)) (\<lambda>(s1, ok).
               if \<not> ok then Inr (s1, False)
               else Inr (add_size (push_front s1 key value) new_size, True))
         | Some it \<Rightarrow>
             (case map_of (lru s) it of
                None \<Rightarrow> Inl Dangling_iterator
              | Some (k, v) \<Rightarrow>
                  let old_size = pair_size k v;
                      s1 = s\<lparr>lru := splice_front it (lru s)\<rparr>
                  in res_bind (FreeSpace s1 (to_int (to_size_t (new_size - old_size)))) (\<lambda>(s2, ok).
                       if \<not> ok then Inr (s2, False)
                       else res_bind (set_front_value s2 value) (\<lambda>s3. Inr (s3, True)))))"

definition PutIfAbsent :: "lru_store \<Rightarrow> string \<Rightarrow> string \<Rightarrow> ub + lru_store \<times> bool" where
  "PutIfAbsent s key value =
     (let p = cacheMap s key;
          new_size = pair_size key value
      in if new_size > to_size_t (max_size s) then Inr (s, False)
         else case p of
           None \<Rightarrow>
             res_bind (FreeSpace s (to_int new_size)) (\<lambda>(s1, ok).
               if \<not> ok then Inr (s1, False)
               else Inr (add_size (push_front s1 key value) new_size, True))
         | Some _ \<Rightarrow> Inr (s, False))"

definition Set :: "lru_store \<Rightarrow> string \<Rightarrow> string \<Rightarrow> ub + lru_store \<times> bool" where
  "Set s key value =
     (let p = cacheMap s key;
          new_size = pair_size key value
      in if new_size > to_size_t (max_size s) then Inr (s, False)
         else case p of
           None \<Rightarrow> Inr (s, False)
         | Some it \<Rightarrow>
             (case map_of (lru s) it of
                None \<Rightarrow> Inl Dangling_iterator
              | Some (k, v) \<Rightarrow>
                  let old_size = pair_size k v;
                      s1 = s\<lparr>lru := splice_front it (lru s)\<rparr>
                  in res_bind (FreeSpace s1 (to_int (to_size_t (new_size - old_size)))) (\<lambda>(s2, _).
                       case map_of (lru s2) it of
                         None \<Rightarrow> Inl Dangling_iterator
                       | Some (_, v2) \<Rightarrow>
                           res_bind (set_front_value (add_size s2 (- int (length v2))) value) (\<lambda>s3.
                             Inr (add_size s3 new_size, True)))))"

text \<open>
  \<open>Delete\<close> destroys the list node first.  The key stored in the map is a reference to the key
  string inside that node, and \<open>_cacheMap.erase(key)\<close> compares the argument with it.
\<close>

definition Delete :: "lru_store \<Rightarrow> string \<Rightarrow> ub + lru_store \<times> bool" where
  "Delete s key =
     (case cacheMap s key of
        None \<Rightarrow> Inr (s, False)
      | Some it \<Rightarrow>
          (case map_of (lru s) it of
             None \<Rightarrow> Inl Dangling_iterator
           | Some _ \<Rightarrow>
               let s1 = s\<lparr>lru := filter (\<lambda>n. fst n \<noteq> it) (lru s)\<rparr>
               in if map_of (lru s1) it = None then Inl Dangling_key_reference
                  else Inr (s1\<lparr>cacheMap := (cacheMap s1)(key := None)\<rparr>, True)))"

definition Get :: "lru_store \<Rightarrow> string \<Rightarrow> string \<Rightarrow> ub + lru_store \<times> string \<times> bool" where
  "Get s key value =
     (case cacheMap s key of
        None \<Rightarrow> Inr (s, value, False)
      | Some it \<Rightarrow>
          if map_of (lru s) it = None then Inl Dangling_iterator
          else let s1 = s\<lparr>lru := splice_front it (lru s)\<rparr>
               in case lru s1 of
                    [] \<Rightarrow> Inl Front_of_empty_list
                  | (_, _, v) # _ \<Rightarrow> Inr (s1, v, True))"

definition GetSize :: "lru_store \<Rightarrow> int" where
  "GetSize s = max_size s"

definition GetCurrentSize :: "lru_store \<Rightarrow> int" where
  "GetCurrentSize s = current_size s"

definition SetNewCurrentSize :: "lru_store \<Rightarrow> int \<Rightarrow> lru_store \<times> bool" where
  "SetNewCurrentSize s newSize = (s\<lparr>current_size := newSize\<rparr>, True)"

section \<open>The abstract cache\<close>

record lru_spec =
  spec_max :: int
  spec_cur :: int
  spec_ents :: "(string \<times> string) list"

definition abs_store :: "lru_store \<Rightarrow> lru_spec" where
  "abs_store s = \<lparr>spec_max = max_size s, spec_cur = current_size s, spec_ents = map snd (lru s)\<rparr>"

definition lookup_store :: "lru_store \<Rightarrow> string \<rightharpoonup> string" where
  "lookup_store s = map_of (map snd (lru s))"

definition stored_bytes :: "lru_store \<Rightarrow> int" where
  "stored_bytes s = sum_list (map (\<lambda>(i, k, v). pair_size k v) (lru s))"

function spec_evict :: "lru_spec \<Rightarrow> int \<Rightarrow> ub + lru_spec" where
  "spec_evict a n =
     (if \<not> in_int (spec_cur a + n) then Inl Signed_overflow
      else if spec_cur a + n > spec_max a then
        (if spec_ents a = [] then Inl Back_of_empty_list
         else let cur = spec_cur a - to_int (case last (spec_ents a) of (k, v) \<Rightarrow> pair_size k v)
              in if \<not> in_int cur then Inl Signed_overflow
                 else spec_evict (a\<lparr>spec_cur := cur, spec_ents := butlast (spec_ents a)\<rparr>) n)
      else Inr a)"
  by pat_completeness auto
termination
  by (relation "measure (\<lambda>(a, n). length (spec_ents a))") auto

declare spec_evict.simps [simp del]

definition spec_insert :: "lru_spec \<Rightarrow> string \<Rightarrow> string \<Rightarrow> ub + lru_spec \<times> bool" where
  "spec_insert a k v =
     res_bind (spec_evict a (to_int (pair_size k v))) (\<lambda>a1.
       Inr (a1\<lparr>spec_ents := (k, v) # spec_ents a1,
               spec_cur := to_int (spec_cur a1 + pair_size k v)\<rparr>, True))"

definition spec_put :: "lru_spec \<Rightarrow> string \<Rightarrow> string \<Rightarrow> ub + lru_spec \<times> bool" where
  "spec_put a k v =
     (if pair_size k v > to_size_t (spec_max a) then Inr (a, False)
      else case map_of (spec_ents a) k of
        None \<Rightarrow> spec_insert a k v
      | Some old \<Rightarrow>
          res_bind (spec_evict (a\<lparr>spec_ents := splice_front k (spec_ents a)\<rparr>)
                     (to_int (pair_size k v - pair_size k old))) (\<lambda>a2.
            if spec_ents a2 = [] then Inl Front_of_empty_list
            else Inr (a2\<lparr>spec_ents := (k, v) # tl (spec_ents a2)\<rparr>, True)))"

definition spec_put_if_absent :: "lru_spec \<Rightarrow> string \<Rightarrow> string \<Rightarrow> ub + lru_spec \<times> bool" where
  "spec_put_if_absent a k v =
     (if pair_size k v > to_size_t (spec_max a) \<or> map_of (spec_ents a) k \<noteq> None
      then Inr (a, False) else spec_insert a k v)"

definition spec_set :: "lru_spec \<Rightarrow> string \<Rightarrow> string \<Rightarrow> ub + lru_spec \<times> bool" where
  "spec_set a k v =
     (if pair_size k v > to_size_t (spec_max a) then Inr (a, False)
      else case map_of (spec_ents a) k of
        None \<Rightarrow> Inr (a, False)
      | Some old \<Rightarrow>
          res_bind (spec_evict (a\<lparr>spec_ents := splice_front k (spec_ents a)\<rparr>)
                     (to_int (pair_size k v - pair_size k old))) (\<lambda>a2.
            if spec_ents a2 = [] then Inl Dangling_iterator
            else Inr (a2\<lparr>spec_ents := (k, v) # tl (spec_ents a2),
                         spec_cur := to_int (spec_cur a2 - int (length old) + pair_size k v)\<rparr>, True)))"

definition spec_get :: "lru_spec \<Rightarrow> string \<Rightarrow> string \<Rightarrow> lru_spec \<times> string \<times> bool" where
  "spec_get a k value =
     (case map_of (spec_ents a) k of
        None \<Rightarrow> (a, value, False)
      | Some v \<Rightarrow> (a\<lparr>spec_ents := splice_front k (spec_ents a)\<rparr>, v, True))"

section \<open>Well-formedness\<close>

definition node_index :: "(nat \<times> string \<times> string) list \<Rightarrow> string \<rightharpoonup> nat" where
  "node_index ns = map_of (map (\<lambda>(i, k, v). (k, i)) ns)"

definition wf_store :: "lru_store \<Rightarrow> bool" where
  "wf_store s \<longleftrightarrow>
     distinct (map fst (lru s)) \<and>
     distinct (map (\<lambda>n. fst (snd n)) (lru s)) \<and>
     (\<forall>n \<in> set (lru s). fst n < next_node s) \<and>
     cacheMap s = node_index (lru s)"

definition accounted :: "lru_store \<Rightarrow> bool" where
  "accounted s \<longleftrightarrow>
     current_size s = stored_bytes s \<and> current_size s \<le> max_size s \<and>
     0 \<le> max_size s \<and> max_size s < 2 ^ 30"

section \<open>Histories\<close>

datatype storage_op =
    OpPut string string
  | OpPutIfAbsent string string
  | OpSet string string
  | OpGet string

fun run_op :: "lru_store \<Rightarrow> storage_op \<Rightarrow> ub + lru_store" where
  "run_op s (OpPut k v) = res_bind (Put s k v) (\<lambda>(s', _). Inr s')"
| "run_op s (OpPutIfAbsent k v) = res_bind (PutIfAbsent s k v) (\<lambda>(s', _). Inr s')"
| "run_op s (OpSet k v) = res_bind (Set s k v) (\<lambda>(s', _). Inr s')"
| "run_op s (OpGet k) = res_bind (Get s k []) (\<lambda>(s', _). Inr s')"

fun run_ops :: "lru_store \<Rightarrow> storage_op list \<Rightarrow> ub + lru_store" where
  "run_ops s [] = Inr s"
| "run_ops s (c # cs) = res_bind (run_op s c) (\<lambda>s'. run_ops s' cs)"

text \<open>No operation of the history stores (with \<open>Put\<close> or \<open>Set\<close>) to a key that is in the cache, not even the value it has.\<close>

fun overwrites :: "lru_store \<Rightarrow> storage_op \<Rightarrow> bool" where
  "overwrites s (OpPut k v) = (cacheMap s k \<noteq> None)"
| "overwrites s (OpSet k v) = (cacheMap s k \<noteq> None)"
| "overwrites s (OpPutIfAbsent k v) = False"
| "overwrites s (OpGet k) = False"

fun no_overwrite :: "lru_store \<Rightarrow> storage_op list \<Rightarrow> bool" where
  "no_overwrite s [] = True"
| "no_overwrite s (c # cs) =
     (\<not> overwrites s c \<and> (case run_op s c of Inl _ \<Rightarrow> True | Inr s' \<Rightarrow> no_overwrite s' cs))"

section \<open>Refinement of the abstract cache\<close>

named_theorems store_simps "unfolding of the storage operations"

lemmas store_defs [store_simps] = push_front_def add_size_def to_int_to_size_t

lemma abs_store_sel [simp]:
  "spec_max (abs_store s) = max_size s" "spec_cur (abs_store s) = current_size s"
  "spec_ents (abs_store s) = map snd (lru s)"
  by (simp_all add: abs_store_def)

lemma map_snd_filter_id:
  assumes "distinct (map fst ns)" "distinct (map (\<lambda>n. fst (snd n)) ns)" "(it, k, v) \<in> set ns"
    and n: "n \<in> set ns"
  shows "fst n = it \<longleftrightarrow> fst (snd n) = k"
proof -
  have "fst n = it \<longleftrightarrow> n = (it, k, v)"
    using assms inj_on_eq_iff [of fst "set ns" n "(it, k, v)"] by (simp add: distinct_map)
  moreover have "fst (snd n) = k \<longleftrightarrow> n = (it, k, v)"
    using assms inj_on_eq_iff [of "\<lambda>n. fst (snd n)" "set ns" n "(it, k, v)"]
    by (simp add: distinct_map)
  ultimately show ?thesis by simp
qed

lemma splice_front_snd:
  assumes "distinct (map fst ns)" "distinct (map (\<lambda>n. fst (snd n)) ns)" "(it, k, v) \<in> set ns"
  shows "map snd (splice_front it ns) = splice_front k (map snd ns)"
  using map_snd_filter_id [OF assms]
  by (auto simp: splice_front_def filter_map o_def cong: filter_cong)

lemma splice_front_Cons:
  assumes "distinct (map fst ps)" "(k, v) \<in> set ps"
  shows "splice_front k ps = (k, v) # filter (\<lambda>p. fst p \<noteq> k) ps"
  using map_of_filter_eq_distinct [OF assms] by (simp add: splice_front_def)

lemma set_splice_front [simp]: "set (splice_front it ns) = set ns"
  by (auto simp: splice_front_def)

lemma distinct_splice_front:
  "distinct (map f ns) \<Longrightarrow> distinct (map f (splice_front it ns))"
  by (auto simp: splice_front_def distinct_map intro: inj_on_subset dest: inj_onD)

lemma map_of_splice_front:
  assumes "distinct (map fst ps)"
  shows "map_of (splice_front k ps) = map_of ps"
proof (rule map_of_eqI)
  show "set (map fst (splice_front k ps)) = set (map fst ps)" by simp
  show "\<forall>x\<in>set (map fst (splice_front k ps)). map_of (splice_front k ps) x = map_of ps x"
    using assms distinct_splice_front [OF assms]
    by (auto simp: map_of_eq_Some_iff)
qed

lemma node_index_eq_Some:
  assumes "distinct (map (\<lambda>n. fst (snd n)) ns)"
  shows "node_index ns k = Some i \<longleftrightarrow> (\<exists>v. (i, k, v) \<in> set ns)"
proof -
  have "distinct (map fst (map (\<lambda>(i, k, v). (k, i)) ns))"
    using assms by (simp add: case_prod_unfold o_def)
  then show ?thesis by (force simp: node_index_def)
qed

lemma node_index_perm:
  assumes "distinct (map (\<lambda>n. fst (snd n)) ns)" "distinct (map (\<lambda>n. fst (snd n)) ms)"
    and "set ns = set ms"
  shows "node_index ns = node_index ms"
proof
  fix k
  have "node_index ns k = Some i \<longleftrightarrow> node_index ms k = Some i" for i
    by (simp add: node_index_eq_Some assms)
  then show "node_index ns k = node_index ms k" by (metis option.exhaust)
qed

lemma wf_distinct_keys: "wf_store s \<Longrightarrow> distinct (map fst (map snd (lru s)))"
  by (simp add: wf_store_def o_def)

text \<open>A key the index knows has exactly one node, and the list has the value for it.\<close>

lemma wf_index:
  assumes "wf_store s" "cacheMap s k = Some it"
  obtains v where "(it, k, v) \<in> set (lru s)" "map_of (lru s) it = Some (k, v)"
    "map_of (map snd (lru s)) k = Some v"
proof -
  from assms obtain v where v: "(it, k, v) \<in> set (lru s)"
    by (auto simp: wf_store_def node_index_eq_Some)
  from v assms(1) have "map_of (lru s) it = Some (k, v)" by (simp add: wf_store_def)
  moreover have "map_of (map snd (lru s)) k = Some v"
    using v wf_distinct_keys [OF assms(1)] by (force simp: map_of_eq_Some_iff)
  ultimately show ?thesis using v that by blast
qed

lemma wf_index_None:
  assumes "wf_store s"
  shows "cacheMap s k = None \<longleftrightarrow> map_of (map snd (lru s)) k = None"
proof -
  have "cacheMap s k = None \<longleftrightarrow> (\<forall>n \<in> set (lru s). fst (snd n) \<noteq> k)"
    using assms by (fastforce simp: wf_store_def node_index_def map_of_eq_None_iff image_iff)
  then show ?thesis by (force simp: map_of_eq_None_iff)
qed

lemma wf_splice: "wf_store s \<Longrightarrow> wf_store (s\<lparr>lru := splice_front it (lru s)\<rparr>)"
  by (auto simp: wf_store_def distinct_splice_front intro!: node_index_perm)

lemma node_index_butlast:
  assumes "distinct (map (\<lambda>n. fst (snd n)) ns)" "ns \<noteq> []"
  shows "node_index (butlast ns) = (node_index ns)(fst (snd (last ns)) := None)"
proof -
  have "map_of (butlast (map (\<lambda>(i, k, v). (k, i)) ns))
      = (map_of (map (\<lambda>(i, k, v). (k, i)) ns))(fst (last (map (\<lambda>(i, k, v). (k, i)) ns)) := None)"
    using assms by (intro map_of_butlast) (simp_all add: case_prod_unfold o_def)
  then show ?thesis
    using assms(2) by (simp add: node_index_def map_butlast last_map case_prod_unfold)
qed

lemma wf_butlast:
  assumes "wf_store s" "lru s \<noteq> []" "last (lru s) = (i, k, v)"
  shows "wf_store (s\<lparr>current_size := c, cacheMap := (cacheMap s)(k := None), lru := butlast (lru s)\<rparr>)"
  using assms node_index_butlast [of "lru s"]
  by (auto simp: wf_store_def map_butlast distinct_butlast dest: in_set_butlastD)

definition evict_sim :: "lru_store \<Rightarrow> int \<Rightarrow> bool" where
  "evict_sim s n \<longleftrightarrow>
     (case FreeSpace s n of
        Inl e \<Rightarrow> spec_evict (abs_store s) n = Inl e
      | Inr (s', ok) \<Rightarrow> ok \<and> wf_store s' \<and> spec_evict (abs_store s) n = Inr (abs_store s') \<and>
          next_node s' = next_node s \<and> (\<exists>m. lru s' = take m (lru s)))"

lemma evict_sim_step:
  assumes "FreeSpace s n = FreeSpace t n" "spec_evict (abs_store s) n = spec_evict (abs_store t) n"
    and "next_node t = next_node s" "lru t = take m (lru s)" "evict_sim t n"
  shows "evict_sim s n"
  using assms by (auto simp: evict_sim_def split: sum.splits)

lemma FreeSpace_refines: "wf_store s \<Longrightarrow> evict_sim s n"
proof (induction s n rule: FreeSpace.induct)
  case (1 s n)
  show ?case
  proof (cases "in_int (current_size s + n) \<and> current_size s + n > max_size s \<and> lru s \<noteq> []")
    case False
    with 1 show ?thesis
      by (auto simp: evict_sim_def FreeSpace.simps [of s n] spec_evict.simps [of "abs_store s" n]
          intro: exI [of _ "length (lru s)"])
  next
    case True
    obtain i k v where l: "last (lru s) = (i, k, v)" by (cases "last (lru s)")
    let ?cur = "current_size s - to_int (pair_size k v)"
    let ?s = "s\<lparr>current_size := ?cur, cacheMap := (cacheMap s)(k := None), lru := butlast (lru s)\<rparr>"
    have unf: "FreeSpace s n = (if \<not> in_int ?cur then Inl Signed_overflow else FreeSpace ?s n)"
      using True by (subst FreeSpace.simps) (simp add: l)
    have "last (map snd (lru s)) = (k, v)" using True by (simp add: last_map l)
    then have unf': "spec_evict (abs_store s) n =
        (if \<not> in_int ?cur then Inl Signed_overflow else spec_evict (abs_store ?s) n)"
      using True by (subst spec_evict.simps) (simp add: abs_store_def map_butlast)
    show ?thesis
    proof (cases "in_int ?cur")
      case False
      then show ?thesis by (simp add: unf unf' evict_sim_def)
    next
      case c: True
      have "wf_store ?s" using 1(2) True l by (intro wf_butlast) auto
      moreover have "\<not> \<not> in_int (current_size s + n)" "\<not> \<not> in_int ?cur" using True c by simp_all
      ultimately have "evict_sim ?s n"
        using True l c by (intro 1(1) [where x = "last (lru s)" and xa = i and y = "(k, v)"]) simp_all
      then show ?thesis
        by (rule evict_sim_step [rotated -1, where m = "length (lru s) - 1"])
          (use unf unf' c in \<open>simp_all add: butlast_conv_take\<close>)
    qed
  qed
qed

definition op_sim :: "ub + lru_store \<times> 'b \<Rightarrow> ub + lru_spec \<times> 'b \<Rightarrow> bool" where
  "op_sim r a \<longleftrightarrow>
     (case r of Inl e \<Rightarrow> a = Inl e | Inr (s', b) \<Rightarrow> wf_store s' \<and> a = Inr (abs_store s', b))"

lemma op_sim_simps [simp]:
  "op_sim (Inl e) a \<longleftrightarrow> a = Inl e"
  "op_sim (Inr (s', b)) a \<longleftrightarrow> wf_store s' \<and> a = Inr (abs_store s', b)"
  by (simp_all add: op_sim_def)

lemma FreeSpace_cases [consumes 1, case_names fails frees]:
  assumes "wf_store s"
  obtains (fails) e where "FreeSpace s n = Inl e" "spec_evict (abs_store s) n = Inl e"
    | (frees) s' m where "FreeSpace s n = Inr (s', True)" "wf_store s'"
        "spec_evict (abs_store s) n = Inr (abs_store s')" "lru s' = take m (lru s)"
  using FreeSpace_refines [OF assms, of n]
  by (cases "FreeSpace s n") (auto simp: evict_sim_def)

lemma wf_add_size [simp]: "wf_store (add_size s n) = wf_store s"
  by (simp add: wf_store_def add_size_def)

lemma wf_push_front:
  assumes "wf_store s" "map_of (map snd (lru s)) key = None"
  shows "wf_store (push_front s key value)"
proof -
  have "key \<notin> (\<lambda>n. fst (snd n)) ` set (lru s)"
    using assms(2) by (simp add: map_of_eq_None_iff image_image)
  moreover have "next_node s \<notin> fst ` set (lru s)" using assms(1) by (auto simp: wf_store_def)
  ultimately show ?thesis
    using assms(1) by (auto simp: wf_store_def push_front_def node_index_def less_Suc_eq)
qed

lemma abs_push_front:
  "abs_store (add_size (push_front s key value) n) =
     (abs_store s)\<lparr>spec_ents := (key, value) # map snd (lru s), spec_cur := to_int (current_size s + n)\<rparr>"
  by (simp add: abs_store_def add_size_def push_front_def to_int_to_size_t)

lemma map_of_take_None: "map_of ps k = None \<Longrightarrow> map_of (take m ps) k = None"
  by (auto simp: map_of_eq_None_iff dest: in_set_takeD)

lemma insert_refines:
  assumes wf: "wf_store s" and new: "map_of (map snd (lru s)) key = None"
  shows "op_sim
     (res_bind (FreeSpace s (to_int (pair_size key value))) (\<lambda>(s1, ok).
        if \<not> ok then Inr (s1, False)
        else Inr (add_size (push_front s1 key value) (pair_size key value), True)))
     (spec_insert (abs_store s) key value)"
  using wf
proof (cases rule: FreeSpace_cases [where n = "to_int (pair_size key value)"])
  case (fails e)
  then show ?thesis by (simp add: spec_insert_def)
next
  case (frees s' m)
  then have "map_of (map snd (lru s')) key = None"
    using map_of_take_None [OF new, of m] by (simp add: take_map)
  with frees show ?thesis by (simp add: spec_insert_def wf_push_front abs_push_front)
qed

text \<open>
  Replacing the value of a key that has a node: the node is spliced to the front, so it is the
  last one \<open>FreeSpace\<close> would drop.
\<close>

lemma splice_head:
  assumes wf: "wf_store s" and it: "cacheMap s key = Some it"
  obtains v where "map_of (lru s) it = Some (key, v)" "map_of (map snd (lru s)) key = Some v"
    "\<And>s1. s1 = s\<lparr>lru := splice_front it (lru s)\<rparr> \<Longrightarrow> wf_store s1 \<and>
       lru s1 = (it, key, v) # filter (\<lambda>n. fst n \<noteq> it) (lru s) \<and>
       abs_store s1 = (abs_store s)\<lparr>spec_ents := splice_front key (map snd (lru s))\<rparr>"
proof -
  from wf it obtain v where v: "(it, key, v) \<in> set (lru s)" "map_of (lru s) it = Some (key, v)"
    "map_of (map snd (lru s)) key = Some v" by (rule wf_index)
  have d: "distinct (map fst (lru s))" "distinct (map (\<lambda>n. fst (snd n)) (lru s))"
    using wf by (simp_all add: wf_store_def)
  have "map snd (splice_front it (lru s)) = splice_front key (map snd (lru s))"
    using d v(1) by (rule splice_front_snd)
  then show ?thesis
    using v wf splice_front_Cons [OF d(1) v(1)] wf_splice [OF wf, of it]
    by (intro that) (auto simp: abs_store_def)
qed

lemma take_Cons_tl: "ns = take m (x # xs) \<Longrightarrow> ns \<noteq> [] \<Longrightarrow> ns = x # tl ns"
  by (cases m) auto

lemma wf_set_value:
  "wf_store s \<Longrightarrow> lru s = (i, k, v) # ns \<Longrightarrow> wf_store (s\<lparr>lru := (i, k, v') # ns\<rparr>)"
  by (auto simp: wf_store_def node_index_def)

theorem Put_refines: "wf_store s \<Longrightarrow> op_sim (Put s key value) (spec_put (abs_store s) key value)"
proof (cases "cacheMap s key")
  case None
  assume wf: "wf_store s"
  then have "map_of (map snd (lru s)) key = None" using None by (simp add: wf_index_None)
  with None wf insert_refines [OF wf this, of "value"] show ?thesis
    by (simp add: Put_def spec_put_def Let_def)
next
  case (Some it)
  assume wf: "wf_store s"
  from splice_head [OF wf Some] obtain v where v: "map_of (lru s) it = Some (key, v)"
    "map_of (map snd (lru s)) key = Some v" and
    s1: "\<And>s1. s1 = s\<lparr>lru := splice_front it (lru s)\<rparr> \<Longrightarrow> wf_store s1 \<and>
       lru s1 = (it, key, v) # filter (\<lambda>n. fst n \<noteq> it) (lru s) \<and>
       abs_store s1 = (abs_store s)\<lparr>spec_ents := splice_front key (map snd (lru s))\<rparr>" by blast
  define s1 where "s1 = s\<lparr>lru := splice_front it (lru s)\<rparr>"
  note s1v = s1 [OF s1_def]
  from s1v have "wf_store s1" by simp
  then show ?thesis
  proof (cases rule: FreeSpace_cases [where n = "to_int (pair_size key value - pair_size key v)"])
    case (fails e)
    then show ?thesis
      using wf Some v s1v by (simp add: Put_def spec_put_def to_int_to_size_t Let_def flip: s1_def)
  next
    case (frees s' m)
    have head: "lru s' \<noteq> [] \<Longrightarrow> lru s' = (it, key, v) # tl (lru s')"
      using s1v frees by (intro take_Cons_tl) auto
    show ?thesis
    proof (cases "lru s' = []")
      case True
      with wf Some v s1v frees show ?thesis
        by (simp add: Put_def spec_put_def to_int_to_size_t Let_def set_front_value_def flip: s1_def)
    next
      case False
      then obtain ns where ns: "lru s' = (it, key, v) # ns" using head by blast
      have "abs_store (s'\<lparr>lru := (it, key, value) # ns\<rparr>)
          = (abs_store s')\<lparr>spec_ents := (key, value) # map snd ns\<rparr>"
        by (simp add: abs_store_def)
      then show ?thesis
        using wf wf_set_value [OF frees(2) ns, of "value"] Some v s1v frees(1,3) ns
        by (simp add: Put_def spec_put_def to_int_to_size_t Let_def set_front_value_def flip: s1_def)
    qed
  qed
qed

theorem PutIfAbsent_refines:
  assumes wf: "wf_store s"
  shows "op_sim (PutIfAbsent s key value) (spec_put_if_absent (abs_store s) key value)"
proof (cases "cacheMap s key")
  case None
  with wf have "map_of (map snd (lru s)) key = None" by (simp add: wf_index_None)
  with None wf insert_refines [OF wf this, of "value"] show ?thesis
    by (simp add: PutIfAbsent_def spec_put_if_absent_def Let_def)
next
  case (Some it)
  then have "map_of (map snd (lru s)) key \<noteq> None"
    using wf_index_None [OF wf, of key] by simp
  then show ?thesis
    using wf Some by (auto simp: PutIfAbsent_def spec_put_if_absent_def Let_def)
qed

theorem Set_refines:
  assumes wf: "wf_store s"
  shows "op_sim (Set s key value) (spec_set (abs_store s) key value)"
proof (cases "cacheMap s key")
  case None
  with wf have "map_of (map snd (lru s)) key = None" by (simp add: wf_index_None)
  with None wf show ?thesis by (simp add: Set_def spec_set_def Let_def)
next
  case (Some it)
  from splice_head [OF wf Some] obtain v where v: "map_of (lru s) it = Some (key, v)"
    "map_of (map snd (lru s)) key = Some v" and
    s1: "\<And>s1. s1 = s\<lparr>lru := splice_front it (lru s)\<rparr> \<Longrightarrow> wf_store s1 \<and>
       lru s1 = (it, key, v) # filter (\<lambda>n. fst n \<noteq> it) (lru s) \<and>
       abs_store s1 = (abs_store s)\<lparr>spec_ents := splice_front key (map snd (lru s))\<rparr>" by blast
  define s1 where "s1 = s\<lparr>lru := splice_front it (lru s)\<rparr>"
  note s1v = s1 [OF s1_def]
  from s1v have "wf_store s1" by simp
  then show ?thesis
  proof (cases rule: FreeSpace_cases [where n = "to_int (pair_size key value - pair_size key v)"])
    case (fails e)
    then show ?thesis
      using wf Some v s1v
      by (simp add: Set_def spec_set_def to_int_to_size_t Let_def flip: s1_def)
  next
    case (frees s' m)
    have head: "lru s' \<noteq> [] \<Longrightarrow> lru s' = (it, key, v) # tl (lru s')"
      using s1v frees by (intro take_Cons_tl) auto
    show ?thesis
    proof (cases "lru s' = []")
      case True
      with wf Some v s1v frees show ?thesis
        by (simp add: Set_def spec_set_def to_int_to_size_t Let_def flip: s1_def)
    next
      case False
      then obtain ns where ns: "lru s' = (it, key, v) # ns" using head by blast
      define t where "t = add_size ((add_size s' (- int (length v)))\<lparr>lru := (it, key, value) # ns\<rparr>)
        (pair_size key value)"
      have "wf_store ((add_size s' (- int (length v)))\<lparr>lru := (it, key, value) # ns\<rparr>)"
        using frees(2) ns by (intro wf_set_value [where v = v]) (simp, simp add: add_size_def)
      then have wft: "wf_store t" by (simp add: t_def)
      have "abs_store t = (abs_store s')\<lparr>spec_ents := (key, value) # map snd ns,
          spec_cur := to_int (current_size s' - int (length v) + pair_size key value)\<rparr>"
        by (simp add: t_def abs_store_def add_size_def to_int_to_size_t to_int_add)
      then show ?thesis
        using wf wft Some v s1v frees(1,3) ns
        by (simp add: Set_def spec_set_def to_int_to_size_t Let_def set_front_value_def t_def
            add_size_def flip: s1_def)
    qed
  qed
qed

theorem Get_refines:
  assumes wf: "wf_store s"
  shows "op_sim (Get s key value) (Inr (spec_get (abs_store s) key value))"
proof (cases "cacheMap s key")
  case None
  with wf have "map_of (map snd (lru s)) key = None" by (simp add: wf_index_None)
  with None wf show ?thesis by (simp add: Get_def spec_get_def)
next
  case (Some it)
  from splice_head [OF wf Some] obtain v where v: "map_of (lru s) it = Some (key, v)"
    "map_of (map snd (lru s)) key = Some v" and
    s1: "\<And>s1. s1 = s\<lparr>lru := splice_front it (lru s)\<rparr> \<Longrightarrow> wf_store s1 \<and>
       lru s1 = (it, key, v) # filter (\<lambda>n. fst n \<noteq> it) (lru s) \<and>
       abs_store s1 = (abs_store s)\<lparr>spec_ents := splice_front key (map snd (lru s))\<rparr>" by blast
  define s1 where "s1 = s\<lparr>lru := splice_front it (lru s)\<rparr>"
  from s1 [OF s1_def] Some v show ?thesis
    by (simp add: Get_def spec_get_def Let_def flip: s1_def)
qed

section \<open>What stays in the cache\<close>

lemma spec_evict_take:
  "spec_evict a n = Inr a' \<Longrightarrow> \<exists>m. spec_ents a' = take m (spec_ents a)"
proof (induction a n rule: spec_evict.induct)
  case (1 a n)
  show ?case
  proof (cases "in_int (spec_cur a + n) \<and> spec_cur a + n > spec_max a \<and> spec_ents a \<noteq> []")
    case False
    with 1(2) have "a' = a" by (auto simp: spec_evict.simps [of a n] split: if_splits)
    then show ?thesis by (auto intro: exI [of _ "length (spec_ents a)"])
  next
    case True
    define cur where "cur = spec_cur a - to_int (case last (spec_ents a) of (k, v) \<Rightarrow> pair_size k v)"
    with True 1(2) have "in_int cur"
      and ev: "spec_evict (a\<lparr>spec_cur := cur, spec_ents := butlast (spec_ents a)\<rparr>) n = Inr a'"
      by (auto simp: spec_evict.simps [of a n] Let_def split: if_splits)
    with 1(1) [OF _ _ _ cur_def] True obtain m where "spec_ents a' = take m (butlast (spec_ents a))"
      by auto
    then show ?thesis by (auto simp: butlast_conv_take)
  qed
qed

text \<open>
  The keys a storing operation keeps: the key itself in front, then the others in their old order
  of recency, cut off at some length.
\<close>

definition kept :: "(string \<times> string) list \<Rightarrow> string \<Rightarrow> string \<Rightarrow> (string \<times> string) list \<Rightarrow> bool" where
  "kept es k v es' \<longleftrightarrow> (\<exists>m. es' = (k, v) # take m (filter (\<lambda>p. fst p \<noteq> k) es))"

lemma filter_absent: "map_of es k = None \<Longrightarrow> filter (\<lambda>p. fst p \<noteq> k) es = es"
  by (induction es) (auto split: if_splits)

lemma spec_insert_kept:
  "map_of (spec_ents a) k = None \<Longrightarrow> spec_insert a k v = Inr (a', b) \<Longrightarrow>
     b \<and> kept (spec_ents a) k v (spec_ents a')"
  by (auto simp: spec_insert_def kept_def filter_absent res_simps dest: spec_evict_take)

lemma take_splice_kept:
  assumes "distinct (map fst es)" "map_of es k = Some old"
    and "es' = take m (splice_front k es)" "es' \<noteq> []"
  shows "kept es k v ((k, v) # tl es')"
proof -
  have "es' = take m ((k, old) # filter (\<lambda>p. fst p \<noteq> k) es)"
    using assms splice_front_Cons [OF assms(1) map_of_SomeD [OF assms(2)]] by simp
  with assms(4) show ?thesis by (cases m) (auto simp: kept_def)
qed

lemma spec_put_kept:
  assumes "distinct (map fst (spec_ents a))" "spec_put a k v = Inr (a', True)"
  shows "kept (spec_ents a) k v (spec_ents a')"
proof (cases "map_of (spec_ents a) k")
  case None
  with assms(2) show ?thesis
    by (auto simp: spec_put_def split: if_splits dest: spec_insert_kept)
next
  case (Some old)
  with assms(2) show ?thesis
    by (auto simp: spec_put_def res_simps split: if_splits
        dest!: spec_evict_take intro!: take_splice_kept [OF assms(1) Some refl])
qed

lemma spec_put_if_absent_kept:
  "spec_put_if_absent a k v = Inr (a', True) \<Longrightarrow>
     map_of (spec_ents a) k = None \<and> kept (spec_ents a) k v (spec_ents a')"
  by (auto simp: spec_put_if_absent_def split: if_splits dest: spec_insert_kept)

lemma spec_set_kept:
  assumes "distinct (map fst (spec_ents a))" "spec_set a k v = Inr (a', True)"
  shows "map_of (spec_ents a) k \<noteq> None \<and> kept (spec_ents a) k v (spec_ents a')"
proof (cases "map_of (spec_ents a) k")
  case None
  with assms(2) show ?thesis by (auto simp: spec_set_def split: if_splits)
next
  case (Some old)
  with assms(2) show ?thesis
    by (auto simp: spec_set_def res_simps split: if_splits
        dest!: spec_evict_take intro!: take_splice_kept [OF assms(1) Some refl])
qed

lemma map_of_take: "map_of (take m ps) k = None \<or> map_of (take m ps) k = map_of ps k"
proof -
  have "map_of ps = map_of (drop m ps) ++ map_of (take m ps)"
    by (metis append_take_drop_id map_of_append)
  then show ?thesis by (auto simp: map_add_def split: option.splits)
qed

lemma kept_lookup:
  assumes "kept es k v es'"
  shows "map_of es' k = Some v" "may_forget (map_of es) (map_of es') k"
proof -
  obtain m where es': "es' = (k, v) # take m (filter (\<lambda>p. fst p \<noteq> k) es)"
    using assms by (auto simp: kept_def)
  then show "map_of es' k = Some v" by simp
  have "map_of (filter (\<lambda>p. fst p \<noteq> k) es) k' = map_of es k'" if "k' \<noteq> k" for k'
    using that by (simp add: map_of_filter_neq)
  with es' map_of_take [of m "filter (\<lambda>p. fst p \<noteq> k) es"]
  show "may_forget (map_of es) (map_of es') k" by (auto simp: may_forget_def) metis
qed

section \<open>The storage contract\<close>

definition lru_ops :: "lru_store storage_ops" where
  "lru_ops = \<lparr>op_Put = Put, op_PutIfAbsent = PutIfAbsent, op_Set = Set, op_Delete = Delete,
     op_Get = Get, op_GetSize = GetSize, op_SetNewCurrentSize = SetNewCurrentSize,
     op_GetCurrentSize = GetCurrentSize\<rparr>"

lemma lru_ops_sel [simp]:
  "op_Put lru_ops = Put" "op_PutIfAbsent lru_ops = PutIfAbsent" "op_Set lru_ops = Set"
  "op_Delete lru_ops = Delete" "op_Get lru_ops = Get"
  by (simp_all add: lru_ops_def)

lemma lookup_store_abs: "lookup_store s = map_of (spec_ents (abs_store s))"
  by (simp add: lookup_store_def)

lemma wf_distinct_abs: "wf_store s \<Longrightarrow> distinct (map fst (spec_ents (abs_store s)))"
  using wf_distinct_keys [of s] by simp

lemma refused_unchanged:
  "wf_store s \<Longrightarrow> Put s k v = Inr (s', False) \<Longrightarrow> s' = s"
  "wf_store s \<Longrightarrow> PutIfAbsent s k v = Inr (s', False) \<Longrightarrow> s' = s"
  "wf_store s \<Longrightarrow> Set s k v = Inr (s', False) \<Longrightarrow> s' = s"
proof -
  have "FreeSpace s n \<noteq> Inr (t, False)" if "wf_store s" for s n t
    using FreeSpace_refines [OF that, of n] by (auto simp: evict_sim_def)
  then show "wf_store s \<Longrightarrow> Put s k v = Inr (s', False) \<Longrightarrow> s' = s"
    "wf_store s \<Longrightarrow> PutIfAbsent s k v = Inr (s', False) \<Longrightarrow> s' = s"
    "wf_store s \<Longrightarrow> Set s k v = Inr (s', False) \<Longrightarrow> s' = s"
    by (auto simp: Put_def PutIfAbsent_def Set_def Let_def res_simps wf_splice
        split: if_splits option.splits)
qed

text \<open>Erasing the node invalidates the reference the index compares with.\<close>

lemma Delete_present:
  assumes "wf_store s" "cacheMap s k = Some it"
  shows "Delete s k = Inl Dangling_key_reference"
proof -
  from assms obtain v where "map_of (lru s) it = Some (k, v)" by (rule wf_index)
  then show ?thesis using assms(2) by (simp add: Delete_def Let_def map_of_filter_neq)
qed

lemma Delete_answer: "wf_store s \<Longrightarrow> Delete s k = Inr (s', b) \<Longrightarrow>
    \<not> b \<and> s' = s \<and> lookup_store s k = None"
  using wf_index_None [of s k] Delete_present [of s k]
  by (cases "cacheMap s k") (auto simp: Delete_def lookup_store_def)

lemma stored_kept:
  assumes "wf_store s"
  shows "Put s k v = Inr (s', True) \<Longrightarrow> wf_store s' \<and> kept (map snd (lru s)) k v (map snd (lru s'))"
    and "PutIfAbsent s k v = Inr (s', True) \<Longrightarrow>
      lookup_store s k = None \<and> wf_store s' \<and> kept (map snd (lru s)) k v (map snd (lru s'))"
    and "Set s k v = Inr (s', True) \<Longrightarrow>
      lookup_store s k \<noteq> None \<and> wf_store s' \<and> kept (map snd (lru s)) k v (map snd (lru s'))"
proof -
  note d = wf_distinct_abs [OF assms]
  show "Put s k v = Inr (s', True) \<Longrightarrow> wf_store s' \<and> kept (map snd (lru s)) k v (map snd (lru s'))"
    using Put_refines [OF assms, of k v] spec_put_kept [OF d, of k v "abs_store s'"] by simp
  show "PutIfAbsent s k v = Inr (s', True) \<Longrightarrow>
      lookup_store s k = None \<and> wf_store s' \<and> kept (map snd (lru s)) k v (map snd (lru s'))"
    using PutIfAbsent_refines [OF assms, of k v]
      spec_put_if_absent_kept [of "abs_store s" k v "abs_store s'"]
    by (simp add: lookup_store_def)
  show "Set s k v = Inr (s', True) \<Longrightarrow>
      lookup_store s k \<noteq> None \<and> wf_store s' \<and> kept (map snd (lru s)) k v (map snd (lru s'))"
    using Set_refines [OF assms, of k v] spec_set_kept [OF d, of k v "abs_store s'"]
    by (simp add: lookup_store_def)
qed

lemma Get_answer:
  assumes "wf_store s"
  obtains (hit) s' v where "Get s k v0 = Inr (s', v, True)" "wf_store s'"
      "lookup_store s k = Some v" "lookup_store s' = lookup_store s"
      "map snd (lru s') = splice_front k (map snd (lru s))"
      "current_size s' = current_size s" "max_size s' = max_size s"
    | (miss) "Get s k v0 = Inr (s, v0, False)" "lookup_store s k = None"
proof (cases "lookup_store s k")
  case None
  then have "Get s k v0 = Inr (s, v0, False)"
    using wf_index_None [OF assms, of k] by (simp add: lookup_store_def Get_def)
  with None show ?thesis using miss by simp
next
  case (Some v)
  have sim: "op_sim (Get s k v0) (Inr (spec_get (abs_store s) k v0))"
    using assms by (rule Get_refines)
  with Some obtain s' where s': "Get s k v0 = Inr (s', v, True)" "wf_store s'"
    "abs_store s' = (abs_store s)\<lparr>spec_ents := splice_front k (map snd (lru s))\<rparr>"
    by (cases "Get s k v0") (auto simp: spec_get_def lookup_store_def)
  have a: "spec_ents (abs_store s') = splice_front k (map snd (lru s))"
    "spec_cur (abs_store s') = current_size s" "spec_max (abs_store s') = max_size s"
    unfolding s'(3) by simp_all
  then have "lookup_store s' = lookup_store s"
    using map_of_splice_front [OF wf_distinct_keys [OF assms]] by (simp add: lookup_store_def)
  with s'(1,2) a Some show ?thesis using hit [of s' v] by auto
qed

interpretation lru: storage_contract lru_ops wf_store lookup_store
proof (unfold_locales, goal_cases)
  case (1 s k v s')
  then show ?case using stored_kept(1) [of s k v s'] by (auto simp: lookup_store_def dest: kept_lookup)
next
  case (2 s k v s')
  then show ?case using refused_unchanged(1) by simp
next
  case (3 s k v s')
  then show ?case using stored_kept(2) [of s k v s'] by (auto simp: lookup_store_def dest: kept_lookup)
next
  case (4 s k v s')
  then show ?case using refused_unchanged(2) by simp
next
  case (5 s k v s')
  then show ?case using stored_kept(3) [of s k v s'] by (auto simp: lookup_store_def dest: kept_lookup)
next
  case (6 s k v s')
  then show ?case using refused_unchanged(3) by simp
next
  case (7 s k s')
  then show ?case using Delete_answer [of s k s' True] by simp
next
  case (8 s k s')
  then show ?case using Delete_answer [of s k s' False] by simp
next
  case (9 s k v0 s' v)
  then show ?case by (cases rule: Get_answer [OF 9(1), of k v0]) auto
next
  case (10 s k v0 s' v)
  then show ?case by (cases rule: Get_answer [OF 10(1), of k v0]) auto
next
  case (11 s k v0)
  then show ?case by (cases rule: Get_answer [OF 11, of k v0]) auto
qed

text \<open>The capacity never changes, and an entry is refused only when it is larger than the capacity.\<close>

definition fits_store :: "lru_store \<Rightarrow> string \<Rightarrow> string \<Rightarrow> bool" where
  "fits_store s k v \<longleftrightarrow> pair_size k v \<le> to_size_t (max_size s)"

lemma spec_evict_max: "spec_evict a n = Inr a' \<Longrightarrow> spec_max a' = spec_max a"
proof (induction a n rule: spec_evict.induct)
  case (1 a n)
  then show ?case by (subst (asm) (2) spec_evict.simps) (auto simp: Let_def split: if_splits)
qed

lemma spec_answer:
  "spec_put a k v = Inr (a', b) \<Longrightarrow> b = (pair_size k v \<le> to_size_t (spec_max a)) \<and> spec_max a' = spec_max a"
  "spec_put_if_absent a k v = Inr (a', b) \<Longrightarrow>
     b = (pair_size k v \<le> to_size_t (spec_max a) \<and> map_of (spec_ents a) k = None) \<and> spec_max a' = spec_max a"
  "spec_set a k v = Inr (a', b) \<Longrightarrow>
     b = (pair_size k v \<le> to_size_t (spec_max a) \<and> map_of (spec_ents a) k \<noteq> None) \<and> spec_max a' = spec_max a"
  "spec_get a k v = (a', v', b) \<Longrightarrow> spec_max a' = spec_max a"
  by (auto simp: spec_put_def spec_put_if_absent_def spec_set_def spec_get_def spec_insert_def res_simps
      dest!: spec_evict_max split: if_splits option.splits)

lemma op_sim_Inr: "op_sim (Inr (s', b)) r \<Longrightarrow> \<exists>a. r = Inr (a, b) \<and> max_size s' = spec_max a"
  by (cases r) auto

interpretation lru_bounded: bounded_storage lru_ops wf_store lookup_store fits_store
proof (unfold_locales, goal_cases)
  case (1 s k v s' b)
  then show ?case using op_sim_Inr [of s' b "spec_put (abs_store s) k v"] Put_refines [of s k v] spec_answer(1) [of "abs_store s" k v _ b]
    by (force simp: fits_store_def fun_eq_iff)
next
  case (2 s k v s' b)
  then show ?case using op_sim_Inr [of s' b "spec_put_if_absent (abs_store s) k v"] PutIfAbsent_refines [of s k v]
      spec_answer(2) [of "abs_store s" k v _ b]
    by (force simp: fits_store_def fun_eq_iff lookup_store_def)
next
  case (3 s k v s' b)
  then show ?case using op_sim_Inr [of s' b "spec_set (abs_store s) k v"] Set_refines [of s k v]
      spec_answer(3) [of "abs_store s" k v _ b]
    by (force simp: fits_store_def fun_eq_iff lookup_store_def)
next
  case (4 s k v0 s' v b)
  then show ?case by (cases rule: Get_answer [OF 4(1), of k v0]) (auto simp: fits_store_def fun_eq_iff)
qed

section \<open>Size accounting\<close>

lemma pair_size_nonneg [simp]: "0 \<le> pair_size k v"
  by (simp add: pair_size_def)

definition ents_bytes :: "(string \<times> string) list \<Rightarrow> int" where
  "ents_bytes es = sum_list (map (\<lambda>(k, v). pair_size k v) es)"

lemma ents_bytes_simps [simp]:
  "ents_bytes [] = 0" "ents_bytes ((k, v) # es) = pair_size k v + ents_bytes es"
  by (simp_all add: ents_bytes_def)

lemma ents_bytes_nonneg: "0 \<le> ents_bytes es"
  by (induction es) auto

lemma ents_bytes_append: "ents_bytes (xs @ ys) = ents_bytes xs + ents_bytes ys"
  by (simp add: ents_bytes_def)

lemma stored_bytes_abs: "stored_bytes s = ents_bytes (map snd (lru s))"
  by (simp add: stored_bytes_def ents_bytes_def o_def case_prod_unfold)

lemma ents_bytes_splice:
  "ents_bytes (splice_front k es) = ents_bytes es"
  by (induction es) (auto simp: splice_front_def ents_bytes_append)

text \<open>With exact accounting, making room for an entry that fits never fails.\<close>

lemma spec_evict_accounted:
  assumes "spec_cur a = ents_bytes (spec_ents a)" "spec_cur a \<le> spec_max a"
    and "0 \<le> n" "n \<le> spec_max a" "spec_max a < 2 ^ 30"
  shows "\<exists>a'. spec_evict a n = Inr a' \<and> spec_cur a' = ents_bytes (spec_ents a') \<and>
     spec_cur a' + n \<le> spec_max a \<and> spec_max a' = spec_max a"
  using assms
proof (induction a n rule: spec_evict.induct)
  case (1 a n)
  have pos: "0 \<le> spec_cur a" using 1(2) ents_bytes_nonneg by simp
  then have ok: "in_int (spec_cur a + n)" using 1(3-6) by (simp add: in_int_def)
  show ?case
  proof (cases "spec_cur a + n > spec_max a")
    case False
    with ok 1(2) show ?thesis by (simp add: spec_evict.simps [of a n])
  next
    case True
    with 1(2-5) have ne: "spec_ents a \<noteq> []" by (metis ents_bytes_simps(1) add_0 linorder_not_less)
    obtain k v es where es: "spec_ents a = es @ [(k, v)]"
      using ne by (metis append_butlast_last_id surj_pair)
    have le: "pair_size k v \<le> spec_cur a" using 1(2) ents_bytes_nonneg [of es]
      by (simp add: es ents_bytes_append)
    then have ti: "to_int (pair_size k v) = pair_size k v"
      using 1(3,6) by (intro to_int_id) (simp add: in_int_def order.trans [OF _ pair_size_nonneg])
    define cur where "cur = spec_cur a - pair_size k v"
    have "0 \<le> cur" "cur \<le> spec_cur a" using le by (simp_all add: cur_def)
    then have cur: "in_int cur" "cur \<le> spec_max a" using 1(3,6) by (simp_all add: in_int_def)
    moreover have "cur = ents_bytes es" using 1(2) by (simp add: cur_def es ents_bytes_append)
    ultimately have "\<exists>a'. spec_evict (a\<lparr>spec_cur := cur, spec_ents := butlast (spec_ents a)\<rparr>) n = Inr a' \<and>
        spec_cur a' = ents_bytes (spec_ents a') \<and> spec_cur a' + n \<le> spec_max a \<and> spec_max a' = spec_max a"
      using 1(1) [of cur] ok True ne 1(4-6) by (simp add: es ti cur_def)
    then show ?thesis
      using ok True ne cur by (simp add: spec_evict.simps [of a n] es ti flip: cur_def)
  qed
qed

lemma insert_accounted:
  assumes "accounted s" "pair_size k v \<le> max_size s"
  shows "\<exists>a'. spec_insert (abs_store s) k v = Inr (a', True) \<and>
     spec_cur a' = ents_bytes (spec_ents a') \<and> spec_cur a' \<le> max_size s \<and> spec_max a' = max_size s"
proof -
  have n: "to_int (pair_size k v) = pair_size k v"
    using assms by (intro to_int_id) (simp add: accounted_def in_int_def order.trans [OF _ pair_size_nonneg])
  from spec_evict_accounted [of "abs_store s" "pair_size k v"] assms
  obtain a' where a': "spec_evict (abs_store s) (pair_size k v) = Inr a'"
    "spec_cur a' = ents_bytes (spec_ents a')" "spec_cur a' + pair_size k v \<le> max_size s"
    "spec_max a' = max_size s"
    by (auto simp: accounted_def stored_bytes_abs)
  have "in_int (spec_cur a' + pair_size k v)"
    using a' add_nonneg_nonneg [OF ents_bytes_nonneg [of "spec_ents a'"] pair_size_nonneg [of k v]] assms
    by (simp add: accounted_def in_int_def)
  with a' n show ?thesis by (simp add: spec_insert_def to_int_id)
qed

lemma accounted_to_size: "accounted s \<Longrightarrow> to_size_t (max_size s) = max_size s"
  by (simp add: accounted_def to_size_t_id)

lemma fresh_store:
  assumes "wf_store s" "accounted s" "cacheMap s k = None"
  shows "\<exists>s'. Put s k v = Inr (s', pair_size k v \<le> max_size s) \<and> wf_store s' \<and> accounted s' \<and>
      max_size s' = max_size s"
    and "\<exists>s'. PutIfAbsent s k v = Inr (s', pair_size k v \<le> max_size s) \<and> wf_store s' \<and> accounted s' \<and>
      max_size s' = max_size s"
proof -
  have new: "map_of (map snd (lru s)) k = None" using assms wf_index_None by simp
  have fits: "\<exists>s'. r = Inr (s', pair_size k v \<le> max_size s) \<and> wf_store s' \<and> accounted s' \<and>
      max_size s' = max_size s"
    if "op_sim r (if pair_size k v > max_size s then Inr (abs_store s, False)
        else spec_insert (abs_store s) k v)" "pair_size k v > max_size s \<Longrightarrow> r = Inr (s, False)" for r
  proof (cases "pair_size k v > max_size s")
    case True
    with that assms show ?thesis by auto
  next
    case False
    with insert_accounted [OF assms(2), of k v] that(1) obtain s' where
      "r = Inr (s', True)" "wf_store s'" "current_size s' = ents_bytes (map snd (lru s'))"
      "current_size s' \<le> max_size s" "max_size s' = max_size s"
      by (cases r) (auto dest: arg_cong [where f = spec_cur] arg_cong [where f = spec_max]
          arg_cong [where f = spec_ents])
    with False assms(2) show ?thesis by (auto simp: accounted_def stored_bytes_abs)
  qed
  show "\<exists>s'. Put s k v = Inr (s', pair_size k v \<le> max_size s) \<and> wf_store s' \<and> accounted s' \<and>
      max_size s' = max_size s"
    using Put_refines [OF assms(1), of k v] assms new
    by (intro fits) (auto simp: spec_put_def Put_def accounted_to_size Let_def)
  show "\<exists>s'. PutIfAbsent s k v = Inr (s', pair_size k v \<le> max_size s) \<and> wf_store s' \<and> accounted s' \<and>
      max_size s' = max_size s"
    using PutIfAbsent_refines [OF assms(1), of k v] assms new
    by (intro fits) (auto simp: spec_put_if_absent_def PutIfAbsent_def accounted_to_size Let_def)
qed

text \<open>
  One step of a history that overwrites nothing keeps the store well-formed and the size exact,
  and it does not fail.
\<close>

lemma run_op_accounted:
  assumes "wf_store s" "accounted s" "\<not> overwrites s c"
  shows "\<exists>s'. run_op s c = Inr s' \<and> wf_store s' \<and> accounted s' \<and> max_size s' = max_size s"
proof (cases c)
  case (OpPut k v)
  with fresh_store(1) [OF assms(1,2), of k v] assms(3) show ?thesis by auto
next
  case (OpPutIfAbsent k v)
  show ?thesis
  proof (cases "cacheMap s k")
    case None
    with fresh_store(2) [OF assms(1,2), of k v] OpPutIfAbsent show ?thesis by auto
  next
    case (Some it)
    then have "PutIfAbsent s k v = Inr (s, False)" by (simp add: PutIfAbsent_def Let_def)
    with OpPutIfAbsent assms show ?thesis by simp
  qed
next
  case (OpSet k v)
  with assms(3) have "Set s k v = Inr (s, False)" by (simp add: Set_def Let_def)
  with OpSet assms show ?thesis by simp
next
  case (OpGet k)
  from assms(1) show ?thesis
  proof (cases rule: Get_answer [of s k "[]"])
    case (hit s' v)
    with OpGet assms(2) show ?thesis
      by (auto simp: accounted_def stored_bytes_abs ents_bytes_splice)
  next
    case miss
    with OpGet assms show ?thesis by simp
  qed
qed

lemma run_ops_accounted:
  "wf_store s \<Longrightarrow> accounted s \<Longrightarrow> no_overwrite s cs \<Longrightarrow>
     \<exists>s'. run_ops s cs = Inr s' \<and> wf_store s' \<and> accounted s' \<and> max_size s' = max_size s"
proof (induction cs arbitrary: s)
  case (Cons c cs)
  from Cons.prems run_op_accounted [of s c] obtain s1 where s1: "run_op s c = Inr s1" "wf_store s1"
    "accounted s1" "max_size s1 = max_size s" by auto
  with Cons.prems(3) have "no_overwrite s1 cs" by simp
  from Cons.IH [OF s1(2,3) this] s1 show ?case by auto
qed simp

lemma wf_init [simp]: "wf_store (MapBasedGlobalLockImpl m)"
  by (simp add: wf_store_def MapBasedGlobalLockImpl_def node_index_def)

lemma accounted_init: "0 \<le> m \<Longrightarrow> m < 2 ^ 30 \<Longrightarrow> accounted (MapBasedGlobalLockImpl m)"
  by (simp add: accounted_def MapBasedGlobalLockImpl_def stored_bytes_def)

lemma run_op_wf: "wf_store s \<Longrightarrow> run_op s c = Inr s' \<Longrightarrow> wf_store s'"
  by (cases c) (auto simp: res_simps dest: lru.put_inv lru.put_if_absent_inv lru.set_inv lru.get_inv)

lemma run_ops_wf: "wf_store s \<Longrightarrow> run_ops s cs = Inr s' \<Longrightarrow> wf_store s'"
  by (induction cs arbitrary: s) (auto simp: res_simps dest: run_op_wf)

section \<open>Properties of the storage\<close>

text \<open>
  C1: Each of the four storage operations the commands use does, on a well-formed store, exactly
  what the abstract least-recently-used cache does (the same failure, or the same answer and the
  state whose abstraction is the abstract result), and leaves the store well-formed.
\<close>

theorem storage_refines_cache:
  assumes "wf_store s"
  shows "op_sim (Put s key value) (spec_put (abs_store s) key value) \<and>
    op_sim (PutIfAbsent s key value) (spec_put_if_absent (abs_store s) key value) \<and>
    op_sim (Set s key value) (spec_set (abs_store s) key value) \<and>
    op_sim (Get s key value) (Inr (spec_get (abs_store s) key value))"
  using assms by (intro conjI Put_refines PutIfAbsent_refines Set_refines Get_refines)

theorem storage_refines_cache_witness:
  "wf_store (MapBasedGlobalLockImpl 8) \<and>
    op_sim (Put (MapBasedGlobalLockImpl 8) ''k'' ''v'')
      (spec_put (abs_store (MapBasedGlobalLockImpl 8)) ''k'' ''v'')"
  using storage_refines_cache [OF wf_init, of 8 "''k''" "''v''"] by simp

text \<open>
  C2: When \<open>Put\<close> answers true, a following \<open>Get\<close> of the key answers true with the stored value,
  whatever the caller's output buffer held.
\<close>

theorem put_then_get:
  assumes "wf_store s" "Put s key value = Inr (s', True)"
  shows "\<exists>s''. Get s' key out = Inr (s'', value, True)"
  using lru.get_after_put [of s key "value" s' out] assms by simp

theorem put_then_get_witness:
  "\<exists>s' s''. Put (MapBasedGlobalLockImpl 8) ''k'' ''v'' = Inr (s', True) \<and>
     Get s' ''k'' [] = Inr (s'', ''v'', True)"
proof -
  obtain s' where s': "Put (MapBasedGlobalLockImpl 8) ''k'' ''v'' = Inr (s', True)"
    by (simp add: Put_def MapBasedGlobalLockImpl_def pair_size_def to_size_t_def to_int_def
        in_int_def FreeSpace.simps Let_def)
  from put_then_get [OF wf_init s', of "[]"] s' show ?thesis by blast
qed

text \<open>
  C3: Eviction takes the least recently used entries: after a \<open>Put\<close> that answers true the list
  holds the key in front and then a prefix of the other entries in their previous order.
\<close>

theorem put_keeps_recent:
  assumes "wf_store s" "Put s key value = Inr (s', True)"
  shows "\<exists>m. map snd (lru s') =
    (key, value) # take m (filter (\<lambda>e. fst e \<noteq> key) (map snd (lru s)))"
  using stored_kept(1) [OF assms] by (simp add: kept_def)

theorem put_keeps_recent_witness:
  "\<exists>s' m. Put (MapBasedGlobalLockImpl 8) ''k'' ''v'' = Inr (s', True) \<and>
     map snd (lru s') = (''k'', ''v'') #
       take m (filter (\<lambda>e. fst e \<noteq> ''k'') (map snd (lru (MapBasedGlobalLockImpl 8))))"
proof -
  obtain s' where s': "Put (MapBasedGlobalLockImpl 8) ''k'' ''v'' = Inr (s', True)"
    by (simp add: Put_def MapBasedGlobalLockImpl_def pair_size_def to_size_t_def to_int_def
        in_int_def FreeSpace.simps Let_def)
  from put_keeps_recent [OF wf_init s'] s' show ?thesis by auto
qed

text \<open>
  C4: For a capacity \<open>0 \<le> m < 2 ^ 30\<close>, a history of \<open>Put\<close>, \<open>PutIfAbsent\<close>, \<open>Set\<close> and \<open>Get\<close> calls in which no \<open>Put\<close> and no
  \<open>Set\<close> is made on a key that is cached at that moment (whatever the value) runs without failing, and at its end
  \<open>_current_size\<close> is the number of stored bytes and does not exceed the maximum.  (A \<open>Put\<close> or \<open>Set\<close> on a cached key
  breaks the accounting: \<open>put_grow_exceeds_capacity\<close>, \<open>set_same_value_drifts\<close>.)
\<close>

theorem capacity_without_overwrite:
  assumes "0 \<le> m" "m < 2 ^ 30" "no_overwrite (MapBasedGlobalLockImpl m) cs"
  shows "\<exists>s. run_ops (MapBasedGlobalLockImpl m) cs = Inr s \<and>
    current_size s = stored_bytes s \<and> stored_bytes s \<le> m"
proof -
  have "max_size (MapBasedGlobalLockImpl m) = m" by (simp add: MapBasedGlobalLockImpl_def)
  with run_ops_accounted [OF wf_init accounted_init [OF assms(1,2)] assms(3)]
  show ?thesis by (auto simp: accounted_def)
qed

lemmas store_eval = MapBasedGlobalLockImpl_def Put_def Set_def PutIfAbsent_def Get_def pair_size_def
  to_size_t_def to_int_def in_int_def FreeSpace.simps Let_def push_front_def add_size_def
  splice_front_def set_front_value_def stored_bytes_def

theorem capacity_without_overwrite_witness:
  "\<exists>s. run_ops (MapBasedGlobalLockImpl 3) [OpPut ''a'' ''x'', OpGet ''a'', OpPut ''b'' ''y''] = Inr s \<and>
    current_size s = stored_bytes s \<and> stored_bytes s \<le> 3"
proof (rule capacity_without_overwrite)
  show "no_overwrite (MapBasedGlobalLockImpl 3) [OpPut ''a'' ''x'', OpGet ''a'', OpPut ''b'' ''y'']"
    by (simp add: store_eval)
qed simp_all

text \<open>
  C5: Replacing a value through \<open>Put\<close> leaves \<open>_current_size\<close> alone, so three \<open>Put\<close> calls (fill the
  cache with one key, shrink its value, store another key that fits) drive \<open>FreeSpace\<close> to
  \<open>_lru.back()\<close> on an empty list, for every capacity \<open>m\<close> with \<open>2 \<le> m < 2 ^ 30\<close> (the default of the program is 1024).
\<close>

theorem put_shrink_then_back_of_empty:
  assumes "2 \<le> m" "m < 2 ^ 30"
  shows "run_ops (MapBasedGlobalLockImpl m)
      [OpPut ''a'' (replicate (nat (m - 1)) c), OpPut ''a'' [], OpPut ''b'' (replicate (nat (m - 1)) c)]
    = Inl Back_of_empty_list"
proof -
  have "((1 - m) mod 18446744073709551616 + 2147483648) mod 4294967296 = 2147483649 - m"
    using assms to_int_to_size_t [of "1 - m"] to_int_id [of "1 - m"]
    by (simp add: to_int_def to_size_t_def in_int_def)
  with assms show ?thesis by (simp add: store_eval)
qed

theorem put_shrink_then_back_of_empty_witness:
  "run_ops (MapBasedGlobalLockImpl 1024)
      [OpPut ''a'' (replicate (nat (1024 - 1)) CHR ''x''), OpPut ''a'' [],
       OpPut ''b'' (replicate (nat (1024 - 1)) CHR ''x'')]
    = Inl Back_of_empty_list"
  by (rule put_shrink_then_back_of_empty) simp_all

text \<open>
  For the same reason growing a value through \<open>Put\<close> is not counted: for every capacity \<open>m\<close> with \<open>3 \<le> m < 2 ^ 30\<close> there
  is a history of three \<open>Put\<close> calls after which the cache holds more bytes than its maximum while
  \<open>_current_size\<close> still claims it does not.
\<close>

theorem put_grow_exceeds_capacity:
  assumes "3 \<le> m" "m < 2 ^ 30"
  shows "\<exists>s. run_ops (MapBasedGlobalLockImpl m)
      [OpPut ''a'' [], OpPut ''a'' (replicate (nat (m - 1)) c), OpPut ''b'' (replicate (nat (m - 2)) c)]
    = Inr s \<and> current_size s = m \<and> stored_bytes s = 2 * m - 1"
  using assms by (simp add: store_eval)

theorem put_grow_exceeds_capacity_witness:
  "\<exists>s. run_ops (MapBasedGlobalLockImpl 1024)
      [OpPut ''a'' [], OpPut ''a'' (replicate (nat (1024 - 1)) CHR ''x''),
       OpPut ''b'' (replicate (nat (1024 - 2)) CHR ''x'')]
    = Inr s \<and> current_size s = 1024 \<and> stored_bytes s = 2 * 1024 - 1"
  by (rule put_grow_exceeds_capacity) simp_all

text \<open>
  \<open>Set\<close> subtracts the old value but adds key and value: setting a key to the value it already
  has keeps the contents and makes \<open>_current_size\<close> grow by the length of the key.
\<close>

theorem set_same_value_drifts:
  assumes "wf_store s" "accounted s" "lookup_store s key = Some v"
  shows "\<exists>s'. Set s key v = Inr (s', True) \<and> stored_bytes s' = stored_bytes s \<and>
    current_size s' = current_size s + int (length key)"
proof -
  from assms(3) have v: "map_of (map snd (lru s)) key = Some v" by (simp add: lookup_store_def)
  have mem: "(key, v) \<in> set (map snd (lru s))" using v by (rule map_of_SomeD)
  have "pair_size key v \<le> ents_bytes (map snd (lru s))"
    using split_list [OF mem] by (auto simp: ents_bytes_append ents_bytes_nonneg)
  then have fits: "pair_size key v \<le> max_size s" and n: "int (length key) \<le> current_size s"
    using assms(2) by (auto simp: accounted_def stored_bytes_abs pair_size_def)
  have cur: "to_int (current_size s - int (length v) + pair_size key v) = current_size s + int (length key)"
    using n assms(2) by (subst to_int_id) (auto simp: accounted_def pair_size_def in_int_def)
  have "spec_evict ((abs_store s)\<lparr>spec_ents := splice_front key (map snd (lru s))\<rparr>) 0
      = Inr ((abs_store s)\<lparr>spec_ents := splice_front key (map snd (lru s))\<rparr>)"
    using assms(2) ents_bytes_nonneg [of "map snd (lru s)"]
    by (subst spec_evict.simps) (auto simp: accounted_def in_int_def stored_bytes_abs)
  then have sp: "spec_set (abs_store s) key v = Inr
      ((abs_store s)\<lparr>spec_ents := splice_front key (map snd (lru s)),
         spec_cur := current_size s + int (length key)\<rparr>, True)"
    using fits v cur splice_front_Cons [OF wf_distinct_keys [OF assms(1)] mem] accounted_to_size [OF assms(2)]
    by (simp add: spec_set_def to_int_def)
  from Set_refines [OF assms(1), of key v] sp obtain s' where s': "Set s key v = Inr (s', True)"
    and a: "abs_store s' = (abs_store s)\<lparr>spec_ents := splice_front key (map snd (lru s)),
         spec_cur := current_size s + int (length key)\<rparr>"
    by (cases "Set s key v") auto
  have "map snd (lru s') = splice_front key (map snd (lru s))"
    "current_size s' = current_size s + int (length key)"
    using arg_cong [OF a, of spec_ents] arg_cong [OF a, of spec_cur] by simp_all
  with s' show ?thesis by (auto simp: stored_bytes_abs ents_bytes_splice)
qed

theorem set_same_value_drifts_witness:
  "\<exists>s s'. Put (MapBasedGlobalLockImpl 8) ''k'' ''v'' = Inr (s, True) \<and> Set s ''k'' ''v'' = Inr (s', True) \<and>
    stored_bytes s' = stored_bytes s \<and> current_size s' = current_size s + int (length ''k'')"
proof -
  from fresh_store(1) [OF wf_init accounted_init, of 8 "''k''" "''v''"]
  obtain s where s: "Put (MapBasedGlobalLockImpl 8) ''k'' ''v'' = Inr (s, True)" "wf_store s" "accounted s"
    by (auto simp: MapBasedGlobalLockImpl_def pair_size_def)
  then have "lookup_store s ''k'' = Some ''v''"
    using lru.put_stored [OF wf_init, of 8 "''k''" "''v''" s] by simp
  from set_same_value_drifts [OF s(2,3) this] s(1) show ?thesis by blast
qed

text \<open>
  \<open>Delete\<close> of a key that is present always reads freed memory: it erases the list node that
  owns the key string and then searches the map, whose entry still refers to that string.
\<close>

theorem delete_present_dangles:
  assumes "wf_store s" "lookup_store s key = Some v"
  shows "Delete s key = Inl Dangling_key_reference"
proof (cases "cacheMap s key")
  case None
  with assms show ?thesis using wf_index_None [of s key] by (simp add: lookup_store_def)
next
  case (Some it)
  with assms(1) show ?thesis by (rule Delete_present)
qed

theorem delete_present_dangles_witness:
  "\<exists>s. Put (MapBasedGlobalLockImpl 8) ''k'' ''v'' = Inr (s, True) \<and>
     Delete s ''k'' = Inl Dangling_key_reference"
proof -
  obtain s where s: "Put (MapBasedGlobalLockImpl 8) ''k'' ''v'' = Inr (s, True)"
    by (simp add: store_eval)
  from lru.put_stored [OF wf_init, of 8 "''k''" "''v''" s] s
  have "wf_store s" "lookup_store s ''k'' = Some ''v''" by simp_all
  from delete_present_dangles [OF this] s show ?thesis by blast
qed

end
