(* ===== verification/Commands.thy ===== *)
theory Commands
  imports LRU_Storage
begin

text \<open>
  The commands of src/include/afina/execute and src/src/execute.  A command object is a value of
  \<open>command\<close>; \<open>Command_Execute\<close> is the virtual call \<open>Command::Execute(storage, args, out)\<close>, a
  function of the storage interface, the storage state and the argument that gives the new storage
  state and the text written to \<open>out\<close>.  The class \<open>Delete\<close> of the sources has no implementation
  and no parser branch creates it.  Debug output to the console is left out.
\<close>

section \<open>Command objects\<close>

record insert_command =
  ic_key :: string
  ic_flags :: u32
  ic_expire :: int

datatype command =
    Set_cmd insert_command
  | Add_cmd insert_command
  | Append_cmd insert_command
  | Replace_cmd insert_command
  | Get_cmd "string list"
  | Stats_cmd

definition new_InsertCommand :: "string \<Rightarrow> u32 \<Rightarrow> int \<Rightarrow> insert_command" where
  "new_InsertCommand k f e = \<lparr>ic_key = k, ic_flags = f, ic_expire = e\<rparr>"

definition new_Set :: "string \<Rightarrow> u32 \<Rightarrow> int \<Rightarrow> command" where
  "new_Set k f e = Set_cmd (new_InsertCommand k f e)"

definition new_Add :: "string \<Rightarrow> u32 \<Rightarrow> int \<Rightarrow> command" where
  "new_Add k f e = Add_cmd (new_InsertCommand k f e)"

definition new_Append :: "string \<Rightarrow> u32 \<Rightarrow> int \<Rightarrow> command" where
  "new_Append k f e = Append_cmd (new_InsertCommand k f e)"

definition new_Replace :: "string \<Rightarrow> u32 \<Rightarrow> int \<Rightarrow> command" where
  "new_Replace k f e = Replace_cmd (new_InsertCommand k f e)"

definition new_Get :: "string list \<Rightarrow> command" where
  "new_Get ks = Get_cmd ks"

definition new_Stats :: command where
  "new_Stats = Stats_cmd"

section \<open>Execution\<close>

definition Set_Execute ::
  "'s storage_ops \<Rightarrow> insert_command \<Rightarrow> 's \<Rightarrow> string \<Rightarrow> ub + 's \<times> string" where
  "Set_Execute ops c s args =
     res_bind (op_Put ops s (ic_key c) args) (\<lambda>(s', _). Inr (s', ''STORED''))"

definition Add_Execute ::
  "'s storage_ops \<Rightarrow> insert_command \<Rightarrow> 's \<Rightarrow> string \<Rightarrow> ub + 's \<times> string" where
  "Add_Execute ops c s args =
     res_bind (op_PutIfAbsent ops s (ic_key c) args) (\<lambda>(s', stored).
       Inr (s', if stored then ''STORED'' else ''NOT_STORED''))"

definition Append_Execute ::
  "'s storage_ops \<Rightarrow> insert_command \<Rightarrow> 's \<Rightarrow> string \<Rightarrow> ub + 's \<times> string" where
  "Append_Execute ops c s args =
     res_bind (op_Get ops s (ic_key c) []) (\<lambda>(s1, value, found).
       if \<not> found then Inr (s1, ''NOT_STORED'')
       else res_bind (op_Put ops s1 (ic_key c) (value @ args)) (\<lambda>(s2, _). Inr (s2, ''STORED'')))"

definition Replace_Execute ::
  "'s storage_ops \<Rightarrow> insert_command \<Rightarrow> 's \<Rightarrow> string \<Rightarrow> ub + 's \<times> string" where
  "Replace_Execute ops c s args =
     res_bind (op_Get ops s (ic_key c) []) (\<lambda>(s1, value, found).
       if found
       then res_bind (op_Set ops s1 (ic_key c) args) (\<lambda>(s2, _). Inr (s2, ''STORED''))
       else Inr (s1, ''NOT_STORED''))"

abbreviation crlf :: string where
  "crlf \<equiv> [CHR 0x0D, CHR 0x0A]"

definition value_item :: "string \<Rightarrow> string \<Rightarrow> string" where
  "value_item key value =
     ''VALUE '' @ key @ '' 0 '' @ show_nat (length value) @ crlf @ value @ crlf"

text \<open>
  The loop of \<open>Get::Execute\<close>; \<open>value\<close> is the local string that keeps the last value read, \<open>out\<close>
  the text in the string stream.
\<close>

fun Get_loop ::
  "'s storage_ops \<Rightarrow> 's \<Rightarrow> string list \<Rightarrow> string \<Rightarrow> string \<Rightarrow> ub + 's \<times> string" where
  "Get_loop ops s [] val out = Inr (s, out @ ''END'')"
| "Get_loop ops s (key # ks) val out =
     res_bind (op_Get ops s key val) (\<lambda>(s', val', found).
       Get_loop ops s' ks val' (if \<not> found then out else out @ value_item key val'))"

definition Get_Execute ::
  "'s storage_ops \<Rightarrow> string list \<Rightarrow> 's \<Rightarrow> string \<Rightarrow> ub + 's \<times> string" where
  "Get_Execute ops ks s args = Get_loop ops s ks [] []"

definition Stats_Execute :: "'s storage_ops \<Rightarrow> 's \<Rightarrow> string \<Rightarrow> ub + 's \<times> string" where
  "Stats_Execute ops s args = Inr (s, ''END'')"

fun Command_Execute ::
  "'s storage_ops \<Rightarrow> command \<Rightarrow> 's \<Rightarrow> string \<Rightarrow> ub + 's \<times> string" where
  "Command_Execute ops (Set_cmd c) s args = Set_Execute ops c s args"
| "Command_Execute ops (Add_cmd c) s args = Add_Execute ops c s args"
| "Command_Execute ops (Append_cmd c) s args = Append_Execute ops c s args"
| "Command_Execute ops (Replace_cmd c) s args = Replace_Execute ops c s args"
| "Command_Execute ops (Get_cmd ks) s args = Get_Execute ops ks s args"
| "Command_Execute ops Stats_cmd s args = Stats_Execute ops s args"

section \<open>Execution over any storage that keeps the contract\<close>

definition items_found :: "(string \<rightharpoonup> string) \<Rightarrow> string list \<Rightarrow> string" where
  "items_found m ks =
     concat (map (\<lambda>k. case m k of None \<Rightarrow> [] | Some v \<Rightarrow> value_item k v) ks)"

context storage_contract
begin

lemma Set_Execute_answer:
  assumes "inv s" "Set_Execute ops c s args = Inr (s', out)"
  shows "out = ''STORED'' \<and> inv s' \<and>
    (s' = s \<or> lookup s' (ic_key c) = Some args \<and> may_forget (lookup s) (lookup s') (ic_key c))"
proof -
  from assms(2) obtain b where b: "op_Put ops s (ic_key c) args = Inr (s', b)" "out = ''STORED''"
    by (auto simp: Set_Execute_def res_simps)
  then show ?thesis
    using assms(1) by (cases b) (auto dest: put_stored put_refused)
qed

lemma Add_Execute_answer:
  assumes "inv s" "Add_Execute ops c s args = Inr (s', out)"
  shows "out = ''STORED'' \<and> lookup s (ic_key c) = None \<and> inv s' \<and>
      lookup s' (ic_key c) = Some args \<and> may_forget (lookup s) (lookup s') (ic_key c)
    \<or> out = ''NOT_STORED'' \<and> s' = s"
proof -
  from assms(2) obtain b where b: "op_PutIfAbsent ops s (ic_key c) args = Inr (s', b)"
    "out = (if b then ''STORED'' else ''NOT_STORED'')"
    by (auto simp: Add_Execute_def res_simps)
  then show ?thesis
    using assms(1) by (cases b) (auto dest: put_if_absent_stored put_if_absent_refused)
qed

lemma Append_Execute_answer:
  assumes "inv s" "Append_Execute ops c s args = Inr (s', out)"
  shows "out = ''NOT_STORED'' \<and> s' = s \<and> lookup s (ic_key c) = None
    \<or> out = ''STORED'' \<and> inv s' \<and> (\<exists>v. lookup s (ic_key c) = Some v \<and>
        (lookup s' = lookup s \<or> lookup s' (ic_key c) = Some (v @ args) \<and>
           may_forget (lookup s) (lookup s') (ic_key c)))"
  using assms(1)
proof (cases rule: get_cases [of s "ic_key c" "[]"])
  case miss
  with assms(2) show ?thesis by (simp add: Append_Execute_def)
next
  case (hit s1 v)
  with assms(2) obtain b where b: "op_Put ops s1 (ic_key c) (v @ args) = Inr (s', b)"
    "out = ''STORED''"
    by (auto simp: Append_Execute_def res_simps)
  then show ?thesis
    using hit by (cases b) (auto dest: put_stored put_refused)
qed

lemma Replace_Execute_answer:
  assumes "inv s" "Replace_Execute ops c s args = Inr (s', out)"
  shows "out = ''NOT_STORED'' \<and> s' = s \<and> lookup s (ic_key c) = None
    \<or> out = ''STORED'' \<and> inv s' \<and> lookup s (ic_key c) \<noteq> None \<and>
        (lookup s' = lookup s \<or> lookup s' (ic_key c) = Some args \<and>
           may_forget (lookup s) (lookup s') (ic_key c))"
  using assms(1)
proof (cases rule: get_cases [of s "ic_key c" "[]"])
  case miss
  with assms(2) show ?thesis by (simp add: Replace_Execute_def)
next
  case (hit s1 v)
  with assms(2) obtain b where b: "op_Set ops s1 (ic_key c) args = Inr (s', b)"
    "out = ''STORED''"
    by (auto simp: Replace_Execute_def res_simps)
  then show ?thesis
    using hit by (cases b) (auto dest: set_stored set_refused)
qed

text \<open>\<open>get\<close> never fails, changes no association, and writes one item per key that is present.\<close>

lemma Get_loop_total:
  "inv s \<Longrightarrow> \<exists>s'. Get_loop ops s ks val out = Inr (s', out @ items_found (lookup s) ks @ ''END'')
     \<and> inv s' \<and> lookup s' = lookup s"
proof (induction ks arbitrary: s val out)
  case (Cons k ks)
  from Cons.prems show ?case
  proof (cases rule: get_cases [of s k val])
    case (hit s1 v)
    with Cons.IH [of s1 v "out @ value_item k v"] show ?thesis by (simp add: items_found_def)
  next
    case miss
    with Cons.IH [OF Cons.prems, of val out] show ?thesis by (simp add: items_found_def)
  qed
qed (simp add: items_found_def)

lemma Get_Execute_total:
  "inv s \<Longrightarrow> \<exists>s'. Get_Execute ops ks s args = Inr (s', items_found (lookup s) ks @ ''END'')
     \<and> inv s' \<and> lookup s' = lookup s"
  using Get_loop_total [of s ks "[]" "[]"] by (simp add: Get_Execute_def)

lemma Command_Execute_inv:
  assumes "inv s" "Command_Execute ops c s args = Inr (s', out)"
  shows "inv s'"
proof (cases c)
  case (Get_cmd ks)
  with assms Get_Execute_total [OF assms(1), of ks args] show ?thesis by auto
qed (use assms in \<open>auto simp: Stats_Execute_def
      dest: Set_Execute_answer Add_Execute_answer Append_Execute_answer Replace_Execute_answer\<close>)

end

text \<open>On a storage of bounded capacity the effect of a command is decided by what is cached and by what fits.\<close>

context bounded_storage
begin

lemma Set_Execute_exact:
  assumes "inv s" "Set_Execute ops c s args = Inr (s', out)"
  shows "out = ''STORED'' \<and> inv s' \<and> fits s' = fits s \<and>
    (if fits s (ic_key c) args
     then lookup s' (ic_key c) = Some args \<and> may_forget (lookup s) (lookup s') (ic_key c) else s' = s)"
proof -
  from assms(2) obtain b where b: "op_Put ops s (ic_key c) args = Inr (s', b)" "out = ''STORED''"
    by (auto simp: Set_Execute_def res_simps)
  then show ?thesis using put_answer [OF assms(1) b(1)] assms(1) by (cases b) (auto dest: put_stored put_refused)
qed

lemma Add_Execute_exact:
  assumes "inv s" "Add_Execute ops c s args = Inr (s', out)"
  shows "inv s' \<and> fits s' = fits s \<and>
    (if fits s (ic_key c) args \<and> lookup s (ic_key c) = None
     then out = ''STORED'' \<and> lookup s' (ic_key c) = Some args \<and> may_forget (lookup s) (lookup s') (ic_key c)
     else out = ''NOT_STORED'' \<and> s' = s)"
proof -
  from assms(2) obtain b where b: "op_PutIfAbsent ops s (ic_key c) args = Inr (s', b)"
    "out = (if b then ''STORED'' else ''NOT_STORED'')" by (auto simp: Add_Execute_def res_simps)
  then show ?thesis using put_if_absent_answer [OF assms(1) b(1)] assms(1)
      put_if_absent_inv [OF assms(1) b(1)]
    by (cases b) (auto dest: put_if_absent_stored put_if_absent_refused)
qed

lemma Append_Execute_exact:
  assumes "inv s" "Append_Execute ops c s args = Inr (s', out)"
  shows "inv s' \<and> fits s' = fits s \<and>
    (case lookup s (ic_key c) of
       None \<Rightarrow> out = ''NOT_STORED'' \<and> s' = s
     | Some v \<Rightarrow> out = ''STORED'' \<and>
         (if fits s (ic_key c) (v @ args)
          then lookup s' (ic_key c) = Some (v @ args) \<and> may_forget (lookup s) (lookup s') (ic_key c)
          else lookup s' = lookup s))"
  using assms(1)
proof (cases rule: get_cases [of s "ic_key c" "[]"])
  case miss
  with assms show ?thesis by (simp add: Append_Execute_def)
next
  case (hit s1 v)
  with assms(2) obtain b where b: "op_Put ops s1 (ic_key c) (v @ args) = Inr (s', b)" "out = ''STORED''"
    by (auto simp: Append_Execute_def res_simps)
  have "fits s1 = fits s" by (rule get_answer [OF assms(1) hit(1)])
  with b put_answer [OF hit(3) b(1)] hit show ?thesis by (cases b) (auto dest: put_stored put_refused)
qed

lemma Replace_Execute_exact:
  assumes "inv s" "Replace_Execute ops c s args = Inr (s', out)"
  shows "inv s' \<and> fits s' = fits s \<and>
    (if lookup s (ic_key c) = None then out = ''NOT_STORED'' \<and> s' = s
     else out = ''STORED'' \<and>
       (if fits s (ic_key c) args
        then lookup s' (ic_key c) = Some args \<and> may_forget (lookup s) (lookup s') (ic_key c)
        else lookup s' = lookup s))"
  using assms(1)
proof (cases rule: get_cases [of s "ic_key c" "[]"])
  case miss
  with assms show ?thesis by (simp add: Replace_Execute_def)
next
  case (hit s1 v)
  with assms(2) obtain b where b: "op_Set ops s1 (ic_key c) args = Inr (s', b)" "out = ''STORED''"
    by (auto simp: Replace_Execute_def res_simps)
  have "fits s1 = fits s" by (rule get_answer [OF assms(1) hit(1)])
  with b set_answer [OF hit(3) b(1)] hit show ?thesis by (cases b) (auto dest: set_stored set_refused)
qed

lemma Get_loop_fits: "inv s \<Longrightarrow> Get_loop ops s ks val out = Inr (s', r) \<Longrightarrow> fits s' = fits s"
proof (induction ks arbitrary: s val out)
  case (Cons k ks)
  then obtain s1 v b where g: "op_Get ops s k val = Inr (s1, v, b)"
    "Get_loop ops s1 ks v (if \<not> b then out else out @ value_item k v) = Inr (s', r)" by (auto simp: res_simps)
  from Cons.IH [OF get_inv [OF Cons.prems(1) g(1)] g(2)] get_answer [OF Cons.prems(1) g(1)] show ?case by simp
qed simp

lemma Command_Execute_fits:
  assumes "inv s" "Command_Execute ops cmd s args = Inr (s', out)"
  shows "fits s' = fits s"
  using assms by (cases cmd) (auto simp: Stats_Execute_def Get_Execute_def dest: Get_loop_fits
      Set_Execute_exact Add_Execute_exact Append_Execute_exact Replace_Execute_exact)

end

section \<open>Properties of the commands on the LRU storage\<close>

text \<open>
  C7: \<open>get\<close> on a well-formed store never fails; its reply is one item for each requested key that is cached, in the
  order of the request, followed by \<open>END\<close>, and no association changes.  The item is what the code writes:
  \<open>VALUE <key> 0 <bytes>\<close>, with the constant \<open>0\<close> in the place of the flags.  Get.h documents an item without a field for
  the flags, and Get.cpp and Parser.h document the flags that were given when the item was stored: the item agrees with the
  latter only for data stored with the flags 0.
\<close>

theorem get_reply:
  assumes "wf_store s"
  shows "\<exists>s'. Command_Execute lru_ops (Get_cmd ks) s args
      = Inr (s', items_found (lookup_store s) ks @ ''END'') \<and> wf_store s' \<and>
      lookup_store s' = lookup_store s"
  using lru.Get_Execute_total [OF assms, of ks args] by simp

theorem get_reply_witness:
  "\<exists>s'. Command_Execute lru_ops (Get_cmd [''k'']) (MapBasedGlobalLockImpl 8) []
      = Inr (s', ''END'') \<and> wf_store s'"
  using get_reply [OF wf_init [of 8], of "[''k'']" "[]"]
  by (auto simp: items_found_def lookup_store_def MapBasedGlobalLockImpl_def)

text \<open>
  C8: \<open>add\<close> answers \<open>STORED\<close> exactly when it stored the data under a key that had none, and
  \<open>NOT_STORED\<close> with the store unchanged.
\<close>

theorem add_reply:
  assumes "wf_store s" "Command_Execute lru_ops (Add_cmd c) s args = Inr (s', out)"
  shows "out = ''STORED'' \<and> lookup_store s (ic_key c) = None \<and>
      lookup_store s' (ic_key c) = Some args \<and>
      may_forget (lookup_store s) (lookup_store s') (ic_key c)
    \<or> out = ''NOT_STORED'' \<and> s' = s"
  using lru.Add_Execute_answer [OF assms(1), of c args s' out] assms(2) by auto

theorem add_reply_witness:
  "\<exists>s'. Command_Execute lru_ops (new_Add ''k'' 0 0) (MapBasedGlobalLockImpl 8) ''v''
      = Inr (s', ''STORED'') \<and> lookup_store s' ''k'' = Some ''v''"
proof -
  obtain s' where s': "Command_Execute lru_ops (Add_cmd (new_InsertCommand ''k'' 0 0))
      (MapBasedGlobalLockImpl 8) ''v'' = Inr (s', ''STORED'')"
    by (simp add: new_InsertCommand_def Add_Execute_def store_eval)
  from add_reply [OF wf_init s'] s' show ?thesis
    by (auto simp: new_Add_def new_InsertCommand_def)
qed

text \<open>
  C6: \<open>append\<close> that returns on a well-formed store answers \<open>NOT_STORED\<close> exactly when the key is absent, and then changes
  nothing.  When the key has the value \<open>v\<close> and \<open>v\<close> followed by the data fits into the cache, it answers \<open>STORED\<close>, the key
  then has this longer value and other keys keep theirs or are forgotten.  When it does not fit, no association
  changes, although the answer is \<open>STORED\<close> (Append.h documents \<open>NOT_STORED\<close>).
\<close>

theorem append_reply:
  assumes "wf_store s" "Command_Execute lru_ops (Append_cmd c) s args = Inr (s', out)"
  shows "case lookup_store s (ic_key c) of
      None \<Rightarrow> out = ''NOT_STORED'' \<and> s' = s
    | Some v \<Rightarrow> out = ''STORED'' \<and>
        (if fits_store s (ic_key c) (v @ args)
         then lookup_store s' (ic_key c) = Some (v @ args) \<and> may_forget (lookup_store s) (lookup_store s') (ic_key c)
         else lookup_store s' = lookup_store s)"
  using lru_bounded.Append_Execute_exact [OF assms(1), of c args s' out] assms(2) by simp

theorem append_reply_witness:
  "\<exists>s s'. Put (MapBasedGlobalLockImpl 8) ''k'' ''v'' = Inr (s, True) \<and>
     Command_Execute lru_ops (new_Append ''k'' 0 0) s ''w'' = Inr (s', ''STORED'') \<and> lookup_store s' ''k'' = Some ''vw''"
proof -
  obtain s where s: "Put (MapBasedGlobalLockImpl 8) ''k'' ''v'' = Inr (s, True)" "max_size s = 8"
    and e: "\<exists>s'. Command_Execute lru_ops (Append_cmd (new_InsertCommand ''k'' 0 0)) s ''w'' = Inr (s', ''STORED'')"
    by (simp add: new_InsertCommand_def Append_Execute_def store_eval)
  then obtain s' where s': "Command_Execute lru_ops (Append_cmd (new_InsertCommand ''k'' 0 0)) s ''w''
      = Inr (s', ''STORED'')" by blast
  have w: "wf_store s" "lookup_store s ''k'' = Some ''v''"
    using lru.put_stored [OF wf_init, of 8 "''k''" "''v''" s] s(1) by simp_all
  have "fits_store s ''k'' ''vw''" using s(2) by (simp add: fits_store_def pair_size_def to_size_t_def)
  with append_reply [OF w(1) s'] w(2) s(1) s' show ?thesis by (auto simp: new_Append_def new_InsertCommand_def)
qed

text \<open>
  C32: \<open>replace\<close> that returns on a well-formed store answers \<open>NOT_STORED\<close> exactly when the key is absent, and then changes
  nothing.  When the key is present and the data fits into the cache, it answers \<open>STORED\<close>, the key has the data as its value
  and other keys keep theirs or are forgotten.  When it does not fit, the old value stays, although the answer is
  \<open>STORED\<close> (Replace.h documents \<open>NOT_STORED\<close>).
\<close>

theorem replace_reply:
  assumes "wf_store s" "Command_Execute lru_ops (Replace_cmd c) s args = Inr (s', out)"
  shows "if lookup_store s (ic_key c) = None then out = ''NOT_STORED'' \<and> s' = s
    else out = ''STORED'' \<and>
      (if fits_store s (ic_key c) args
       then lookup_store s' (ic_key c) = Some args \<and> may_forget (lookup_store s) (lookup_store s') (ic_key c)
       else lookup_store s' = lookup_store s)"
  using lru_bounded.Replace_Execute_exact [OF assms(1), of c args s' out] assms(2) by simp

theorem replace_reply_witness:
  "\<exists>s s'. Put (MapBasedGlobalLockImpl 8) ''k'' ''v'' = Inr (s, True) \<and>
     Command_Execute lru_ops (new_Replace ''k'' 0 0) s ''w'' = Inr (s', ''STORED'') \<and> lookup_store s' ''k'' = Some ''w''"
proof -
  obtain s where s: "Put (MapBasedGlobalLockImpl 8) ''k'' ''v'' = Inr (s, True)" "max_size s = 8"
    and e: "\<exists>s'. Command_Execute lru_ops (Replace_cmd (new_InsertCommand ''k'' 0 0)) s ''w'' = Inr (s', ''STORED'')"
    by (simp add: new_InsertCommand_def Replace_Execute_def store_eval)
  then obtain s' where s': "Command_Execute lru_ops (Replace_cmd (new_InsertCommand ''k'' 0 0)) s ''w''
      = Inr (s', ''STORED'')" by blast
  have w: "wf_store s" "lookup_store s ''k'' = Some ''v''"
    using lru.put_stored [OF wf_init, of 8 "''k''" "''v''" s] s(1) by simp_all
  have "fits_store s ''k'' ''w''" using s(2) by (simp add: fits_store_def pair_size_def to_size_t_def)
  with replace_reply [OF w(1) s'] w(2) s(1) s' show ?thesis by (auto simp: new_Replace_def new_InsertCommand_def)
qed

text \<open>
  \<open>set\<close> ignores the answer of \<open>Put\<close>: data that does not fit into the cache is dropped, and the
  reply is \<open>STORED\<close> all the same.
\<close>

theorem set_replies_stored_when_refused:
  assumes "0 \<le> max_size s" "max_size s < 2 ^ 31" "pair_size (ic_key c) args > max_size s"
  shows "Command_Execute lru_ops (Set_cmd c) s args = Inr (s, ''STORED'')"
  using assms by (simp add: Set_Execute_def Put_def Let_def to_size_t_id)

theorem set_replies_stored_when_refused_witness:
  "Command_Execute lru_ops (new_Set ''k'' 0 0) (MapBasedGlobalLockImpl 2) ''vw''
     = Inr (MapBasedGlobalLockImpl 2, ''STORED'')"
  using set_replies_stored_when_refused [of "MapBasedGlobalLockImpl 2" "new_InsertCommand ''k'' 0 0" "''vw''"]
  by (simp add: new_Set_def new_InsertCommand_def MapBasedGlobalLockImpl_def pair_size_def)

end
