(* ===== verification/Parser.thy ===== *)
theory Parser
  imports Commands
begin

text \<open>
  The memcached protocol parser \<open>Afina::Protocol::Parser\<close> (src/src/protocol/Parser.h and
  Parser.cpp).  The object's fields are a record; one pass through the body of the parsing loop is
  \<open>parse_char\<close>, which dispatches on the state exactly as the switch does; a \<open>throw\<close> is the left
  summand and carries the object as the exception leaves it.
\<close>

section \<open>State\<close>

datatype parser_state =
    sCR | sLF | sName | spKey | spFlags | spExprTimeStart | spExprTime | spBytes | sgKey

record parser =
  p_state :: parser_state
  p_name :: string
  p_keys :: "string list"
  p_flags :: u32
  p_exprtime :: int
  p_bytes :: u32
  p_negative :: bool
  p_curKey :: string
  p_complete :: bool

datatype parse_error =
    Unknown_command_name
  | No_key_to_retrieve
  | Flags_overflow
  | Expire_time_overflow
  | Bytes_overflow
  | Invalid_char int nat
  | Unknown_state
  | Unsupported_command
  | Undefined ub

text \<open>The texts of the exceptions; a position is printed in the message about an invalid character only.\<close>

definition show_int :: "int \<Rightarrow> string" where
  "show_int n = (if n < 0 then CHR ''-'' # show_nat (nat (- n)) else show_nat (nat n))"

fun parse_error_text :: "parse_error \<Rightarrow> string" where
  "parse_error_text Unknown_command_name = ''Unknown command name''"
| "parse_error_text No_key_to_retrieve = ''Client provides no key to retrive''"
| "parse_error_text Flags_overflow = ''Flags field overflow''"
| "parse_error_text Expire_time_overflow = ''Expire time field overflow''"
| "parse_error_text Bytes_overflow = ''Bytes field overflow''"
| "parse_error_text (Invalid_char c pos) =
     ''Invalid char '' @ show_int c @ '' at position '' @ show_nat pos @ '', '' @ [CHR 0x5C] @ ''n expected''"
| "parse_error_text Unknown_state = ''Unknown state''"
| "parse_error_text Unsupported_command = ''Unsupported command''"
| "parse_error_text (Undefined u) = []"

text \<open>\<open>Reset\<close> leaves \<open>negative\<close> as it was.\<close>

definition Reset :: "parser \<Rightarrow> parser" where
  "Reset p = p\<lparr>p_state := sName, p_name := [], p_keys := [], p_curKey := [], p_complete := False,
     p_flags := 0, p_bytes := 0, p_exprtime := 0\<rparr>"

text \<open>A new parser: \<open>negative\<close> is not initialised, so its first value is a parameter.\<close>

definition new_Parser :: "bool \<Rightarrow> parser" where
  "new_Parser neg = Reset \<lparr>p_state = sCR, p_name = [], p_keys = [], p_flags = 0, p_exprtime = 0,
     p_bytes = 0, p_negative = neg, p_curKey = [], p_complete = False\<rparr>"

section \<open>Parsing\<close>

definition is_digit :: "char \<Rightarrow> bool" where
  "is_digit c \<longleftrightarrow> 48 \<le> (of_char c :: nat) \<and> (of_char c :: nat) \<le> 57"

definition digit_val :: "char \<Rightarrow> nat" where
  "digit_val c = of_char c - 48"

text \<open>\<open>(int)c\<close> for a plain (signed) \<open>char\<close>.\<close>

definition char_int :: "char \<Rightarrow> int" where
  "char_int c = (let n = int (of_char c) in if n < 128 then n else n - 256)"

abbreviation cr :: char where "cr \<equiv> CHR 0x0D"
abbreviation lf :: char where "lf \<equiv> CHR 0x0A"
abbreviation sp :: char where "sp \<equiv> CHR 0x20"

type_synonym parse_result = "(parse_error \<times> parser) + parser"

definition parse_name :: "parser \<Rightarrow> char \<Rightarrow> parse_result" where
  "parse_name p c =
     (if c = sp \<or> c = cr then
        (if p_name p \<in> {''set'', ''add'', ''append'', ''prepend''} then Inr (p\<lparr>p_state := spKey\<rparr>)
         else if p_name p \<in> {''get'', ''gets''} then Inr (p\<lparr>p_state := sgKey\<rparr>)
         else if p_name p = ''stats'' then Inr (p\<lparr>p_state := sLF\<rparr>)
         else Inl (Unknown_command_name, p))
      else Inr (p\<lparr>p_name := p_name p @ [c]\<rparr>))"

definition parse_put_key :: "parser \<Rightarrow> char \<Rightarrow> parse_result" where
  "parse_put_key p c =
     (if c = sp then Inr (p\<lparr>p_state := spFlags, p_keys := p_keys p @ [p_curKey p]\<rparr>)
      else Inr (p\<lparr>p_curKey := p_curKey p @ [c]\<rparr>))"

definition parse_get_key :: "parser \<Rightarrow> char \<Rightarrow> parse_result" where
  "parse_get_key p c =
     (if c = cr then
        let p1 = p\<lparr>p_keys := p_keys p @ [p_curKey p]\<rparr>
        in if length (p_keys p1) = 0 then Inl (No_key_to_retrieve, p1)
           else Inr (p1\<lparr>p_curKey := [], p_state := sLF\<rparr>)
      else if c = sp then
        Inr (p\<lparr>p_state := sgKey, p_keys := p_keys p @ [p_curKey p], p_curKey := []\<rparr>)
      else Inr (p\<lparr>p_curKey := p_curKey p @ [c]\<rparr>))"

definition parse_flags :: "parser \<Rightarrow> char \<Rightarrow> parse_result" where
  "parse_flags p c =
     (if c = sp then Inr (p\<lparr>p_negative := False, p_state := spExprTimeStart\<rparr>)
      else if is_digit c then
        let f = p_flags p * 10 + of_nat (digit_val c)
        in if f < p_flags p then Inl (Flags_overflow, p) else Inr (p\<lparr>p_flags := f\<rparr>)
      else Inr p)"

definition parse_expr_time_start :: "parser \<Rightarrow> char \<Rightarrow> parse_result" where
  "parse_expr_time_start p c =
     (if c = CHR ''-'' then Inr (p\<lparr>p_negative := True, p_state := spExprTime\<rparr>)
      else if is_digit c then
        Inr (p\<lparr>p_exprtime := int (digit_val c), p_state := spExprTime\<rparr>)
      else Inr p)"

text \<open>
  The digits of the expiry time are added up.  A sum that leaves the range of \<open>int32_t\<close> is signed
  overflow, which is undefined before the comparison that was meant to detect it.
\<close>

definition parse_expr_time :: "parser \<Rightarrow> char \<Rightarrow> parse_result" where
  "parse_expr_time p c =
     (if c = sp then Inr (p\<lparr>p_state := spBytes\<rparr>)
      else if is_digit c then
        let et = (if p_negative p then p_exprtime p - int (digit_val c)
                  else p_exprtime p + int (digit_val c))
        in if \<not> in_int et then Inl (Undefined Signed_overflow, p)
           else if p_negative p \<and> et > p_exprtime p \<or> \<not> p_negative p \<and> et < p_exprtime p
             then Inl (Expire_time_overflow, p)
           else Inr (p\<lparr>p_exprtime := et\<rparr>)
      else Inr p)"

definition parse_bytes :: "parser \<Rightarrow> char \<Rightarrow> parse_result" where
  "parse_bytes p c =
     (if c = cr then Inr (p\<lparr>p_state := sLF\<rparr>)
      else if is_digit c then
        let b = p_bytes p * 10 + of_nat (digit_val c)
        in if b < p_bytes p then Inl (Bytes_overflow, p) else Inr (p\<lparr>p_bytes := b\<rparr>)
      else Inr p)"

definition parse_lf :: "parser \<Rightarrow> nat \<Rightarrow> char \<Rightarrow> parse_result" where
  "parse_lf p pos c =
     (if c = lf then Inr (p\<lparr>p_complete := True\<rparr>)
      else Inl (Invalid_char (char_int c) pos, p))"

definition parse_char :: "parser \<Rightarrow> nat \<Rightarrow> char \<Rightarrow> parse_result" where
  "parse_char p pos c =
     (case p_state p of
        sName \<Rightarrow> parse_name p c
      | spKey \<Rightarrow> parse_put_key p c
      | sgKey \<Rightarrow> parse_get_key p c
      | spFlags \<Rightarrow> parse_flags p c
      | spExprTimeStart \<Rightarrow> parse_expr_time_start p c
      | spExprTime \<Rightarrow> parse_expr_time p c
      | spBytes \<Rightarrow> parse_bytes p c
      | sLF \<Rightarrow> parse_lf p pos c
      | sCR \<Rightarrow> Inl (Unknown_state, p))"

fun parse_loop :: "parser \<Rightarrow> nat \<Rightarrow> string \<Rightarrow> (parse_error \<times> parser) + parser \<times> nat" where
  "parse_loop p pos [] = Inr (p, pos)"
| "parse_loop p pos (c # cs) =
     (if p_complete p then Inr (p, pos)
      else res_bind (parse_char p pos c) (\<lambda>p'. parse_loop p' (Suc pos) cs))"

text \<open>
  \<open>Parse(input, size, parsed)\<close>, \<open>size\<close> written \<open>sz\<close>: the new object, the value of \<open>parsed\<close> and the result.  The caller
  passes at least \<open>sz\<close> readable characters.
\<close>

definition Parse :: "parser \<Rightarrow> string \<Rightarrow> nat \<Rightarrow> (parse_error \<times> parser) + parser \<times> nat \<times> bool" where
  "Parse p input sz =
     res_bind (parse_loop p 0 (take sz input)) (\<lambda>(p', pos). Inr (p', pos, p_complete p'))"

text \<open>\<open>Build(body_size)\<close>: the command (\<open>None\<close> for \<open>nullptr\<close>) and the new value of \<open>body_size\<close>.\<close>

definition first_key :: "parser \<Rightarrow> parse_error + string" where
  "first_key p = (case p_keys p of [] \<Rightarrow> Inl (Undefined Index_out_of_range) | k # _ \<Rightarrow> Inr k)"

definition Build :: "parser \<Rightarrow> u32 \<Rightarrow> parse_error + command option \<times> u32" where
  "Build p body_size =
     (if p_state p \<noteq> sLF then Inr (None, body_size)
      else if p_name p = ''set'' then
        res_bind (first_key p) (\<lambda>k. Inr (Some (new_Set k (p_flags p) (p_exprtime p)), p_bytes p))
      else if p_name p = ''add'' then
        res_bind (first_key p) (\<lambda>k. Inr (Some (new_Add k (p_flags p) (p_exprtime p)), p_bytes p))
      else if p_name p = ''append'' then
        res_bind (first_key p) (\<lambda>k. Inr (Some (new_Append k (p_flags p) (p_exprtime p)), p_bytes p))
      else if p_name p = ''get'' then Inr (Some (new_Get (p_keys p)), p_bytes p)
      else if p_name p = ''stats'' then Inr (Some new_Stats, p_bytes p)
      else Inl Unsupported_command)"

definition Name :: "parser \<Rightarrow> string" where
  "Name p = p_name p"

text \<open>
  The text of the headers a client sends: a storing command, and a retrieval with its keys.
\<close>

definition store_header :: "string \<Rightarrow> string \<Rightarrow> nat \<Rightarrow> string \<Rightarrow> nat \<Rightarrow> string" where
  "store_header nm key fl et n =
     nm @ [sp] @ key @ [sp] @ show_nat fl @ [sp] @ et @ [sp] @ show_nat n @ crlf"

definition get_header :: "string list \<Rightarrow> string" where
  "get_header ks = ''get'' @ concat (map (\<lambda>k. sp # k) ks) @ crlf"

definition digit_sum :: "string \<Rightarrow> int" where
  "digit_sum ds = sum_list (map (\<lambda>c. int (digit_val c)) ds)"

text \<open>Feeding the input in pieces, each with its own call of \<open>Parse\<close>, until a command is complete.\<close>

fun parse_chunks :: "parser \<Rightarrow> string list \<Rightarrow> (parse_error \<times> parser) + parser \<times> nat \<times> bool" where
  "parse_chunks p [] = Inr (p, 0, p_complete p)"
| "parse_chunks p (cs # css) =
     res_bind (Parse p cs (length cs)) (\<lambda>(p', n, fin).
       if fin then Inr (p', n, True)
       else res_bind (parse_chunks p' css) (\<lambda>(p'', m, fin'). Inr (p'', n + m, fin')))"

fun shift_error :: "nat \<Rightarrow> parse_error \<Rightarrow> parse_error" where
  "shift_error k (Invalid_char c pos) = Invalid_char c (pos + k)"
| "shift_error k e = e"

section \<open>The loop\<close>

named_theorems parse_defs "one pass of the parsing loop"

lemmas parse_char_defs [parse_defs] =
  parse_char_def parse_name_def parse_put_key_def parse_get_key_def parse_flags_def
  parse_expr_time_start_def parse_expr_time_def parse_bytes_def parse_lf_def

lemma parse_loop_complete: "p_complete p \<Longrightarrow> parse_loop p pos cs = Inr (p, pos)"
  by (cases cs) auto

lemma parse_loop_append:
  "parse_loop p pos (xs @ ys) =
     res_bind (parse_loop p pos xs) (\<lambda>(p', pos'). parse_loop p' pos' ys)"
proof (induction xs arbitrary: p pos)
  case (Cons x xs)
  then show ?case by (cases "parse_char p pos x") (auto simp: parse_loop_complete)
qed simp

lemma parse_loop_pos:
  "parse_loop p pos cs = Inr (p', pos') \<Longrightarrow> \<not> p_complete p' \<Longrightarrow> pos' = pos + length cs"
proof (induction cs arbitrary: p pos)
  case (Cons c cs)
  then show ?case by (cases "parse_char p pos c") (fastforce split: if_splits)+
qed simp

lemma parse_loop_bound:
  "parse_loop p pos cs = Inr (p', pos') \<Longrightarrow> pos \<le> pos' \<and> pos' \<le> pos + length cs"
proof (induction cs arbitrary: p pos)
  case (Cons c cs)
  show ?case
  proof (cases "p_complete p")
    case False
    with Cons.prems obtain p1 where "parse_char p pos c = Inr p1" "parse_loop p1 (Suc pos) cs = Inr (p', pos')"
      by (auto simp: res_simps)
    with Cons.IH [of p1 "Suc pos"] show ?thesis by auto
  qed (use Cons.prems in auto)
qed simp

definition shift_result ::
  "nat \<Rightarrow> (parse_error \<times> parser) + parser \<times> nat \<Rightarrow> (parse_error \<times> parser) + parser \<times> nat" where
  "shift_result k r =
     (case r of Inl (e, p) \<Rightarrow> Inl (shift_error k e, p) | Inr (p, n) \<Rightarrow> Inr (p, n + k))"

lemma parse_char_shift:
  "parse_char p (pos + k) c =
     (case parse_char p pos c of Inl (e, q) \<Rightarrow> Inl (shift_error k e, q) | Inr q \<Rightarrow> Inr q)"
  by (cases "p_state p") (auto simp: parse_defs Let_def)

lemma parse_loop_shift: "parse_loop p (pos + k) cs = shift_result k (parse_loop p pos cs)"
proof (induction cs arbitrary: p pos)
  case (Cons c cs)
  show ?case
    using Cons.IH [of _ "Suc pos"]
    by (cases "parse_char p pos c") (auto simp: parse_char_shift shift_result_def)
qed (simp add: shift_result_def)

lemma Parse_append:
  assumes "Parse p xs (length xs) = Inr (p1, n, False)"
  shows "n = length xs" and
    "parse_loop p 0 (xs @ ys) = shift_result (length xs) (parse_loop p1 0 ys)"
proof -
  from assms have l: "parse_loop p 0 xs = Inr (p1, n)" "\<not> p_complete p1"
    by (auto simp: Parse_def res_simps)
  then show "n = length xs" using parse_loop_pos [OF l] by simp
  with l show "parse_loop p 0 (xs @ ys) = shift_result (length xs) (parse_loop p1 0 ys)"
    using parse_loop_shift [of p1 0 "length xs" ys] by (simp add: parse_loop_append)
qed

lemma shift_error_add: "shift_error k (shift_error l e) = shift_error (k + l) e"
  by (cases e) auto

lemma shift_error_0 [simp]: "shift_error 0 e = e"
  by (cases e) auto

definition chunks_agree ::
  "(parse_error \<times> parser) + parser \<times> nat \<times> bool \<Rightarrow> (parse_error \<times> parser) + parser \<times> nat \<Rightarrow> bool" where
  "chunks_agree r w \<longleftrightarrow>
     (case r of
        Inl (e, q) \<Rightarrow> (\<exists>k. w = Inl (shift_error k e, q))
      | Inr (q, n, b) \<Rightarrow> w = Inr (q, n) \<and> b = p_complete q)"

lemma parse_chunks_agree:
  "\<not> p_complete p \<Longrightarrow> chunks_agree (parse_chunks p css) (parse_loop p 0 (concat css))"
proof (induction css arbitrary: p)
  case (Cons cs css)
  consider (err) e q where "Parse p cs (length cs) = Inl (e, q)"
    | (fin) p1 n where "Parse p cs (length cs) = Inr (p1, n, True)"
    | (more) p1 n where "Parse p cs (length cs) = Inr (p1, n, False)"
    by (metis (full_types) old.sum.exhaust surj_pair)
  then show ?case
  proof cases
    case err
    then have "parse_loop p 0 cs = Inl (e, q)" by (auto simp: Parse_def res_simps)
    with err show ?thesis
      by (simp add: chunks_agree_def parse_loop_append exI [of _ 0])
  next
    case fin
    then have "parse_loop p 0 cs = Inr (p1, n)" "p_complete p1" by (auto simp: Parse_def res_simps)
    with fin show ?thesis
      by (simp add: chunks_agree_def parse_loop_append parse_loop_complete)
  next
    case more
    note a = Parse_append(1) [OF more] Parse_append(2) [OF more, of "concat css"]
    from more have "\<not> p_complete p1" by (auto simp: Parse_def res_simps)
    from Cons.IH [OF this] show ?thesis
      using more a
      by (cases "parse_chunks p1 css")
        (auto simp: chunks_agree_def shift_result_def shift_error_add)
  qed
qed (simp add: chunks_agree_def)

lemma Parse_chunks_iff:
  assumes "\<not> p_complete p"
  shows "parse_chunks p css = Inr r \<longleftrightarrow> Parse p (concat css) (length (concat css)) = Inr r"
  using parse_chunks_agree [OF assms, of css]
  by (cases "parse_chunks p css"; cases r)
    (auto simp: chunks_agree_def Parse_def res_simps split: prod.splits)

section \<open>Headers\<close>

lemma digit_char_props:
  assumes "d < 10"
  shows "is_digit (digit_char d)" "digit_val (digit_char d) = d" "digit_char d \<noteq> sp"
    "digit_char d \<noteq> cr" "digit_char d \<noteq> CHR ''-''"
proof -
  have "of_char (digit_char d) = (48 + d :: nat)"
    using assms by (simp add: digit_char_def)
  then show "is_digit (digit_char d)" "digit_val (digit_char d) = d" "digit_char d \<noteq> sp"
    "digit_char d \<noteq> cr" "digit_char d \<noteq> CHR ''-''"
    using assms by (auto simp: is_digit_def digit_val_def)
qed

lemma is_digit_neq: "is_digit c \<Longrightarrow> c \<noteq> sp \<and> c \<noteq> cr \<and> c \<noteq> CHR ''-''"
  by (auto simp: is_digit_def)

text \<open>Appending a digit to a number that fits keeps the overflow test quiet.\<close>

lemma digit_step:
  assumes "n < 2 ^ 32"
  shows "(of_nat (n div 10) :: u32) * 10 + of_nat (n mod 10) = of_nat n"
    and "\<not> (of_nat n :: u32) < of_nat (n div 10)"
proof -
  have "(of_nat (n div 10 * 10 + n mod 10) :: u32) = of_nat n" by simp
  then show "(of_nat (n div 10) :: u32) * 10 + of_nat (n mod 10) = of_nat n"
    by (metis of_nat_add of_nat_mult of_nat_numeral)
  have "unat (of_nat n :: u32) = n" "unat (of_nat (n div 10) :: u32) = n div 10"
    using assms by (auto simp: unat_of_nat)
  then show "\<not> (of_nat n :: u32) < of_nat (n div 10)" by (simp add: word_less_nat_alt)
qed

lemma show_nat_small: "n < 10 \<Longrightarrow> show_nat n = [digit_char n]"
  by (simp add: show_nat.simps)

lemma show_nat_step: "\<not> n < 10 \<Longrightarrow> show_nat n = show_nat (n div 10) @ [digit_char (n mod 10)]"
  by (simp add: show_nat.simps)

lemma parse_loop_flags:
  "n < 2 ^ 32 \<Longrightarrow> p_state p = spFlags \<Longrightarrow> p_flags p = 0 \<Longrightarrow> \<not> p_complete p \<Longrightarrow>
     parse_loop p pos (show_nat n) = Inr (p\<lparr>p_flags := of_nat n\<rparr>, pos + length (show_nat n))"
proof (induction n rule: show_nat.induct)
  case (1 n)
  show ?case
  proof (cases "n < 10")
    case True
    with 1(2-) show ?thesis
      by (simp add: show_nat_small digit_char_props parse_char_def parse_flags_def)
  next
    case False
    with 1 digit_step [OF 1(2)] show ?thesis
      by (simp add: show_nat_step [OF False] parse_loop_append digit_char_props parse_char_def
          parse_flags_def)
  qed
qed

lemma parse_loop_bytes:
  "n < 2 ^ 32 \<Longrightarrow> p_state p = spBytes \<Longrightarrow> p_bytes p = 0 \<Longrightarrow> \<not> p_complete p \<Longrightarrow>
     parse_loop p pos (show_nat n) = Inr (p\<lparr>p_bytes := of_nat n\<rparr>, pos + length (show_nat n))"
proof (induction n rule: show_nat.induct)
  case (1 n)
  show ?case
  proof (cases "n < 10")
    case True
    with 1(2-) show ?thesis
      by (simp add: show_nat_small digit_char_props parse_char_def parse_bytes_def)
  next
    case False
    with 1 digit_step [OF 1(2)] show ?thesis
      by (simp add: show_nat_step [OF False] parse_loop_append digit_char_props parse_char_def
          parse_bytes_def)
  qed
qed

lemma parse_loop_put_key:
  "sp \<notin> set key \<Longrightarrow> p_state p = spKey \<Longrightarrow> \<not> p_complete p \<Longrightarrow>
     parse_loop p pos key = Inr (p\<lparr>p_curKey := p_curKey p @ key\<rparr>, pos + length key)"
  by (induction key arbitrary: p pos) (auto simp: parse_char_def parse_put_key_def)

lemma parse_loop_get_key:
  "sp \<notin> set key \<Longrightarrow> cr \<notin> set key \<Longrightarrow> p_state p = sgKey \<Longrightarrow> \<not> p_complete p \<Longrightarrow>
     parse_loop p pos key = Inr (p\<lparr>p_curKey := p_curKey p @ key\<rparr>, pos + length key)"
  by (induction key arbitrary: p pos) (auto simp: parse_char_def parse_get_key_def)

lemma digit_val_less: "is_digit c \<Longrightarrow> digit_val c \<le> 9"
  by (auto simp: is_digit_def digit_val_def)

definition signed_sum :: "bool \<Rightarrow> string \<Rightarrow> int" where
  "signed_sum neg ds = (if neg then - digit_sum ds else digit_sum ds)"

lemma parse_loop_expr_time:
  "\<forall>c \<in> set ds. is_digit c \<Longrightarrow> p_state p = spExprTime \<Longrightarrow> \<not> p_complete p \<Longrightarrow>
     \<bar>p_exprtime p\<bar> + 9 * int (length ds) < 2 ^ 31 \<Longrightarrow>
     parse_loop p pos ds =
       Inr (p\<lparr>p_exprtime := p_exprtime p + signed_sum (p_negative p) ds\<rparr>, pos + length ds)"
proof (induction ds arbitrary: p pos)
  case (Cons d ds)
  from Cons.prems(1) have d: "is_digit d" "digit_val d \<le> 9" by (auto dest: digit_val_less)
  let ?p = "p\<lparr>p_exprtime := p_exprtime p + signed_sum (p_negative p) [d]\<rparr>"
  have "parse_char p pos d = Inr ?p"
    using Cons.prems d is_digit_neq [OF d(1)]
    by (auto simp: parse_char_def parse_expr_time_def in_int_def Let_def signed_sum_def digit_sum_def)
  moreover have "parse_loop ?p (Suc pos) ds
      = Inr (?p\<lparr>p_exprtime := p_exprtime ?p + signed_sum (p_negative ?p) ds\<rparr>, Suc pos + length ds)"
    using Cons.prems d by (intro Cons.IH) (auto simp: signed_sum_def digit_sum_def)
  ultimately show ?case using Cons.prems by (simp add: signed_sum_def digit_sum_def add.assoc)
qed (simp add: signed_sum_def digit_sum_def)

lemma parse_loop_name:
  "sp \<notin> set nm \<Longrightarrow> cr \<notin> set nm \<Longrightarrow> p_state p = sName \<Longrightarrow> \<not> p_complete p \<Longrightarrow>
     parse_loop p pos nm = Inr (p\<lparr>p_name := p_name p @ nm\<rparr>, pos + length nm)"
  by (induction nm arbitrary: p pos) (auto simp: parse_char_def parse_name_def)

text \<open>The expiry field as a client writes it: an optional minus sign and at least one digit.\<close>

definition expr_time_text :: "bool \<Rightarrow> string \<Rightarrow> string" where
  "expr_time_text neg ds = (if neg then CHR ''-'' # ds else ds)"

lemma parse_loop_expr_field:
  assumes "\<forall>c \<in> set ds. is_digit c" "ds \<noteq> []" "9 * length ds < 2 ^ 31"
    and "p_state p = spExprTimeStart" "\<not> p_complete p" "\<not> p_negative p" "p_exprtime p = 0"
  shows "parse_loop p pos (expr_time_text neg ds) =
    Inr (p\<lparr>p_exprtime := signed_sum neg ds, p_negative := neg, p_state := spExprTime\<rparr>,
         pos + length (expr_time_text neg ds))"
proof (cases neg)
  case True
  let ?p = "p\<lparr>p_negative := True, p_state := spExprTime\<rparr>"
  have "parse_loop ?p (Suc pos) ds
      = Inr (?p\<lparr>p_exprtime := p_exprtime ?p + signed_sum (p_negative ?p) ds\<rparr>, Suc pos + length ds)"
    using assms by (intro parse_loop_expr_time) auto
  with True assms show ?thesis
    by (simp add: expr_time_text_def parse_char_def parse_expr_time_start_def)
next
  case False
  obtain d ds' where ds: "ds = d # ds'" using assms(2) by (cases ds) auto
  have d: "is_digit d" "digit_val d \<le> 9" using assms(1) by (auto simp: ds dest: digit_val_less)
  let ?p = "p\<lparr>p_exprtime := int (digit_val d), p_state := spExprTime\<rparr>"
  have "parse_loop ?p (Suc pos) ds'
      = Inr (?p\<lparr>p_exprtime := p_exprtime ?p + signed_sum (p_negative ?p) ds'\<rparr>, Suc pos + length ds')"
    using assms d by (intro parse_loop_expr_time) (auto simp: ds)
  with False assms(4-) d is_digit_neq [OF d(1)] show ?thesis
    by (simp add: expr_time_text_def ds parse_char_def parse_expr_time_start_def signed_sum_def
        digit_sum_def)
qed

lemmas new_Parser_fields = new_Parser_def Reset_def

lemma parse_store_header:
  assumes nm: "nm \<in> {''set'', ''add'', ''append'', ''prepend''}" and key: "sp \<notin> set key"
    and fl: "fl < 2 ^ 32" and n: "n < 2 ^ 32"
    and ds: "\<forall>c \<in> set ds. is_digit c" "ds \<noteq> []" "9 * length ds < 2 ^ 31"
  shows "\<exists>q. parse_loop (new_Parser neg0) 0 (store_header nm key fl (expr_time_text neg ds) n)
      = Inr (q, length (store_header nm key fl (expr_time_text neg ds) n)) \<and>
    p_state q = sLF \<and> p_complete q \<and> p_name q = nm \<and> p_keys q = [key] \<and>
    p_flags q = of_nat fl \<and> p_exprtime q = signed_sum neg ds \<and> p_bytes q = of_nat n"
proof -
  have nm': "sp \<notin> set nm" "cr \<notin> set nm" using nm by auto
  show ?thesis
    using nm
    by (auto simp: store_header_def parse_loop_append parse_loop_name [OF nm']
        parse_loop_put_key [OF key] parse_loop_flags [OF fl] parse_loop_expr_field [OF ds]
        parse_loop_bytes [OF n] new_Parser_fields parse_char_def parse_name_def parse_put_key_def
        parse_flags_def parse_expr_time_def parse_bytes_def parse_lf_def)
qed

lemma parse_get_keys:
  "\<forall>k \<in> set ks. sp \<notin> set k \<and> cr \<notin> set k \<Longrightarrow> ks \<noteq> [] \<Longrightarrow> p_state p = sgKey \<Longrightarrow> \<not> p_complete p \<Longrightarrow>
     p_curKey p = [] \<Longrightarrow>
     parse_loop p pos (tl (concat (map (\<lambda>k. sp # k) ks)) @ [cr]) =
       Inr (p\<lparr>p_keys := p_keys p @ ks, p_state := sLF, p_curKey := []\<rparr>,
            pos + length (tl (concat (map (\<lambda>k. sp # k) ks))) + 1)"
proof (induction ks arbitrary: p pos)
  case (Cons k ks)
  show ?case
  proof (cases ks)
    case Nil
    with Cons.prems show ?thesis
      by (simp add: parse_loop_append parse_loop_get_key parse_char_def parse_get_key_def Let_def)
  next
    case (Cons k' ks')
    let ?p = "p\<lparr>p_state := sgKey, p_keys := p_keys p @ [k], p_curKey := []\<rparr>"
    have "parse_loop ?p (pos + length k + 1) (tl (concat (map (\<lambda>k. sp # k) ks)) @ [cr]) =
        Inr (?p\<lparr>p_keys := p_keys ?p @ ks, p_state := sLF, p_curKey := []\<rparr>,
            pos + length k + 1 + length (tl (concat (map (\<lambda>k. sp # k) ks))) + 1)"
      using Cons.prems Cons by (intro Cons.IH) auto
    moreover have "concat (map (\<lambda>k. sp # k) ks) = sp # tl (concat (map (\<lambda>k. sp # k) ks))"
      using Cons by simp
    ultimately show ?thesis using Cons.prems Cons
      by (simp add: parse_loop_append parse_loop_get_key parse_char_def parse_get_key_def)
  qed
qed simp

lemma parse_get_header:
  assumes "\<forall>k \<in> set ks. sp \<notin> set k \<and> cr \<notin> set k" "ks \<noteq> []"
  shows "\<exists>q. parse_loop (new_Parser neg0) 0 (get_header ks) = Inr (q, length (get_header ks)) \<and>
    p_state q = sLF \<and> p_complete q \<and> p_name q = ''get'' \<and> p_keys q = ks \<and> p_bytes q = 0"
proof -
  let ?t = "tl (concat (map (\<lambda>k. sp # k) ks))"
  let ?p = "(new_Parser neg0)\<lparr>p_name := ''get'', p_state := sgKey\<rparr>"
  have h: "get_header ks = ''get'' @ [sp] @ (?t @ [cr]) @ [lf]"
    using assms(2) by (cases ks) (auto simp: get_header_def)
  have n: "parse_loop (new_Parser neg0) 0 ''get'' = Inr ((new_Parser neg0)\<lparr>p_name := ''get''\<rparr>, 3)"
    by (subst parse_loop_name) (auto simp: new_Parser_fields)
  have k: "parse_loop ?p 4 (?t @ [cr])
      = Inr (?p\<lparr>p_keys := p_keys ?p @ ks, p_state := sLF, p_curKey := []\<rparr>, 4 + length ?t + 1)"
    using assms by (intro parse_get_keys) (auto simp: new_Parser_fields)
  have "parse_loop (new_Parser neg0) 0 (get_header ks)
      = parse_loop ?p 4 ((?t @ [cr]) @ [lf])"
    unfolding h parse_loop_append [of _ _ "''get''"] n
    by (simp add: new_Parser_fields parse_char_def parse_name_def)
  also have "\<dots> = Inr (?p\<lparr>p_keys := ks, p_state := sLF, p_curKey := [], p_complete := True\<rparr>,
      length (get_header ks))"
    unfolding parse_loop_append [of _ _ "?t @ [cr]"] k
    by (simp add: h new_Parser_fields parse_char_def parse_lf_def)
  finally show ?thesis by (simp add: new_Parser_fields)
qed

section \<open>Parsers a program can have\<close>

text \<open>
  The states reachable from a new parser by any calls of \<open>Parse\<close> and \<open>Reset\<close>, exceptions
  included.
\<close>

inductive parser_reach :: "parser \<Rightarrow> bool" where
  reach_new: "parser_reach (new_Parser neg)"
| reach_reset: "parser_reach p \<Longrightarrow> parser_reach (Reset p)"
| reach_parse: "parser_reach p \<Longrightarrow> Parse p input sz = Inr (p', n, b) \<Longrightarrow> parser_reach p'"
| reach_throw: "parser_reach p \<Longrightarrow> Parse p input sz = Inl (e, p') \<Longrightarrow> parser_reach p'"

definition put_name :: "string \<Rightarrow> bool" where
  "put_name nm \<longleftrightarrow> nm \<in> {''set'', ''add'', ''append'', ''prepend''}"

definition get_name :: "string \<Rightarrow> bool" where
  "get_name nm \<longleftrightarrow> nm \<in> {''get'', ''gets''}"

definition key_state :: "parser_state \<Rightarrow> bool" where
  "key_state st \<longleftrightarrow> st \<in> {spFlags, spExprTimeStart, spExprTime, spBytes}"

definition parser_inv :: "parser \<Rightarrow> bool" where
  "parser_inv p \<longleftrightarrow>
     p_state p \<noteq> sCR \<and>
     (p_state p = spKey \<longrightarrow> put_name (p_name p)) \<and>
     (key_state (p_state p) \<longrightarrow> put_name (p_name p) \<and> p_keys p \<noteq> []) \<and>
     (p_state p = sgKey \<longrightarrow> get_name (p_name p)) \<and>
     (p_state p = sLF \<longrightarrow> (put_name (p_name p) \<or> get_name (p_name p)) \<and> p_keys p \<noteq> [] \<or>
        p_name p = ''stats'')"

lemma key_state_simps [simp]:
  "key_state spFlags" "key_state spExprTimeStart" "key_state spExprTime" "key_state spBytes"
  "\<not> key_state sCR" "\<not> key_state sLF" "\<not> key_state sName" "\<not> key_state spKey" "\<not> key_state sgKey"
  by (auto simp: key_state_def)

text \<open>What one pass of the loop gives: the invariant again, and never one of the two errors.\<close>

definition step_ok :: "parse_result \<Rightarrow> bool" where
  "step_ok r \<longleftrightarrow>
     (case r of
        Inr p' \<Rightarrow> parser_inv p'
      | Inl (e, p') \<Rightarrow> parser_inv p' \<and> e \<noteq> Unknown_state \<and> e \<noteq> No_key_to_retrieve)"

lemma parse_name_alt:
  "parse_name p c =
     (if c = sp \<or> c = cr then
        (if put_name (p_name p) then Inr (p\<lparr>p_state := spKey\<rparr>)
         else if get_name (p_name p) then Inr (p\<lparr>p_state := sgKey\<rparr>)
         else if p_name p = ''stats'' then Inr (p\<lparr>p_state := sLF\<rparr>)
         else Inl (Unknown_command_name, p))
      else Inr (p\<lparr>p_name := p_name p @ [c]\<rparr>))"
  by (simp only: parse_name_def put_name_def get_name_def)

lemma parse_name_ok: "p_state p = sName \<Longrightarrow> step_ok (parse_name p c)"
  by (simp add: parse_name_alt step_ok_def parser_inv_def)

lemma parse_put_key_ok: "p_state p = spKey \<Longrightarrow> parser_inv p \<Longrightarrow> step_ok (parse_put_key p c)"
  by (simp add: parse_put_key_def step_ok_def parser_inv_def)

lemma parse_get_key_ok: "p_state p = sgKey \<Longrightarrow> parser_inv p \<Longrightarrow> step_ok (parse_get_key p c)"
  by (simp add: parse_get_key_def step_ok_def parser_inv_def)

lemma parse_numbers_ok:
  "p_state p = spFlags \<Longrightarrow> parser_inv p \<Longrightarrow> step_ok (parse_flags p c)"
  "p_state p = spExprTimeStart \<Longrightarrow> parser_inv p \<Longrightarrow> step_ok (parse_expr_time_start p c)"
  "p_state p = spExprTime \<Longrightarrow> parser_inv p \<Longrightarrow> step_ok (parse_expr_time p c)"
  "p_state p = spBytes \<Longrightarrow> parser_inv p \<Longrightarrow> step_ok (parse_bytes p c)"
  "p_state p = sLF \<Longrightarrow> parser_inv p \<Longrightarrow> step_ok (parse_lf p pos c)"
  by (simp_all add: parse_flags_def parse_expr_time_start_def parse_expr_time_def parse_bytes_def
      parse_lf_def Let_def step_ok_def parser_inv_def)

lemma parse_char_ok: "parser_inv p \<Longrightarrow> step_ok (parse_char p pos c)"
  by (cases "p_state p")
    (simp_all add: parse_char_def parse_name_ok parse_put_key_ok parse_get_key_ok parse_numbers_ok,
     simp add: parser_inv_def)

lemma parse_char_inv:
  assumes "parser_inv p"
  shows "parse_char p pos c = Inr p' \<Longrightarrow> parser_inv p'"
    and "parse_char p pos c = Inl (e, p') \<Longrightarrow>
      parser_inv p' \<and> e \<noteq> Unknown_state \<and> e \<noteq> No_key_to_retrieve"
  using parse_char_ok [OF assms, of pos c] by (simp_all add: step_ok_def)

lemma parse_loop_inv:
  assumes "parser_inv p"
  shows "case parse_loop p pos cs of
      Inr (p', n) \<Rightarrow> parser_inv p'
    | Inl (e, p') \<Rightarrow> parser_inv p' \<and> e \<noteq> Unknown_state \<and> e \<noteq> No_key_to_retrieve"
  using assms
proof (induction cs arbitrary: p pos)
  case (Cons c cs)
  show ?case
  proof (cases "p_complete p")
    case False
    show ?thesis
    proof (cases "parse_char p pos c")
      case (Inl a)
      then show ?thesis using parse_char_inv(2) [OF Cons.prems] False by (cases a) auto
    next
      case (Inr p1)
      with Cons.IH [OF parse_char_inv(1) [OF Cons.prems Inr]] False show ?thesis by simp
    qed
  qed (use Cons.prems in simp)
qed simp

lemma parser_reach_inv: "parser_reach p \<Longrightarrow> parser_inv p"
proof (induction rule: parser_reach.induct)
  case (reach_new neg)
  show ?case by (simp add: parser_inv_def new_Parser_fields)
next
  case (reach_reset p)
  show ?case by (simp add: parser_inv_def Reset_def)
next
  case (reach_parse p input sz p' n b)
  with parse_loop_inv [of p 0 "take sz input"] show ?case
    by (auto simp: Parse_def res_simps)
next
  case (reach_throw p input sz e p')
  with parse_loop_inv [of p 0 "take sz input"] show ?case
    by (auto simp: Parse_def res_simps)
qed

lemma Build_store:
  assumes "p_state q = sLF" "p_keys q = [key]" "p_name q = nm"
    "nm \<in> {''set'', ''add'', ''append''}"
  shows "Build q bs = Inr (Some ((if nm = ''set'' then new_Set else if nm = ''add'' then new_Add
      else new_Append) key (p_flags q) (p_exprtime q)), p_bytes q)"
  using assms by (auto simp: Build_def first_key_def)

lemma Build_reachable:
  assumes "parser_inv p"
  shows "(\<exists>c. Build p bs = Inr (c, bs) \<and> c = None \<and> p_state p \<noteq> sLF) \<or>
    (\<exists>c. Build p bs = Inr (Some c, p_bytes p)) \<or>
    Build p bs = Inl Unsupported_command \<and> p_name p \<in> {''gets'', ''prepend''}"
proof (cases "p_state p = sLF")
  case True
  with assms have n: "put_name (p_name p) \<and> p_keys p \<noteq> [] \<or> get_name (p_name p) \<or> p_name p = ''stats''"
    by (auto simp: parser_inv_def)
  have "put_name (p_name p) \<and> p_keys p \<noteq> [] \<Longrightarrow> ?thesis"
    using True by (cases "p_keys p") (auto simp: Build_def first_key_def put_name_def)
  moreover have "get_name (p_name p) \<Longrightarrow> ?thesis"
    using True by (auto simp: Build_def get_name_def)
  moreover have "p_name p = ''stats'' \<Longrightarrow> ?thesis"
    using True by (simp add: Build_def)
  ultimately show ?thesis using n by blast
qed (simp add: Build_def)

section \<open>Properties of the parser\<close>

text \<open>
  C13: Feeding a request in pieces, one call of \<open>Parse\<close> for each piece until a command is complete,
  gives the same parser, the same number of consumed characters and the same answer as one call
  on the whole text, wherever the text is cut.
\<close>

theorem parse_in_chunks:
  assumes "\<not> p_complete p"
  shows "parse_chunks p css = Inr r \<longleftrightarrow> Parse p (concat css) (length (concat css)) = Inr r"
  using assms by (rule Parse_chunks_iff)

lemma parse_stats_text:
  "Parse (new_Parser False) (concat [''st'', ''ats'', [cr], [lf]])
      (length (concat [''st'', ''ats'', [cr], [lf]]))
    = Inr ((new_Parser False)\<lparr>p_name := ''stats'', p_state := sLF, p_complete := True\<rparr>, 7, True)"
  by (simp add: Parse_def new_Parser_fields parse_char_def parse_name_def parse_lf_def)

theorem parse_in_chunks_witness:
  "\<not> p_complete (new_Parser False) \<and>
   parse_chunks (new_Parser False) [''st'', ''ats'', [cr], [lf]]
     = Inr ((new_Parser False)\<lparr>p_name := ''stats'', p_state := sLF, p_complete := True\<rparr>, 7, True)"
proof -
  have n: "\<not> p_complete (new_Parser False)" by (simp add: new_Parser_fields)
  from parse_in_chunks [OF n] n parse_stats_text show ?thesis by blast
qed

text \<open>
  C14: Round trip of a storing command: the header a client prints for \<open>set\<close>, \<open>add\<close> or \<open>append\<close> is
  consumed completely, and \<open>Build\<close> gives that command with the key, the flags and the body size the
  client wrote, for every 32-bit flags and size.  The expiry time of the command is the sum of the
  digits the client wrote (negated after a minus sign), not the number they denote.
\<close>

theorem store_header_roundtrip:
  assumes "nm \<in> {''set'', ''add'', ''append''}" "sp \<notin> set key" "fl < 2 ^ 32" "n < 2 ^ 32"
    and "\<forall>c \<in> set ds. is_digit c" "ds \<noteq> []" "9 * length ds < 2 ^ 31"
    and "txt = store_header nm key fl (expr_time_text neg ds) n"
  shows "\<exists>q. Parse (new_Parser neg0) txt (length txt) = Inr (q, length txt, True) \<and>
    Build q bs = Inr (Some ((if nm = ''set'' then new_Set else if nm = ''add'' then new_Add
      else new_Append) key (of_nat fl) (signed_sum neg ds)), of_nat n)"
proof -
  have nm: "nm \<in> {''set'', ''add'', ''append'', ''prepend''}" using assms(1) by auto
  from parse_store_header [OF nm assms(2-7), of neg0 neg] obtain q
    where q: "parse_loop (new_Parser neg0) 0 txt = Inr (q, length txt)" "p_state q = sLF"
      "p_complete q" "p_name q = nm" "p_keys q = [key]" "p_flags q = of_nat fl"
      "p_exprtime q = signed_sum neg ds" "p_bytes q = of_nat n"
    unfolding assms(8) by blast
  from q(1,3) have "Parse (new_Parser neg0) txt (length txt) = Inr (q, length txt, True)"
    by (simp add: Parse_def)
  with Build_store [OF q(2,5,4) assms(1), of bs] q(6-8) show ?thesis by auto
qed

theorem store_header_roundtrip_witness:
  "\<exists>q. Parse (new_Parser True) (store_header ''set'' ''k'' 7 ''60'' 300)
      (length (store_header ''set'' ''k'' 7 ''60'' 300))
    = Inr (q, length (store_header ''set'' ''k'' 7 ''60'' 300), True) \<and>
    Build q 0 = Inr (Some (new_Set ''k'' 7 6), 300)"
  using store_header_roundtrip [of "''set''" "''k''" 7 300 "''60''"
      "store_header ''set'' ''k'' 7 ''60'' 300" False True 0]
  by (simp add: expr_time_text_def is_digit_def signed_sum_def digit_sum_def digit_val_def)

text \<open>
  C15: Round trip of a retrieval: \<open>get\<close> with any non-empty list of keys free of blanks and carriage
  returns is consumed completely and builds the \<open>Get\<close> command with exactly these keys, in order,
  and no body.
\<close>

theorem get_header_roundtrip:
  assumes "\<forall>k \<in> set ks. sp \<notin> set k \<and> cr \<notin> set k" "ks \<noteq> []"
  shows "\<exists>q. Parse (new_Parser neg0) (get_header ks) (length (get_header ks))
      = Inr (q, length (get_header ks), True) \<and> Build q bs = Inr (Some (new_Get ks), 0)"
proof -
  from parse_get_header [OF assms, of neg0] obtain q
    where q: "parse_loop (new_Parser neg0) 0 (get_header ks) = Inr (q, length (get_header ks))"
      "p_state q = sLF" "p_complete q" "p_name q = ''get''" "p_keys q = ks" "p_bytes q = 0" by blast
  from q(1,3) have "Parse (new_Parser neg0) (get_header ks) (length (get_header ks))
      = Inr (q, length (get_header ks), True)" by (simp add: Parse_def)
  moreover from q(2,4-6) have "Build q bs = Inr (Some (new_Get ks), 0)" by (simp add: Build_def)
  ultimately show ?thesis by blast
qed

theorem get_header_roundtrip_witness:
  "\<exists>q. Parse (new_Parser False) (get_header [''a'', ''bc'']) (length (get_header [''a'', ''bc'']))
      = Inr (q, length (get_header [''a'', ''bc'']), True) \<and>
    Build q 5 = Inr (Some (new_Get [''a'', ''bc'']), 0)"
  using get_header_roundtrip [of "[''a'', ''bc'']" False 5] by simp

text \<open>
  C16: For every parser a program can have, whatever it was fed: \<open>Parse\<close> never reaches the default
  branch of its switch and never reports a retrieval without keys; \<open>Build\<close> never reads a key that
  is not there, gives no command before the header's end, and refuses only \<open>gets\<close> and \<open>prepend\<close>,
  which \<open>Parse\<close> accepts.
\<close>

theorem build_defined:
  assumes "parser_reach p"
  shows "(\<forall>input sz e q. Parse p input sz = Inl (e, q) \<longrightarrow> e \<noteq> Unknown_state \<and> e \<noteq> No_key_to_retrieve)
    \<and> (Build p bs = Inr (None, bs) \<and> p_state p \<noteq> sLF \<or> (\<exists>c. Build p bs = Inr (Some c, p_bytes p)) \<or>
       Build p bs = Inl Unsupported_command \<and> Name p \<in> {''gets'', ''prepend''})"
proof (intro conjI allI impI)
  fix input sz e q
  assume "Parse p input sz = Inl (e, q)"
  then have "parse_loop p 0 (take sz input) = Inl (e, q)" by (auto simp: Parse_def res_simps)
  with parse_loop_inv [OF parser_reach_inv [OF assms], of 0 "take sz input"]
  show "e \<noteq> Unknown_state" "e \<noteq> No_key_to_retrieve" by auto
next
  show "Build p bs = Inr (None, bs) \<and> p_state p \<noteq> sLF \<or> (\<exists>c. Build p bs = Inr (Some c, p_bytes p)) \<or>
       Build p bs = Inl Unsupported_command \<and> Name p \<in> {''gets'', ''prepend''}"
    using Build_reachable [OF parser_reach_inv [OF assms], of bs] by (auto simp: Name_def)
qed

theorem build_defined_witness:
  "Build (new_Parser False) 9 = Inr (None, 9)"
  using build_defined [OF reach_new [of False], of 9] by (simp add: Build_def new_Parser_fields)

lemma parse_loop_flags_wrapped:
  assumes "0 < m" "m < 2 ^ 32" "d < 10" "m \<le> (10 * m + d) mod 2 ^ 32"
    and "p_state p = spFlags" "p_flags p = 0" "\<not> p_complete p"
  shows "parse_loop p pos (show_nat (10 * m + d)) =
    Inr (p\<lparr>p_flags := of_nat (10 * m + d)\<rparr>, pos + length (show_nat (10 * m + d)))"
proof -
  have div: "(10 * m + d) div 10 = m" "(10 * m + d) mod 10 = d" using assms(3) by auto
  have s: "show_nat (10 * m + d) = show_nat m @ [digit_char d]"
    using show_nat_step [of "10 * m + d"] assms(1) by (simp only: div)
  have "\<not> (of_nat (10 * m + d) :: u32) < of_nat m"
  proof -
    have "unat (of_nat (10 * m + d) :: u32) = (10 * m + d) mod 2 ^ 32"
      "unat (of_nat m :: u32) = m" using assms(2) by (simp_all only: unat_of_nat) simp_all
    with assms(4) show ?thesis by (simp only: word_less_nat_alt)
  qed
  then show ?thesis
    using assms parse_loop_flags [OF assms(2,5-7), of pos]
    unfolding s
    by (simp add: parse_loop_append digit_char_props parse_char_def parse_flags_def mult.commute)
qed

text \<open>
  The overflow test compares the new value with the old one only, so it misses every overflow
  that wraps to a larger number: flags \<open>10 * m + d\<close> whose residue modulo \<open>2 ^ 32\<close> is not below \<open>m\<close>
  are accepted and replaced by the residue.  For instance 8589934590, which needs 33 bits, is
  stored as 4294967294.
\<close>

theorem flags_overflow_missed:
  assumes "0 < m" "m < 2 ^ 32" "d < 10" "m \<le> (10 * m + d) mod 2 ^ 32" "sp \<notin> set key"
    and "txt = store_header ''set'' key (10 * m + d) ''0'' 0"
  shows "\<exists>q. Parse (new_Parser neg0) txt (length txt) = Inr (q, length txt, True) \<and>
    unat (p_flags q) = (10 * m + d) mod 2 ^ 32"
proof -
  let ?f = "show_nat (10 * m + d)"
  have n: "sp \<notin> set ''set''" "cr \<notin> set ''set''" by auto
  have u: "unat (of_nat (10 * m + d) :: u32) = (10 * m + d) mod 2 ^ 32"
    by (simp only: unat_of_nat) simp
  have "\<exists>q. parse_loop (new_Parser neg0) 0 txt = Inr (q, length txt) \<and> p_complete q \<and>
      p_flags q = of_nat (10 * m + d)"
    unfolding assms(6) store_header_def parse_loop_append parse_loop_name [OF n]
    by (simp add: parse_loop_append parse_loop_name [OF n] parse_loop_put_key [OF assms(5)]
        parse_loop_flags_wrapped [OF assms(1-4)] new_Parser_fields parse_char_def parse_name_def
        parse_put_key_def parse_flags_def parse_expr_time_start_def parse_expr_time_def
        parse_bytes_def parse_lf_def show_nat_small digit_char_props is_digit_def digit_val_def)
  then obtain q where "parse_loop (new_Parser neg0) 0 txt = Inr (q, length txt)" "p_complete q"
    and f: "p_flags q = of_nat (10 * m + d)" by blast
  then have "Parse (new_Parser neg0) txt (length txt) = Inr (q, length txt, True)"
    by (simp add: Parse_def)
  with u show ?thesis unfolding f [symmetric] by blast
qed

theorem flags_overflow_missed_witness:
  "\<exists>q. Parse (new_Parser False) (store_header ''set'' ''k'' 8589934590 ''0'' 0)
      (length (store_header ''set'' ''k'' 8589934590 ''0'' 0))
    = Inr (q, length (store_header ''set'' ''k'' 8589934590 ''0'' 0), True) \<and>
    unat (p_flags q) = 4294967294"
  using flags_overflow_missed [of 858993459 0 "''k''" "store_header ''set'' ''k'' 8589934590 ''0'' 0" False]
  by simp

end
