(* ===== verification/Requests.thy ===== *)
theory Requests
  imports Parser
begin

text \<open>
  Requests as the network layers receive them: a header the parser consumes, and a data block.  The three network
  layers (Uv_Worker, Blocking_Server, Epoll_Worker) state what they do with a client in these terms.
\<close>

text \<open>
  A request is a header \<open>h\<close> that the parser, started in \<open>p\<close>, consumes completely and from which it
  builds \<open>cmd\<close>, and a body of the announced length; a body that is not empty has a trailer.  The three layers read no
  trailer after an announced length of 0, also when the command stores an empty data block, where the protocol has
  one (Parser.h): the carriage return that ends such a block is taken for the end of an empty name, and the next
  command is rejected (\<open>empty_block_trailer_rejected\<close>).
\<close>

definition request_text :: "string \<Rightarrow> string \<Rightarrow> string" where
  "request_text h b = h @ (if b = [] then [] else b @ crlf)"

definition is_request :: "parser \<Rightarrow> string \<Rightarrow> string \<Rightarrow> command \<Rightarrow> bool" where
  "is_request p h b cmd \<longleftrightarrow>
     length b < 2 ^ 32 \<and> \<not> p_complete p \<and>
     (\<exists>q. parse_loop p 0 h = Inr (q, length h) \<and> p_complete q \<and>
        (\<forall>bs. Build q bs = Inr (Some cmd, of_nat (length b))))"

lemma empty_block_trailer_rejected:
  "Parse (new_Parser neg) (crlf @ rest) (length (crlf @ rest)) = Inl (Unknown_command_name, new_Parser neg)"
  by (simp add: Parse_def new_Parser_fields parse_char_def parse_name_def)

lemma header_prefix:
  assumes "is_request p h b cmd" "h = xs @ ys" "ys \<noteq> []"
  shows "\<exists>p1. parse_loop p 0 xs = Inr (p1, length xs) \<and> \<not> p_complete p1"
proof -
  from assms(1) obtain q where q: "parse_loop p 0 h = Inr (q, length h)" by (auto simp: is_request_def)
  then obtain p1 n where p1: "parse_loop p 0 xs = Inr (p1, n)" "parse_loop p1 n ys = Inr (q, length h)"
    by (auto simp: assms(2) parse_loop_append res_simps)
  have "\<not> p_complete p1"
  proof
    assume "p_complete p1"
    then have "n = length h" using p1(2) by (simp add: parse_loop_complete)
    with parse_loop_bound [OF p1(1)] assms(2,3) show False by simp
  qed
  with parse_loop_pos [OF p1(1)] p1(1) show ?thesis by auto
qed

lemma parse_continue:
  assumes "parse_loop p 0 xs = Inr (p1, length xs)" "parse_loop p 0 (xs @ ys) = Inr (q, length xs + n)"
  shows "parse_loop p1 0 ys = Inr (q, n)"
proof -
  have "parse_loop p1 (0 + length xs) ys = Inr (q, length xs + n)"
    using assms by (simp add: parse_loop_append)
  then show ?thesis
    unfolding parse_loop_shift
    by (auto simp: shift_result_def split: sum.splits prod.splits)
qed

lemma of_nat_u32_0: "n < 2 ^ 32 \<Longrightarrow> (of_nat n :: u32) = 0 \<longleftrightarrow> n = 0"
  by (simp add: word_unat_eq_iff unat_of_nat)

lemma Reset_new: "Reset p = new_Parser (p_negative p)"
  by (simp add: Reset_def new_Parser_def)

lemma new_Parser_negative [simp]: "p_negative (new_Parser neg) = neg"
  by (simp add: new_Parser_fields)

lemma request_nonempty: "is_request p h b cmd \<Longrightarrow> request_text h b \<noteq> []"
  by (cases h) (auto simp: request_text_def is_request_def)

lemma is_request_get:
  assumes "\<forall>k \<in> set ks. sp \<notin> set k \<and> cr \<notin> set k" "ks \<noteq> []"
  shows "is_request (new_Parser neg) (get_header ks) [] (new_Get ks)"
proof -
  from parse_get_header [OF assms, of neg] obtain q where
    "parse_loop (new_Parser neg) 0 (get_header ks) = Inr (q, length (get_header ks))"
    "p_state q = sLF" "p_complete q" "p_name q = ''get''" "p_keys q = ks" "p_bytes q = 0" by blast
  then show ?thesis by (auto simp: is_request_def Build_def new_Parser_fields)
qed

lemma is_request_set:
  assumes "sp \<notin> set key" "fl < 2 ^ 32" "length b < 2 ^ 32"
    and "\<forall>c \<in> set ds. is_digit c" "ds \<noteq> []" "9 * length ds < 2 ^ 31"
  shows "is_request (new_Parser neg) (store_header ''set'' key fl (expr_time_text ng ds) (length b)) b
    (new_Set key (of_nat fl) (signed_sum ng ds))"
proof -
  let ?h = "store_header ''set'' key fl (expr_time_text ng ds) (length b)"
  from parse_store_header [of "''set''", OF _ assms(1-3) assms(4-6), of neg ng] obtain q where
    "parse_loop (new_Parser neg) 0 ?h = Inr (q, length ?h)" "p_state q = sLF" "p_complete q" "p_name q = ''set''"
    "p_keys q = [key]" "p_flags q = of_nat fl" "p_exprtime q = signed_sum ng ds" "p_bytes q = of_nat (length b)"
    by auto
  then show ?thesis using assms(3) by (auto simp: is_request_def Build_def first_key_def new_Parser_fields)
qed

end
