(* ===== verification/Uv_Worker.thy ===== *)
theory Uv_Worker
  imports Requests
begin

text \<open>
  The libuv network layer: \<open>Afina::Network::UV::Worker\<close> and \<open>ServerImpl\<close> (src/src/network/uv).
  A worker's state holds the storage, the connections and tasks it allocated and the calls it made
  to libuv, in order.  What libuv answers is the parameter \<open>rc\<close>, the return code of each call.
  Every callback of the worker is a function of that state; the loop of \<open>OnRead\<close> is a partial
  function whose value is \<open>None\<close> when the loop does not end.  Console output is left out.
\<close>

section \<open>State\<close>

datatype conn_state = sRecvHeader | sRecvBody | sRecvTrailerCR | sRecvTrailerLF | sExecute | sClosed

definition ConnectionInputBufferSize :: nat where
  "ConnectionInputBufferSize = 64 * 1024"

record connection =
  c_state :: conn_state
  c_input :: string
  c_input_used :: nat
  c_input_parsed :: nat
  c_parser :: parser
  c_cmd :: "command option"
  c_body_size :: u32
  c_body :: string
  c_runningTasks :: u64

text \<open>
  A new connection: the buffer is allocated but not initialised, so its contents \<open>raw\<close> (like the
  parser's uninitialised flag) are parameters.
\<close>

definition new_Connection :: "string \<Rightarrow> bool \<Rightarrow> connection" where
  "new_Connection raw neg =
     \<lparr>c_state = sRecvHeader, c_input = raw, c_input_used = 0, c_input_parsed = 0,
      c_parser = Reset (new_Parser neg), c_cmd = None, c_body_size = 0, c_body = [],
      c_runningTasks = 0\<rparr>"

record execute_task =
  t_connection :: nat
  t_cmd :: "command option"
  t_argument :: string
  t_result :: string

datatype uv_handle = H_connection nat | H_done nat | H_uvStopAsync | H_uvSigPipe | H_uvNetwork

datatype close_cb = CB_OnHandleClosed | CB_OnConnectionClosed

datatype uv_call =
    Call_loop_init
  | Call_async_init uv_handle
  | Call_signal_init uv_handle
  | Call_signal_start uv_handle
  | Call_tcp_init_ex uv_handle nat
  | Call_fileno uv_handle
  | Call_tcp_keepalive uv_handle
  | Call_setsockopt uv_handle
  | Call_tcp_bind uv_handle
  | Call_listen uv_handle nat
  | Call_thread_create
  | Call_thread_join
  | Call_run
  | Call_tcp_init uv_handle
  | Call_accept uv_handle
  | Call_read_start uv_handle
  | Call_read_stop uv_handle
  | Call_async_send uv_handle
  | Call_write nat nat string
  | Call_close uv_handle close_cb
  | Call_loop_close

type_synonym uv_rc = "uv_call \<Rightarrow> int"

record 's worker =
  w_storage :: 's
  w_conns :: "nat \<rightharpoonup> connection"
  w_alive :: "nat list"
  w_next_conn :: nat
  w_tasks :: "nat \<rightharpoonup> execute_task"
  w_next_task :: nat
  w_uv :: "uv_call list"

definition new_Worker :: "'s \<Rightarrow> 's worker" where
  "new_Worker pStorage =
     \<lparr>w_storage = pStorage, w_conns = Map.empty, w_alive = [], w_next_conn = 0,
      w_tasks = Map.empty, w_next_task = 0, w_uv = []\<rparr>"

text \<open>
  How a callback can fail for good: undefined behaviour, a failed assertion, or an exception that
  leaves the callback.
\<close>

datatype failure =
    UB ub
  | Assertion_failed string
  | Escaped string

section \<open>Calls of libuv\<close>

definition uv :: "'s worker \<Rightarrow> uv_call \<Rightarrow> 's worker" where
  "uv w c = w\<lparr>w_uv := w_uv w @ [c]\<rparr>"

definition set_conn :: "nat \<Rightarrow> connection \<Rightarrow> 's worker \<Rightarrow> 's worker" where
  "set_conn i c w = w\<lparr>w_conns := (w_conns w)(i \<mapsto> c)\<rparr>"

definition is_closing :: "'s worker \<Rightarrow> uv_handle \<Rightarrow> bool" where
  "is_closing w h \<longleftrightarrow> Call_close h CB_OnHandleClosed \<in> set (w_uv w) \<or>
     Call_close h CB_OnConnectionClosed \<in> set (w_uv w)"

text \<open>\<open>uv_close\<close> asserts that the handle is not closing already.\<close>

definition uv_close :: "'s worker \<Rightarrow> uv_handle \<Rightarrow> close_cb \<Rightarrow> failure + 's worker" where
  "uv_close w h cb =
     (if is_closing w h then Inl (Assertion_failed ''uv_close'') else Inr (uv w (Call_close h cb)))"

section \<open>Starting and stopping\<close>

text \<open>
  The calls of \<open>Start\<close> in order, each with whether its return code is checked.  The first checked
  call that fails makes \<open>Start\<close> throw.
\<close>

definition Start_calls :: "nat \<Rightarrow> (uv_call \<times> bool) list" where
  "Start_calls family =
     [(Call_loop_init, True),
      (Call_async_init H_uvStopAsync, True),
      (Call_signal_init H_uvSigPipe, True),
      (Call_signal_start H_uvSigPipe, False),
      (Call_tcp_init_ex H_uvNetwork family, True),
      (Call_fileno H_uvNetwork, True),
      (Call_tcp_keepalive H_uvNetwork, True),
      (Call_setsockopt H_uvNetwork, True),
      (Call_tcp_bind H_uvNetwork, True),
      (Call_listen H_uvNetwork 511, True),
      (Call_thread_create, True)]"

fun run_calls :: "uv_rc \<Rightarrow> 's worker \<Rightarrow> (uv_call \<times> bool) list \<Rightarrow> (uv_call \<times> 's worker) + 's worker" where
  "run_calls rc w [] = Inr w"
| "run_calls rc w ((c, checked) # cs) =
     (if checked \<and> rc c \<noteq> 0 then Inl (c, uv w c) else run_calls rc (uv w c) cs)"

definition Start :: "uv_rc \<Rightarrow> 's worker \<Rightarrow> nat \<Rightarrow> (uv_call \<times> 's worker) + 's worker" where
  "Start rc w family = run_calls rc w (Start_calls family)"

definition Stop :: "'s worker \<Rightarrow> 's worker" where
  "Stop w = uv w (Call_async_send H_uvStopAsync)"

definition Join :: "uv_rc \<Rightarrow> 's worker \<Rightarrow> failure + 's worker" where
  "Join rc w =
     (if rc Call_thread_join \<noteq> 0 then Inl (Escaped ''Failed to join event loop thread'')
      else Inr (uv w Call_thread_join))"

definition OnRun :: "'s worker \<Rightarrow> 's worker" where
  "OnRun w = uv w Call_run"

definition CloseEventLoppIfPossible :: "'s worker \<Rightarrow> 's worker" where
  "CloseEventLoppIfPossible w = (if w_alive w = [] then uv w Call_loop_close else w)"

definition stop_connection :: "'s worker \<Rightarrow> nat \<Rightarrow> connection \<Rightarrow> failure + 's worker" where
  "stop_connection w i c =
     (let w1 = uv (set_conn i (c\<lparr>c_state := sClosed\<rparr>) w) (Call_read_stop (H_connection i))
      in if c_runningTasks c = 0 then uv_close w1 (H_connection i) CB_OnConnectionClosed else Inr w1)"

fun stop_connections :: "'s worker \<Rightarrow> nat list \<Rightarrow> failure + 's worker" where
  "stop_connections w [] = Inr w"
| "stop_connections w (i # is) =
     (case w_conns w i of
        None \<Rightarrow> Inl (UB Use_after_free)
      | Some c \<Rightarrow> res_bind (stop_connection w i c) (\<lambda>w'. stop_connections w' is))"

definition OnStop :: "'s worker \<Rightarrow> failure + 's worker" where
  "OnStop w =
     res_bind (uv_close w H_uvStopAsync CB_OnHandleClosed) (\<lambda>w1.
     res_bind (uv_close w1 H_uvSigPipe CB_OnHandleClosed) (\<lambda>w2.
     res_bind (uv_close w2 H_uvNetwork CB_OnHandleClosed) (\<lambda>w3.
     res_bind (stop_connections w3 (w_alive w3)) (\<lambda>w4.
       Inr (CloseEventLoppIfPossible w4)))))"

text \<open>
  The callback of a closed handle first reads \<open>data\<close> of the handle, which lies inside the connection or the task it
  belongs to; the other handles are members of the worker.
\<close>

fun handle_freed :: "'s worker \<Rightarrow> uv_handle \<Rightarrow> bool" where
  "handle_freed w (H_connection i) \<longleftrightarrow> w_conns w i = None"
| "handle_freed w (H_done t) \<longleftrightarrow> w_tasks w t = None"
| "handle_freed w _ \<longleftrightarrow> False"

definition OnHandleClosed :: "'s worker \<Rightarrow> uv_handle \<Rightarrow> failure + 's worker" where
  "OnHandleClosed w h = (if handle_freed w h then Inl (UB Use_after_free) else Inr (CloseEventLoppIfPossible w))"

definition OnConnectionClosed :: "'s worker \<Rightarrow> nat \<Rightarrow> failure + 's worker" where
  "OnConnectionClosed w i =
     (case w_conns w i of
        None \<Rightarrow> Inl (UB Use_after_free)
      | Some c \<Rightarrow>
          if c_runningTasks c \<noteq> 0 then Inl (Assertion_failed ''pconn->runningTasks == 0'')
          else
            let w1 = (if i \<in> set (w_alive w)
                      then w\<lparr>w_alive := removeAll i (w_alive w), w_conns := (w_conns w)(i := None)\<rparr>
                      else w)
            in Inr (CloseEventLoppIfPossible w1))"

definition OnConnectionOpen ::
  "uv_rc \<Rightarrow> string \<Rightarrow> bool \<Rightarrow> 's worker \<Rightarrow> failure + 's worker" where
  "OnConnectionOpen rc raw neg w =
     (let i = w_next_conn w;
          h = H_connection i;
          w1 = w\<lparr>w_conns := (w_conns w)(i \<mapsto> new_Connection raw neg),
                 w_alive := w_alive w @ [i], w_next_conn := Suc i\<rparr>;
          w2 = uv (uv w1 (Call_tcp_init h)) (Call_accept h)
      in if rc (Call_accept h) \<noteq> 0 then uv_close w2 h CB_OnHandleClosed
         else
           let w3 = uv w2 (Call_read_start h)
           in if rc (Call_read_start h) \<noteq> 0 then uv_close w3 h CB_OnHandleClosed
              else Inr w3)"

section \<open>Reading\<close>

text \<open>\<open>OnAllocate\<close>: the new connection, and the offset and length of the buffer for libuv.\<close>

definition OnAllocate :: "connection \<Rightarrow> failure + connection \<times> nat \<times> nat" where
  "OnAllocate c =
     (if \<not> c_input_parsed c \<le> c_input_used c
      then Inl (Assertion_failed ''pconn->input_parsed <= pconn->input_used'')
      else
        let unparsed = c_input_used c - c_input_parsed c;
            moved = take unparsed (drop (c_input_parsed c) (c_input c)) @ drop unparsed (c_input c)
        in Inr (c\<lparr>c_input := moved, c_input_parsed := 0, c_input_used := unparsed\<rparr>,
                unparsed, ConnectionInputBufferSize - unparsed))"

text \<open>The exceptions of type \<open>std::runtime_error\<close> the reading loop can meet, and their texts.\<close>

datatype exn =
    Parse_exn parse_error
  | Trailer_cr_expected
  | Trailer_lf_expected
  | Async_init_failed

fun exn_what :: "exn \<Rightarrow> string" where
  "exn_what (Parse_exn e) = parse_error_text e"
| "exn_what Trailer_cr_expected = ''Invalid chat, '' @ [CHR 0x5C] @ ''r expected''"
| "exn_what Trailer_lf_expected = ''Invalid chat, '' @ [CHR 0x5C] @ ''n expected''"
| "exn_what Async_init_failed = ''Failed to call uv_async_init for the task''"

datatype 's outcome =
    Continue "'s worker" connection
  | Throw exn "'s worker" connection
  | Fail failure

text \<open>
  \<open>Execute\<close>.  The commands throw no \<open>runtime_error\<close>, so the \<open>SERVER_ERROR\<close> branch has no case here.
\<close>

definition Execute ::
  "'s storage_ops \<Rightarrow> uv_rc \<Rightarrow> 's worker \<Rightarrow> nat \<Rightarrow> connection \<Rightarrow> 's outcome" where
  "Execute ops rc w i c =
     (let t = w_next_task w;
          task = \<lparr>t_connection = i, t_cmd = c_cmd c, t_argument = c_body c, t_result = []\<rparr>;
          c1 = c\<lparr>c_cmd := None, c_body := [], c_runningTasks := c_runningTasks c + 1\<rparr>;
          w1 = uv (w\<lparr>w_tasks := (w_tasks w)(t \<mapsto> task), w_next_task := Suc t\<rparr>) (Call_async_init (H_done t))
      in if rc (Call_async_init (H_done t)) \<noteq> 0 then Throw Async_init_failed w1 c1
         else case t_cmd task of
           None \<Rightarrow> Fail (UB Null_dereference)
         | Some cmd \<Rightarrow>
             (case Command_Execute ops cmd (w_storage w1) (t_argument task) of
                Inl u \<Rightarrow> Fail (UB u)
              | Inr (s', out) \<Rightarrow>
                  Continue
                    (uv (w1\<lparr>w_storage := s',
                            w_tasks := (w_tasks w1)(t \<mapsto> task\<lparr>t_result := out @ crlf\<rparr>)\<rparr>)
                        (Call_async_send (H_done t)))
                    c1))"

text \<open>The header, body and trailer branches of the loop in \<open>OnRead\<close>.\<close>

definition recv_header :: "'s worker \<Rightarrow> connection \<Rightarrow> 's outcome" where
  "recv_header w c =
     (case Parse (c_parser c) (c_input c) (c_input_used c) of
        Inl (Undefined u, p) \<Rightarrow> Fail (UB u)
      | Inl (e, p) \<Rightarrow> Throw (Parse_exn e) w (c\<lparr>c_parser := p, c_input_parsed := 0\<rparr>)
      | Inr (p, n, False) \<Rightarrow> Continue w (c\<lparr>c_parser := p, c_input_parsed := n\<rparr>)
      | Inr (p, n, True) \<Rightarrow>
          let c1 = c\<lparr>c_parser := p, c_input_parsed := n\<rparr>
          in case Build p (c_body_size c1) of
               Inl (Undefined u) \<Rightarrow> Fail (UB u)
             | Inl e \<Rightarrow> Throw (Parse_exn e) w (c1\<lparr>c_body_size := p_bytes p\<rparr>)
             | Inr (cmd, bs) \<Rightarrow>
                 let c2 = c1\<lparr>c_cmd := cmd, c_body_size := bs\<rparr>
                 in Continue w (if bs > 0 then c2\<lparr>c_body := [], c_state := sRecvBody\<rparr>
                                else c2\<lparr>c_state := sExecute\<rparr>))"

definition recv_body :: "connection \<Rightarrow> connection" where
  "recv_body c =
     (let for_copy = min (of_nat (c_input_used c - c_input_parsed c)) (c_body_size c);
          n = unat for_copy;
          c1 = c\<lparr>c_body := c_body c @ take n (drop (c_input_parsed c) (c_input c)),
                 c_body_size := c_body_size c - for_copy,
                 c_input_parsed := c_input_parsed c + n\<rparr>
      in if c_body_size c1 = 0 then c1\<lparr>c_state := sRecvTrailerCR\<rparr> else c1)"

definition recv_trailer :: "char \<Rightarrow> exn \<Rightarrow> conn_state \<Rightarrow> 's worker \<Rightarrow> connection \<Rightarrow> 's outcome" where
  "recv_trailer expected e next w c =
     (if length (c_input c) \<le> c_input_parsed c then Fail (UB Index_out_of_range)
      else if c_input c ! c_input_parsed c \<noteq> expected then Throw e w c
      else Continue w (c\<lparr>c_input_parsed := Suc (c_input_parsed c), c_state := next\<rparr>))"

definition recv_part :: "'s worker \<Rightarrow> connection \<Rightarrow> 's outcome" where
  "recv_part w c =
     (case c_state c of
        sRecvHeader \<Rightarrow> recv_header w c
      | sRecvBody \<Rightarrow> Continue w (recv_body c)
      | sRecvTrailerCR \<Rightarrow> recv_trailer cr Trailer_cr_expected sRecvTrailerLF w c
      | sRecvTrailerLF \<Rightarrow> recv_trailer lf Trailer_lf_expected sExecute w c
      | _ \<Rightarrow> Continue w c)"

definition finish_command :: "connection \<Rightarrow> connection" where
  "finish_command c =
     c\<lparr>c_cmd := None, c_body := [], c_parser := Reset (c_parser c), c_state := sRecvHeader\<rparr>"

text \<open>One pass through the body of the loop.\<close>

definition OnRead_step ::
  "'s storage_ops \<Rightarrow> uv_rc \<Rightarrow> nat \<Rightarrow> 's worker \<Rightarrow> connection \<Rightarrow> 's outcome" where
  "OnRead_step ops rc i w c =
     (case recv_part w c of
        Continue w1 c1 \<Rightarrow>
          (if c_state c1 = sExecute then
             (case Execute ops rc w1 i c1 of
                Continue w2 c2 \<Rightarrow> Continue w2 (finish_command c2)
              | r \<Rightarrow> r)
           else Continue w1 c1)
      | r \<Rightarrow> r)"

partial_function (option) OnRead_loop ::
  "'s storage_ops \<Rightarrow> uv_rc \<Rightarrow> nat \<Rightarrow> 's worker \<Rightarrow> connection \<Rightarrow> 's outcome option" where
  "OnRead_loop ops rc i w c =
     (if c_input_parsed c < c_input_used c then
        (case OnRead_step ops rc i w c of
           Continue w1 c1 \<Rightarrow> OnRead_loop ops rc i w1 c1
         | r \<Rightarrow> Some r)
      else Some (Continue w c))"

definition OnExecutionDone :: "uv_rc \<Rightarrow> 's worker \<Rightarrow> nat \<Rightarrow> failure + 's worker" where
  "OnExecutionDone rc w t =
     (case w_tasks w t of
        None \<Rightarrow> Inl (UB Use_after_free)
      | Some task \<Rightarrow>
          res_bind (uv_close w (H_done t) CB_OnHandleClosed) (\<lambda>w1.
            let call = Call_write t (t_connection task) (t_result task)
            in if rc call \<noteq> 0 then Inl (Escaped ''Failed to write request'') else Inr (uv w1 call)))"

text \<open>The handler of the exceptions of the loop.\<close>

definition OnRead_catch :: "uv_rc \<Rightarrow> nat \<Rightarrow> exn \<Rightarrow> 's worker \<Rightarrow> connection \<Rightarrow> failure + 's worker" where
  "OnRead_catch rc i e w c =
     (let t = w_next_task w;
          output = ''CLIENT_ERROR '' @ exn_what e;
          task = \<lparr>t_connection = i, t_cmd = None, t_argument = [], t_result = output @ crlf\<rparr>;
          c1 = c\<lparr>c_runningTasks := c_runningTasks c + 1, c_state := sClosed\<rparr>;
          w1 = uv (w\<lparr>w_tasks := (w_tasks w)(t \<mapsto> task), w_next_task := Suc t\<rparr>) (Call_async_init (H_done t))
      in OnExecutionDone rc (set_conn i c1 w1) t)"

text \<open>
  \<open>OnRead\<close>: \<open>None\<close> when the callback never returns.
\<close>

definition OnRead ::
  "'s storage_ops \<Rightarrow> uv_rc \<Rightarrow> 's worker \<Rightarrow> nat \<Rightarrow> int \<Rightarrow> (failure + 's worker) option" where
  "OnRead ops rc w i nread =
     (case w_conns w i of
        None \<Rightarrow> Some (Inl (UB Use_after_free))
      | Some c \<Rightarrow>
          if nread < 0 then Some (uv_close w (H_connection i) CB_OnConnectionClosed)
          else if c_state c = sClosed then Some (Inr w)
          else map_option
                 (\<lambda>r. case r of
                        Continue w' c' \<Rightarrow> Inr (set_conn i c' w')
                      | Throw e w' c' \<Rightarrow> OnRead_catch rc i e w' c'
                      | Fail f \<Rightarrow> Inl f)
                 (OnRead_loop ops rc i w (c\<lparr>c_input_used := c_input_used c + nat nread\<rparr>)))"

text \<open>
  \<open>OnWriteDone\<close> does not use its object, which its delegate reads from the \<open>data\<close> of the write request; that field is never
  set, so the method is called on a null pointer.
\<close>

definition OnWriteDone :: "'s worker \<Rightarrow> nat \<Rightarrow> failure + 's worker" where
  "OnWriteDone w t =
     (case w_tasks w t of
        None \<Rightarrow> Inl (UB Use_after_free)
      | Some task \<Rightarrow>
          (case w_conns w (t_connection task) of
             None \<Rightarrow> Inl (UB Use_after_free)
           | Some c \<Rightarrow>
               let c1 = c\<lparr>c_runningTasks := c_runningTasks c - 1\<rparr>;
                   w1 = set_conn (t_connection task) c1 w
               in res_bind
                    (if c_state c1 = sClosed \<and> c_runningTasks c1 = 0
                     then uv_close w1 (H_connection (t_connection task)) CB_OnConnectionClosed
                     else Inr w1)
                    (\<lambda>w2. Inr (w2\<lparr>w_tasks := (w_tasks w2)(t := None)\<rparr>))))"

section \<open>The server\<close>

text \<open>
  \<open>ServerImpl::Start\<close> appends a new worker and starts the worker at the loop index, in turn; a
  worker whose start fails stays in the list.  \<open>rcs i\<close> are the answers worker \<open>i\<close> gets; \<open>ip4_rc\<close> is
  that of \<open>uv_ip4_addr\<close>.
\<close>

fun start_workers ::
  "(nat \<Rightarrow> uv_rc) \<Rightarrow> 's \<Rightarrow> nat \<Rightarrow> nat list \<Rightarrow> 's worker list \<Rightarrow> (uv_call \<times> 's worker list) + 's worker list" where
  "start_workers rcs pStorage family [] ws = Inr ws"
| "start_workers rcs pStorage family (i # is) ws =
     (let ws1 = ws @ [new_Worker pStorage]
      in case Start (rcs i) (ws1 ! i) family of
           Inl (c, w) \<Rightarrow> Inl (c, ws1[i := w])
         | Inr w \<Rightarrow> start_workers rcs pStorage family is (ws1[i := w]))"

definition Server_Start ::
  "int \<Rightarrow> (nat \<Rightarrow> uv_rc) \<Rightarrow> 's \<Rightarrow> nat \<Rightarrow> u16 \<Rightarrow> 's worker list \<Rightarrow>
    ((uv_call option \<times> 's worker list) + 's worker list)" where
  "Server_Start ip4_rc rcs pStorage family n_workers workers =
     (if ip4_rc \<noteq> 0 then Inl (None, workers)
      else case start_workers rcs pStorage family [0..<unat n_workers] workers of
             Inl (c, ws) \<Rightarrow> Inl (Some c, ws)
           | Inr ws \<Rightarrow> Inr ws)"

definition Server_Stop :: "'s worker list \<Rightarrow> 's worker list" where
  "Server_Stop workers = map Stop workers"

fun Server_Join :: "(nat \<Rightarrow> uv_rc) \<Rightarrow> 's worker list \<Rightarrow> failure + 's worker list" where
  "Server_Join rcs [] = Inr []"
| "Server_Join rcs (w # ws) =
     res_bind (Join (rcs 0) w) (\<lambda>w'.
     res_bind (Server_Join (\<lambda>i. rcs (Suc i)) ws) (\<lambda>ws'. Inr (w' # ws')))"

text \<open>The destructor of the server.\<close>

definition Server_destroy :: "'s worker list \<Rightarrow> failure + unit" where
  "Server_destroy workers = (if length workers = 0 then Inr () else Inl (Assertion_failed ''workers.size() == 0''))"

lemma start_workers_length: "start_workers rcs ps family is ws = Inr ws' \<Longrightarrow> length ws' = length ws + length is"
  by (induction "is" arbitrary: ws) (auto simp: Let_def split: sum.splits)

lemma Server_Join_length: "Server_Join rcs ws = Inr ws' \<Longrightarrow> length ws' = length ws"
  by (induction ws arbitrary: rcs ws') (auto simp: res_simps)

text \<open>No operation removes a worker from the vector, so the server is never destroyed after an orderly run with workers.\<close>

lemma server_destructor_asserts:
  assumes "Server_Start ip4_rc rcs ps family n_workers [] = Inr ws" "0 < n_workers" "Server_Join rcs' (Server_Stop ws) = Inr ws'"
  shows "Server_destroy ws' = Inl (Assertion_failed ''workers.size() == 0'')"
proof -
  have "length ws = unat n_workers"
    using assms(1) start_workers_length [of rcs ps family "[0..<unat n_workers]" "[]" ws]
    by (auto simp: Server_Start_def split: if_splits sum.splits)
  moreover have "0 < unat n_workers" using assms(2) by (simp add: word_less_nat_alt)
  ultimately show ?thesis
    using Server_Join_length [OF assms(3)] by (auto simp: Server_destroy_def Server_Stop_def)
qed

section \<open>Reading a connection back\<close>

lemma set_conn_sel [simp]:
  "w_conns (set_conn i c w) = (w_conns w)(i \<mapsto> c)" "w_storage (set_conn i c w) = w_storage w"
  "w_tasks (set_conn i c w) = w_tasks w" "w_next_task (set_conn i c w) = w_next_task w"
  "w_uv (set_conn i c w) = w_uv w" "w_alive (set_conn i c w) = w_alive w"
  by (simp_all add: set_conn_def)

lemma set_conn_again [simp]: "set_conn i c (set_conn i d w) = set_conn i c w"
  by (simp add: set_conn_def)

lemma set_conn_same: "w_conns w i = Some c \<Longrightarrow> set_conn i c w = w"
  by (cases w) (simp add: set_conn_def fun_upd_idem)

section \<open>One request, in any number of pieces\<close>

text \<open>
  What libuv does with a readable socket: it asks for a buffer, stores the bytes there and calls
  \<open>OnRead\<close> with their number, which is at most the length of the buffer.
\<close>

definition write_at :: "nat \<Rightarrow> string \<Rightarrow> string \<Rightarrow> string" where
  "write_at off cs buf = take off buf @ cs @ drop (off + length cs) buf"

definition deliver ::
  "'s storage_ops \<Rightarrow> uv_rc \<Rightarrow> nat \<Rightarrow> 's worker \<Rightarrow> string \<Rightarrow> (failure + 's worker) option" where
  "deliver ops rc i w cs =
     (case w_conns w i of
        None \<Rightarrow> Some (Inl (UB Use_after_free))
      | Some c \<Rightarrow>
          (case OnAllocate c of
             Inl f \<Rightarrow> Some (Inl f)
           | Inr (c1, off, len) \<Rightarrow>
               OnRead ops rc
                 (set_conn i (c1\<lparr>c_input := write_at off cs (c_input c1)\<rparr>) w)
                 i (int (length cs))))"

fun deliver_all ::
  "'s storage_ops \<Rightarrow> uv_rc \<Rightarrow> nat \<Rightarrow> 's worker \<Rightarrow> string list \<Rightarrow> (failure + 's worker) option" where
  "deliver_all ops rc i w [] = Some (Inr w)"
| "deliver_all ops rc i w (cs # css) =
     (case deliver ops rc i w cs of
        Some (Inr w') \<Rightarrow> deliver_all ops rc i w' css
      | r \<Rightarrow> r)"

text \<open>The state of a connection that has received the part \<open>xs\<close> of a request.\<close>

definition recv_phase :: "parser \<Rightarrow> string \<Rightarrow> string \<Rightarrow> command \<Rightarrow> string \<Rightarrow> connection \<Rightarrow> bool" where
  "recv_phase p h b cmd xs c \<longleftrightarrow>
     (if length xs < length h then
        c_state c = sRecvHeader \<and> c_body c = [] \<and>
        parse_loop p 0 xs = Inr (c_parser c, length xs) \<and> \<not> p_complete (c_parser c)
      else
        c_cmd c = Some cmd \<and>
        (let k = length xs - length h
         in if k < length b then
              c_state c = sRecvBody \<and> c_body c = take k b \<and> c_body_size c = of_nat (length b - k)
            else
              c_body c = b \<and> c_body_size c = 0 \<and>
              c_state c = (if k = length b then sRecvTrailerCR else sRecvTrailerLF)))"

definition unread :: "connection \<Rightarrow> string" where
  "unread c = take (c_input_used c - c_input_parsed c) (drop (c_input_parsed c) (c_input c))"

text \<open>What one pass of the loop does with a part \<open>ys\<close> of the request it consumes.\<close>

definition advanced ::
  "parser \<Rightarrow> string \<Rightarrow> string \<Rightarrow> command \<Rightarrow> string \<Rightarrow> connection \<Rightarrow> string \<Rightarrow> connection \<Rightarrow> bool" where
  "advanced p h b cmd xs c ys c1 \<longleftrightarrow>
     ys \<noteq> [] \<and> c_input c1 = c_input c \<and> c_input_used c1 = c_input_used c \<and>
     c_input_parsed c1 = c_input_parsed c + length ys \<and> c_runningTasks c1 = c_runningTasks c \<and>
     (if xs @ ys = request_text h b then c_state c1 = sExecute \<and> c_cmd c1 = Some cmd \<and> c_body c1 = b
      else recv_phase p h b cmd (xs @ ys) c1 \<and> c_state c1 \<noteq> sExecute \<and>
        (c_state c1 \<noteq> sRecvHeader \<or> c_input_parsed c1 = c_input_used c1))"

lemma recv_header_more:
  assumes r: "is_request p h b cmd" and ph: "recv_phase p h b cmd xs c"
    and h: "h = xs @ unread c @ zs" "zs \<noteq> []"
    and c: "unread c \<noteq> []" "c_input_parsed c = 0" "c_input_used c \<le> length (c_input c)"
  shows "\<exists>c1. recv_part w c = Continue w c1 \<and> advanced p h b cmd xs c (unread c) c1"
proof -
  have l: "length xs < length h" using h c by auto
  with ph have st: "c_state c = sRecvHeader" "c_body c = []"
    "parse_loop p 0 xs = Inr (c_parser c, length xs)" by (auto simp: recv_phase_def)
  obtain p2 where p2: "parse_loop p 0 (xs @ unread c) = Inr (p2, length (xs @ unread c))" "\<not> p_complete p2"
    using header_prefix [OF r, of "xs @ unread c" zs] h by auto
  have "parse_loop (c_parser c) 0 (unread c) = Inr (p2, length (unread c))"
    using parse_continue [OF st(3)] p2(1) by simp
  moreover have "unread c = take (c_input_used c) (c_input c)" "length (unread c) = c_input_used c"
    using c by (auto simp: unread_def)
  ultimately have "Parse (c_parser c) (c_input c) (c_input_used c) = Inr (p2, c_input_used c, False)"
    using p2(2) by (simp add: Parse_def)
  then show ?thesis
    using st c h p2 \<open>length (unread c) = c_input_used c\<close>
    by (auto simp: recv_part_def recv_header_def advanced_def recv_phase_def request_text_def)
qed

lemma recv_header_done:
  assumes r: "is_request p h b cmd" and ph: "recv_phase p h b cmd xs c"
    and h: "h = xs @ ys" "ys \<noteq> []" "unread c = ys @ zs"
    and c: "c_input_parsed c = 0" "c_input_used c \<le> length (c_input c)"
  shows "\<exists>c1. recv_part w c = Continue w c1 \<and> advanced p h b cmd xs c ys c1"
proof -
  have l: "length xs < length h" using h by auto
  with ph have st: "c_state c = sRecvHeader" "c_body c = []"
    "parse_loop p 0 xs = Inr (c_parser c, length xs)" by (auto simp: recv_phase_def)
  from r obtain q where q: "parse_loop p 0 h = Inr (q, length h)" "p_complete q"
    "\<And>bs. Build q bs = Inr (Some cmd, of_nat (length b))" and b: "length b < 2 ^ 32"
    by (auto simp: is_request_def)
  have "parse_loop (c_parser c) 0 ys = Inr (q, length ys)"
    using parse_continue [OF st(3)] q(1) h(1) by simp
  then have "parse_loop (c_parser c) 0 (unread c) = Inr (q, length ys)"
    using q(2) by (simp add: h(3) parse_loop_append parse_loop_complete)
  moreover have "unread c = take (c_input_used c) (c_input c)" using c by (auto simp: unread_def)
  ultimately have pa: "Parse (c_parser c) (c_input c) (c_input_used c) = Inr (q, length ys, True)"
    using q(2) by (simp add: Parse_def)
  have z: "(0 < (of_nat (length b) :: u32)) = (b \<noteq> [])"
    using b by (simp add: word_less_nat_alt unat_of_nat)
  show ?thesis
    using st pa q(3) z h c
    by (auto simp: recv_part_def recv_header_def advanced_def recv_phase_def request_text_def)
qed

lemma min_of_nat_u32:
  assumes "m < 2 ^ 32" "n < 2 ^ 32"
  shows "min (of_nat m :: u32) (of_nat n) = of_nat (min m n)"
  using assms by (simp add: min_def word_le_nat_alt unat_of_nat)

lemma take_neq_longer: "take n b \<noteq> b @ [x, y]"
proof
  assume "take n b = b @ [x, y]"
  then have "length (take n b) = length b + 2" by simp
  then show False by simp
qed

lemma recv_body_phase:
  assumes ph: "recv_phase p h b cmd xs c" and xs: "length h \<le> length xs" "length xs < length h + length b"
    and t: "request_text h b = xs @ unread c @ zs" and b: "length b < 2 ^ 32"
    and c: "unread c \<noteq> []" "c_input_used c \<le> length (c_input c)" "length (c_input c) < 2 ^ 32"
  shows "\<exists>ys us c1. unread c = ys @ us \<and> recv_part w c = Continue w c1 \<and> advanced p h b cmd xs c ys c1"
proof -
  define k where "k = length xs - length h"
  have k: "k < length b" "length xs = length h + k" using xs by (auto simp: k_def)
  from ph k have st: "c_state c = sRecvBody" "c_body c = take k b" "c_cmd c = Some cmd"
    "c_body_size c = of_nat (length b - k)" by (auto simp: recv_phase_def Let_def)
  define n where "n = min (length (unread c)) (length b - k)"
  have lu: "length (unread c) = c_input_used c - c_input_parsed c"
    using c by (auto simp: unread_def)
  have t': "xs = h @ take k b"
    using arg_cong [OF t, of "take (length xs)"] k by (auto simp: request_text_def split: if_splits)
  have u: "unread c @ zs = drop k b @ crlf"
    using arg_cong [OF t, of "drop (length xs)"] k by (simp add: request_text_def split: if_splits)
  have ys: "take n (unread c) = take n (drop k b)"
    using arg_cong [OF u, of "take n"] by (simp add: n_def)
  have n: "0 < n" "n \<le> length b - k" "n \<le> length (unread c)" using k c by (auto simp: n_def)
  have w: "min (of_nat (c_input_used c - c_input_parsed c)) (c_body_size c) = (of_nat n :: u32)"
    "unat (of_nat n :: u32) = n"
  proof -
    have m: "c_input_used c - c_input_parsed c < 2 ^ 32" "length b - k < 2 ^ 32" using b c by auto
    show "min (of_nat (c_input_used c - c_input_parsed c)) (c_body_size c) = (of_nat n :: u32)"
      unfolding st(4) n_def lu by (rule min_of_nat_u32 [OF m])
    show "unat (of_nat n :: u32) = n" using b n by (simp add: unat_of_nat)
  qed
  have bs: "c_body_size c - of_nat n = (of_nat (length b - k - n) :: u32)"
    using n by (simp add: st(4) of_nat_diff)
  have z: "(of_nat (length b - (k + n)) :: u32) = 0 \<longleftrightarrow> n = length b - k"
    using b n of_nat_u32_0 [of "length b - (k + n)"] by auto
  let ?ys = "take n (unread c)"
  have len: "length ?ys = n" using n by simp
  have d: "take n (drop (c_input_parsed c) (c_input c)) = ?ys"
    using n lu by (simp add: unread_def min_absorb1)
  have body: "take k b @ ?ys = take (k + n) b" by (simp add: ys take_add)
  show ?thesis
  proof (intro exI conjI)
    show "unread c = ?ys @ drop n (unread c)" by simp
    show "recv_part w c = Continue w (recv_body c)" using st by (simp add: recv_part_def)
    have r: "recv_body c = (let c1 = c\<lparr>c_body := take (k + n) b, c_body_size := of_nat (length b - k - n),
        c_input_parsed := c_input_parsed c + n\<rparr>
      in if n = length b - k then c1\<lparr>c_state := sRecvTrailerCR\<rparr> else c1)"
      unfolding recv_body_def Let_def w d st(2) body bs using z by simp
    show "advanced p h b cmd xs c ?ys (recv_body c)"
      using n k len st take_neq_longer [of "k + n" b]
      by (auto simp: r Let_def advanced_def recv_phase_def request_text_def t' body)
  qed
qed

lemma recv_trailer_phase:
  assumes ph: "recv_phase p h b cmd xs c" and xs: "length h + length b \<le> length xs"
    and t: "request_text h b = xs @ unread c @ zs"
    and c: "unread c \<noteq> []" "c_input_used c \<le> length (c_input c)"
  shows "\<exists>ys us c1. unread c = ys @ us \<and> recv_part w c = Continue w c1 \<and> advanced p h b cmd xs c ys c1"
proof -
  from c obtain y us where u: "unread c = y # us" by (cases "unread c") auto
  have i: "c_input_parsed c < length (c_input c)" "c_input c ! c_input_parsed c = y"
  proof -
    show "c_input_parsed c < length (c_input c)" using c by (cases "c_input_parsed c < c_input_used c") (auto simp: unread_def)
    then show "c_input c ! c_input_parsed c = y"
      using u by (cases "drop (c_input_parsed c) (c_input c)"; cases "c_input_used c - c_input_parsed c")
        (auto simp: unread_def nth_via_drop)
  qed
  have b: "b \<noteq> []" using t xs u by (auto simp: request_text_def)
  then consider (cr) "xs = h @ b" "y = cr" | (lf) "xs = h @ b @ [cr]" "y = lf" "us = []"
    using t xs u
    by (auto simp: request_text_def append_eq_append_conv2 append_eq_Cons_conv Cons_eq_append_conv)
  then show ?thesis
  proof cases
    case cr
    then have "c_state c = sRecvTrailerCR" "c_body c = b" "c_body_size c = 0" "c_cmd c = Some cmd"
      using ph b by (auto simp: recv_phase_def)
    with cr i b show ?thesis
      by (intro exI [of _ "[y]"] exI [of _ us] exI [of _ "c\<lparr>c_input_parsed := Suc (c_input_parsed c), c_state := sRecvTrailerLF\<rparr>"])
        (auto simp: u recv_part_def recv_trailer_def advanced_def request_text_def recv_phase_def)
  next
    case lf
    then have "c_state c = sRecvTrailerLF" "c_body c = b" "c_body_size c = 0" "c_cmd c = Some cmd"
      using ph b by (auto simp: recv_phase_def)
    with lf i b show ?thesis
      by (intro exI [of _ "[y]"] exI [of _ us] exI [of _ "c\<lparr>c_input_parsed := Suc (c_input_parsed c), c_state := sExecute\<rparr>"])
        (auto simp: u recv_part_def recv_trailer_def advanced_def request_text_def recv_phase_def)
  qed
qed

lemma recv_step:
  assumes r: "is_request p h b cmd" and ph: "recv_phase p h b cmd xs c"
    and t: "request_text h b = xs @ unread c @ zs"
    and c: "unread c \<noteq> []" "c_input_used c \<le> length (c_input c)" "length (c_input c) < 2 ^ 32"
    and hd: "c_state c = sRecvHeader \<Longrightarrow> c_input_parsed c = 0"
  shows "\<exists>ys us c1. unread c = ys @ us \<and> recv_part w c = Continue w c1 \<and> advanced p h b cmd xs c ys c1"
proof -
  have b: "length b < 2 ^ 32" using r by (simp add: is_request_def)
  consider (header) "length xs < length h" | (body) "length h \<le> length xs" "length xs < length h + length b"
    | (trailer) "length h + length b \<le> length xs" by linarith
  then show ?thesis
  proof cases
    case header
    then have p0: "c_input_parsed c = 0" using ph hd by (simp add: recv_phase_def)
    have pre: "h = take (length h) (xs @ unread c @ zs)"
      using t by (metis append_eq_conv_conj request_text_def)
    show ?thesis
    proof (cases "length xs + length (unread c) < length h")
      case True
      then have "h = xs @ unread c @ take (length h - length xs - length (unread c)) zs"
        using pre header by simp
      moreover have "take (length h - length xs - length (unread c)) zs \<noteq> []"
        using True arg_cong [OF calculation, of length] by auto
      ultimately show ?thesis
        using recv_header_more [OF r ph _ _ c(1) p0 c(2), of _ w] by (metis append_Nil2)
    next
      case False
      let ?ys = "take (length h - length xs) (unread c)"
      have "h = xs @ ?ys" "?ys \<noteq> []" using pre header False by auto
      then show ?thesis
        using recv_header_done [OF r ph _ _ append_take_drop_id [symmetric] p0 c(2), of "length h - length xs" w]
        by (metis append_take_drop_id)
    qed
  next
    case body
    from recv_body_phase [OF ph body t b c] show ?thesis .
  next
    case trailer
    from recv_trailer_phase [OF ph trailer t c(1,2)] show ?thesis .
  qed
qed

text \<open>The worker after it executed a command of connection \<open>i\<close>, and a connection between requests.\<close>

definition task_done :: "nat \<Rightarrow> command \<Rightarrow> string \<Rightarrow> string \<Rightarrow> 's \<Rightarrow> 's worker \<Rightarrow> 's worker" where
  "task_done i cmd b out s' w =
     (let t = w_next_task w
      in w\<lparr>w_storage := s', w_next_task := Suc t,
           w_tasks := (w_tasks w)(t \<mapsto> \<lparr>t_connection = i, t_cmd = Some cmd, t_argument = b, t_result = out @ crlf\<rparr>),
           w_uv := w_uv w @ [Call_async_init (H_done t), Call_async_send (H_done t)]\<rparr>)"

definition idle :: "connection \<Rightarrow> bool" where
  "idle c \<longleftrightarrow> c_state c = sRecvHeader \<and> c_body c = [] \<and> c_cmd c = None \<and>
     c_parser c = new_Parser (p_negative (c_parser c)) \<and> c_input_parsed c = c_input_used c"

lemma Execute_ok:
  assumes "c_cmd c = Some cmd" "rc (Call_async_init (H_done (w_next_task w))) = 0"
    and "Command_Execute ops cmd (w_storage w) (c_body c) = Inr (s', out)"
  shows "Execute ops rc w i c = Continue (task_done i cmd (c_body c) out s' w)
    (c\<lparr>c_cmd := None, c_body := [], c_runningTasks := c_runningTasks c + 1\<rparr>)"
  using assms by (simp add: Execute_def task_done_def uv_def Let_def)

lemma unread_advanced:
  assumes "advanced p h b cmd xs c ys c1" "unread c = ys @ us" "c_input_used c \<le> length (c_input c)"
  shows "unread c1 = us" "c_input_parsed c1 \<le> c_input_used c1"
proof -
  have l: "length (unread c) = c_input_used c - c_input_parsed c" using assms(3) by (simp add: unread_def)
  have "us = drop (length ys) (unread c)" using assms(2) by simp
  also have "\<dots> = unread c1"
    using assms(1) by (simp add: unread_def advanced_def drop_take add.commute)
  finally show "unread c1 = us" by simp
  show "c_input_parsed c1 \<le> c_input_used c1"
    using assms(1) arg_cong [OF assms(2), of length] l by (cases ys) (auto simp: advanced_def)
qed

text \<open>The loop consumes the whole buffer, and runs the command when the request is complete.\<close>

text \<open>The step that completes the request also executes it, and the loop ends with an idle connection.\<close>

lemma OnRead_loop_executes:
  assumes rc: "rc (Call_async_init (H_done (w_next_task w))) = 0"
    and ex: "Command_Execute ops cmd (w_storage w) b = Inr (s', out)"
    and recv: "recv_part w c = Continue w c1" and adv: "advanced p h b cmd xs c ys c1"
    and all: "xs @ ys = request_text h b" "unread c = ys"
    and pos: "c_input_parsed c < c_input_used c" "c_input_used c \<le> length (c_input c)"
  shows "\<exists>c'. c_input c' = c_input c \<and> c_input_used c' = c_input_used c \<and> c_input_parsed c' = c_input_used c \<and>
    OnRead_loop ops rc i w c = Some (Continue (task_done i cmd b out s' w) c') \<and>
    idle c' \<and> c_runningTasks c' = c_runningTasks c + 1"
proof -
  have l: "length ys = c_input_used c - c_input_parsed c" using pos(2) all(2) [symmetric] by (simp add: unread_def)
  let ?c2 = "finish_command (c1\<lparr>c_cmd := None, c_body := [], c_runningTasks := c_runningTasks c1 + 1\<rparr>)"
  from adv all(1) have c1: "c_state c1 = sExecute" "c_cmd c1 = Some cmd" "c_body c1 = b"
    "c_input c1 = c_input c" "c_input_used c1 = c_input_used c" "c_runningTasks c1 = c_runningTasks c"
    "c_input_parsed c1 = c_input_parsed c + length ys"
    by (auto simp: advanced_def)
  have "OnRead_step ops rc i w c = Continue (task_done i cmd b out s' w) ?c2"
    using recv c1 Execute_ok [of c1 cmd rc w ops s' out i] rc ex by (simp add: OnRead_step_def)
  moreover have "c_input_parsed ?c2 = c_input_used ?c2" using l c1 pos(1) by (simp add: finish_command_def)
  ultimately have "OnRead_loop ops rc i w c = Some (Continue (task_done i cmd b out s' w) ?c2)"
    using pos(1) by (simp add: OnRead_loop.simps)
  then show ?thesis
    using c1 l pos(1) by (intro exI [of _ ?c2]) (auto simp: finish_command_def idle_def Reset_new)
qed

lemma OnRead_loop_request:
  assumes r: "is_request p h b cmd"
    and rc: "rc (Call_async_init (H_done (w_next_task w))) = 0"
    and ex: "Command_Execute ops cmd (w_storage w) b = Inr (s', out)"
  shows "recv_phase p h b cmd xs c \<Longrightarrow> request_text h b = xs @ unread c @ zs \<Longrightarrow> xs \<noteq> request_text h b \<Longrightarrow>
    c_input_parsed c \<le> c_input_used c \<Longrightarrow>
    c_input_used c \<le> length (c_input c) \<Longrightarrow> length (c_input c) < 2 ^ 32 \<Longrightarrow>
    (c_state c = sRecvHeader \<Longrightarrow> c_input_parsed c = 0 \<or> c_input_parsed c = c_input_used c) \<Longrightarrow>
    \<exists>c'. c_input c' = c_input c \<and> c_input_used c' = c_input_used c \<and> c_input_parsed c' = c_input_used c \<and>
      OnRead_loop ops rc i w c
        = Some (Continue (if zs = [] then task_done i cmd b out s' w else w) c') \<and>
      (if zs = [] then idle c' \<and> c_runningTasks c' = c_runningTasks c + 1
       else recv_phase p h b cmd (xs @ unread c) c' \<and> c_runningTasks c' = c_runningTasks c)"
proof (induction "length (unread c)" arbitrary: xs c rule: less_induct)
  case less
  note t = less.prems(2)
  have l: "length (unread c) = c_input_used c - c_input_parsed c" using less.prems(5) by (simp add: unread_def)
  show ?case
  proof (cases "unread c = []")
    case True
    with l less.prems(4) have e: "c_input_parsed c = c_input_used c" by simp
    with True t less.prems(1,3) show ?thesis
      by (intro exI [of _ c]) (auto simp: OnRead_loop.simps)
  next
    case False
    then have lt: "c_input_parsed c < c_input_used c" using l by (cases "c_input_parsed c < c_input_used c") auto
    have hd: "c_state c = sRecvHeader \<Longrightarrow> c_input_parsed c = 0" using less.prems(7) lt by auto
    obtain ys us c1 where s: "unread c = ys @ us" "recv_part w c = Continue w c1"
      and adv: "advanced p h b cmd xs c ys c1"
      using recv_step [OF r less.prems(1) t False less.prems(5,6) hd, of w] by blast
    note u1 = unread_advanced [OF adv s(1) less.prems(5)]
    show ?thesis
    proof (cases "xs @ ys = request_text h b")
      case True
      then have z: "us = []" "zs = []" using t s(1) by auto
      then show ?thesis using OnRead_loop_executes [where rc = rc, OF rc ex s(2) adv True _ lt less.prems(5)] s(1) by auto
    next
      case ne: False
      then have c1: "recv_phase p h b cmd (xs @ ys) c1" "c_state c1 \<noteq> sExecute"
        "c_state c1 \<noteq> sRecvHeader \<or> c_input_parsed c1 = c_input_used c1"
        "c_input c1 = c_input c" "c_input_used c1 = c_input_used c" "c_runningTasks c1 = c_runningTasks c"
        "ys \<noteq> []"
        using adv by (auto simp: advanced_def)
      have "OnRead_loop ops rc i w c = OnRead_loop ops rc i w c1"
        using lt s(2) c1(2) by (simp add: OnRead_loop.simps [of _ _ _ _ c] OnRead_step_def)
      moreover have "length (unread c1) < length (unread c)" using u1 s(1) c1(7) by auto
      ultimately show ?thesis
        using less.hyps [of c1 "xs @ ys"] c1 u1 ne t s(1) less.prems(5,6) by auto
    qed
  qed
qed

definition buffer_ok :: "connection \<Rightarrow> bool" where
  "buffer_ok c \<longleftrightarrow> length (c_input c) = ConnectionInputBufferSize \<and>
     c_input_parsed c \<le> c_input_used c \<and> c_input_used c \<le> ConnectionInputBufferSize"

lemma OnAllocate_drained:
  assumes "c_input_parsed c = c_input_used c"
  shows "OnAllocate c = Inr (c\<lparr>c_input_parsed := 0, c_input_used := 0\<rparr>, 0, ConnectionInputBufferSize)"
  using assms by (simp add: OnAllocate_def)

text \<open>The connection as the loop of \<open>OnRead\<close> finds it after the delivery of \<open>cs\<close>.\<close>

definition delivered :: "string \<Rightarrow> connection \<Rightarrow> connection" where
  "delivered cs c = c\<lparr>c_input_parsed := 0, c_input := cs @ drop (length cs) (c_input c),
     c_input_used := length cs\<rparr>"

lemma deliver_loop:
  assumes "w_conns w i = Some c" "c_input_parsed c = c_input_used c" "c_state c \<noteq> sClosed"
  shows "deliver ops rc i w cs = map_option
      (\<lambda>r. case r of
             Continue w' c' \<Rightarrow> Inr (set_conn i c' w')
           | Throw e w' c' \<Rightarrow> OnRead_catch rc i e w' c'
           | Fail f \<Rightarrow> Inl f)
      (OnRead_loop ops rc i (set_conn i (delivered cs c\<lparr>c_input_used := 0\<rparr>) w) (delivered cs c))"
proof -
  have "c\<lparr>c_input_parsed := 0, c_input_used := 0, c_input := write_at 0 cs (c_input c)\<rparr>
      = delivered cs c\<lparr>c_input_used := 0\<rparr>"
    "c\<lparr>c_input_parsed := 0, c_input := write_at 0 cs (c_input c), c_input_used := length cs\<rparr>
      = delivered cs c"
    by (cases c; simp add: delivered_def write_at_def)+
  moreover have "c_state (delivered cs c) = c_state c" by (simp add: delivered_def)
  ultimately show ?thesis using assms
    by (simp add: deliver_def OnAllocate_drained OnRead_def)
qed

lemma deliver_drained:
  assumes "w_conns w i = Some c" "c_input_parsed c = c_input_used c" "c_state c \<noteq> sClosed"
    and "OnRead_loop ops rc i (set_conn i (delivered cs c\<lparr>c_input_used := 0\<rparr>) w) (delivered cs c)
      = Some (Continue w1 c1)"
  shows "deliver ops rc i w cs = Some (Inr (set_conn i c1 w1))"
  using assms(4) by (simp add: deliver_loop [OF assms(1-3)])

lemma delivered_simps [simp]:
  "c_input_parsed (delivered cs c) = 0" "c_input_used (delivered cs c) = length cs"
  "c_state (delivered cs c) = c_state c" "c_runningTasks (delivered cs c) = c_runningTasks c"
  "recv_phase p h b cmd xs (delivered cs c) = recv_phase p h b cmd xs c"
  "unread (delivered cs c) = cs"
  by (simp_all add: delivered_def recv_phase_def unread_def)

lemma delivered_buffer:
  "length cs \<le> length (c_input c) \<Longrightarrow> length (c_input (delivered cs c)) = length (c_input c)"
  by (simp add: delivered_def)

lemma task_done_set_conn: "task_done i cmd b out s' (set_conn i c w) = set_conn i c (task_done i cmd b out s' w)"
  by (simp add: task_done_def set_conn_def Let_def)

lemma deliver_request:
  assumes r: "is_request p h b cmd"
    and rc: "rc (Call_async_init (H_done (w_next_task w))) = 0"
    and ex: "Command_Execute ops cmd (w_storage w) b = Inr (s', out)"
    and c: "w_conns w i = Some c" "c_input_parsed c = c_input_used c" "recv_phase p h b cmd xs c" "buffer_ok c"
    and t: "request_text h b = xs @ cs @ zs" "cs @ zs \<noteq> []" "length cs \<le> ConnectionInputBufferSize"
  shows "\<exists>c'. deliver ops rc i w cs
      = Some (Inr (set_conn i c' (if zs = [] then task_done i cmd b out s' w else w))) \<and>
    c_input_parsed c' = c_input_used c' \<and> buffer_ok c' \<and>
    (if zs = [] then idle c' \<and> c_runningTasks c' = c_runningTasks c + 1
     else recv_phase p h b cmd (xs @ cs) c' \<and> c_runningTasks c' = c_runningTasks c)"
proof -
  let ?c = "delivered cs c" and ?w = "set_conn i (delivered cs c\<lparr>c_input_used := 0\<rparr>) w"
  have len: "length (c_input ?c) = ConnectionInputBufferSize"
    using c(4) t(3) delivered_buffer [of cs c] by (simp add: buffer_ok_def)
  have nc: "c_state c \<noteq> sClosed" using c(3) by (auto simp: recv_phase_def Let_def split: if_splits)
  obtain c' where c': "c_input c' = c_input ?c" "c_input_used c' = length cs" "c_input_parsed c' = length cs"
    and lp: "OnRead_loop ops rc i ?w ?c = Some (Continue (if zs = [] then task_done i cmd b out s' ?w else ?w) c')"
    and ph: "if zs = [] then idle c' \<and> c_runningTasks c' = c_runningTasks c + 1
       else recv_phase p h b cmd (xs @ cs) c' \<and> c_runningTasks c' = c_runningTasks c"
    using OnRead_loop_request [OF r, of rc ?w ops s' out xs ?c zs i, unfolded delivered_simps] rc ex c(3) t len
    by (auto simp: ConnectionInputBufferSize_def)
  have "buffer_ok c'" using c' len t(3) by (simp add: buffer_ok_def)
  moreover have "deliver ops rc i w cs
      = Some (Inr (set_conn i c' (if zs = [] then task_done i cmd b out s' w else w)))"
    using deliver_drained [OF c(1,2) nc lp] by (simp add: task_done_set_conn)
  ultimately show ?thesis using c' ph by auto
qed

lemma deliver_nothing:
  assumes "w_conns w i = Some c" "idle c" "buffer_ok c"
  shows "\<exists>c'. deliver ops rc i w [] = Some (Inr (set_conn i c' w)) \<and> idle c' \<and> buffer_ok c' \<and>
    c_runningTasks c' = c_runningTasks c"
proof -
  have "OnRead_loop ops rc i (set_conn i (delivered [] c\<lparr>c_input_used := 0\<rparr>) w) (delivered [] c)
      = Some (Continue (set_conn i (delivered [] c\<lparr>c_input_used := 0\<rparr>) w) (delivered [] c))"
    by (simp add: OnRead_loop.simps)
  from deliver_drained [OF assms(1) _ _ this] assms(2)
  have "deliver ops rc i w [] = Some (Inr (set_conn i (delivered [] c) w))" by (simp add: idle_def)
  moreover have "idle (delivered [] c)" "buffer_ok (delivered [] c)"
    using assms(2,3) by (auto simp: idle_def delivered_def buffer_ok_def)
  ultimately show ?thesis by auto
qed

lemma deliver_all_nothing:
  "w_conns w i = Some c \<Longrightarrow> idle c \<Longrightarrow> buffer_ok c \<Longrightarrow> concat css = [] \<Longrightarrow>
   \<exists>c'. deliver_all ops rc i w css = Some (Inr (set_conn i c' w)) \<and> idle c' \<and> buffer_ok c' \<and>
     c_runningTasks c' = c_runningTasks c"
proof (induction css arbitrary: w c)
  case (Cons cs css)
  then obtain c' where c': "deliver ops rc i w [] = Some (Inr (set_conn i c' w))" "idle c'" "buffer_ok c'"
    "c_runningTasks c' = c_runningTasks c"
    using deliver_nothing [of w i c ops rc] by auto
  with Cons.IH [of "set_conn i c' w" c'] Cons.prems(4) show ?case by auto
next
  case Nil
  then have "set_conn i c w = w" by (simp add: set_conn_same)
  with Nil show ?case by (intro exI [of _ c]) simp
qed

lemma deliver_all_request:
  assumes r: "is_request p h b cmd"
    and rc: "rc (Call_async_init (H_done t)) = 0"
    and ex: "Command_Execute ops cmd s b = Inr (s', out)"
  shows "w_next_task w = t \<Longrightarrow> w_storage w = s \<Longrightarrow> w_conns w i = Some c \<Longrightarrow>
    c_input_parsed c = c_input_used c \<Longrightarrow> recv_phase p h b cmd xs c \<Longrightarrow> buffer_ok c \<Longrightarrow>
    request_text h b = xs @ concat css \<Longrightarrow> concat css \<noteq> [] \<Longrightarrow>
    \<forall>cs \<in> set css. length cs \<le> ConnectionInputBufferSize \<Longrightarrow>
    \<exists>c'. deliver_all ops rc i w css = Some (Inr (set_conn i c' (task_done i cmd b out s' w))) \<and>
      idle c' \<and> buffer_ok c' \<and> c_runningTasks c' = c_runningTasks c + 1"
proof (induction css arbitrary: w c xs)
  case (Cons cs css)
  then obtain c1 where c1: "deliver ops rc i w cs
      = Some (Inr (set_conn i c1 (if concat css = [] then task_done i cmd b out s' w else w)))"
    "c_input_parsed c1 = c_input_used c1" "buffer_ok c1"
    and ph: "if concat css = [] then idle c1 \<and> c_runningTasks c1 = c_runningTasks c + 1
     else recv_phase p h b cmd (xs @ cs) c1 \<and> c_runningTasks c1 = c_runningTasks c"
    using deliver_request [OF r, of rc w ops s' out i c xs cs "concat css"] rc ex by auto
  show ?case
  proof (cases "concat css = []")
    case True
    let ?w = "task_done i cmd b out s' w"
    from True c1 ph obtain c' where "deliver_all ops rc i (set_conn i c1 ?w) css
        = Some (Inr (set_conn i c' (set_conn i c1 ?w)))" "idle c'" "buffer_ok c'"
      "c_runningTasks c' = c_runningTasks c + 1"
      using deliver_all_nothing [of "set_conn i c1 ?w" i c1 css ops rc] by auto
    then show ?thesis using True c1(1) by (intro exI [of _ c']) simp
  next
    case False
    with Cons.IH [of "set_conn i c1 w" c1 "xs @ cs"] Cons.prems c1 ph show ?thesis
      by (auto simp: task_done_set_conn simp del: concat_eq_Nil_conv)
  qed
qed simp

lemma recv_phase_start: "idle c \<Longrightarrow> is_request (c_parser c) h b cmd \<Longrightarrow> recv_phase (c_parser c) h b cmd [] c"
  by (cases h) (auto simp: recv_phase_def idle_def is_request_def)

lemma deliver_all_idle:
  assumes "w_conns w i = Some c" "idle c" "buffer_ok c" "is_request (c_parser c) h b cmd"
    and "rc (Call_async_init (H_done (w_next_task w))) = 0"
    and "Command_Execute ops cmd (w_storage w) b = Inr (s', out)"
    and "concat css = request_text h b" "\<forall>cs \<in> set css. length cs \<le> ConnectionInputBufferSize"
  shows "\<exists>c'. deliver_all ops rc i w css = Some (Inr (set_conn i c' (task_done i cmd b out s' w))) \<and>
    idle c' \<and> buffer_ok c' \<and> c_runningTasks c' = c_runningTasks c + 1"
  using deliver_all_request [where w = w and rc = rc and css = css, OF assms(4,5,6) refl refl assms(1) _
      recv_phase_start [OF assms(2,4)] assms(3)]
    assms(2,7,8) request_nonempty [OF assms(4)]
  by (simp add: idle_def)

section \<open>Two requests in one buffer\<close>

lemma OnRead_loop_None:
  assumes "\<And>w c. D w c \<Longrightarrow> c_input_parsed c < c_input_used c \<and>
      (\<exists>w1 c1. OnRead_step ops rc i w c = Continue w1 c1 \<and> D w1 c1)"
    and "D w c"
  shows "OnRead_loop ops rc i w c = None"
proof -
  have "ops' = ops \<and> rc' = rc \<and> i' = i \<longrightarrow> \<not> D w' c'"
    if "OnRead_loop ops' rc' i' w' c' = Some y" for ops' rc' i' w' c' y
    using that
  proof (rule OnRead_loop.raw_induct [rotated], intro impI notI)
    fix loop ops' rc' i' w' c' y
    assume IH: "\<And>ops' rc' i' w' c' y. loop ops' rc' i' w' c' = Some y \<Longrightarrow>
        ops' = ops \<and> rc' = rc \<and> i' = i \<longrightarrow> \<not> D w' c'"
      and body: "(if c_input_parsed c' < c_input_used c' then
          (case OnRead_step ops' rc' i' w' c' of
             Continue w1 c1 \<Rightarrow> loop ops' rc' i' w1 c1 | Throw x xa xb \<Rightarrow> Some (Throw x xa xb) | Fail x \<Rightarrow> Some (Fail x))
        else Some (Continue w' c')) = Some y"
      and eq: "ops' = ops \<and> rc' = rc \<and> i' = i" and d: "D w' c'"
    from assms(1) [OF d] eq body IH show False by auto
  qed
  with assms(2) show ?thesis by (cases "OnRead_loop ops rc i w c") auto
qed

text \<open>A connection that will parse the request \<open>h\<close> at the start of its buffer once more.\<close>

definition stuck_on :: "string \<Rightarrow> string \<Rightarrow> connection \<Rightarrow> bool" where
  "stuck_on h rest c \<longleftrightarrow>
     c_state c = sRecvHeader \<and> (\<exists>neg. c_parser c = new_Parser neg) \<and> c_body c = [] \<and>
     take (c_input_used c) (c_input c) = h @ rest \<and> rest \<noteq> [] \<and> c_input_parsed c < c_input_used c"

lemma stuck_step:
  assumes req: "\<And>neg. is_request (new_Parser neg) h [] cmd"
    and rc: "\<And>t. rc (Call_async_init (H_done t)) = 0"
    and ex: "Command_Execute ops cmd (w_storage w) [] = Inr (s', out)"
    and st: "stuck_on h rest c" "c_input_used c \<le> length (c_input c)"
  shows "\<exists>c1. OnRead_step ops rc i w c = Continue (task_done i cmd [] out s' w) c1 \<and> stuck_on h rest c1 \<and>
    c_input_used c1 \<le> length (c_input c1) \<and> c_runningTasks c1 = c_runningTasks c + 1"
proof -
  from st(1) obtain neg where neg: "c_parser c = new_Parser neg" by (auto simp: stuck_on_def)
  from req [of neg] obtain q where q: "parse_loop (new_Parser neg) 0 h = Inr (q, length h)" "p_complete q"
    "\<And>bs. Build q bs = Inr (Some cmd, 0)" by (auto simp: is_request_def)
  have "Parse (c_parser c) (c_input c) (c_input_used c) = Inr (q, length h, True)"
    using st(1) q neg by (simp add: Parse_def stuck_on_def parse_loop_append parse_loop_complete)
  then have "recv_part w c = Continue w (c\<lparr>c_parser := q, c_input_parsed := length h, c_cmd := Some cmd,
      c_body_size := 0, c_state := sExecute\<rparr>)"
    using st(1) q(3) by (simp add: recv_part_def recv_header_def stuck_on_def)
  moreover have "length h < c_input_used c"
  proof -
    have "length (h @ rest) = c_input_used c" "rest \<noteq> []"
      using st by (auto simp: stuck_on_def dest: arg_cong [of _ _ length])
    then show ?thesis by (cases rest) auto
  qed
  ultimately show ?thesis
    using st rc ex by (auto simp: OnRead_step_def Execute_ok stuck_on_def finish_command_def Reset_new)
qed

lemma loop_reparses:
  assumes req: "\<And>neg. is_request (new_Parser neg) h [] cmd"
    and rc: "\<And>t. rc (Call_async_init (H_done t)) = 0"
    and ex: "\<And>s. good s \<Longrightarrow> \<exists>s' out. Command_Execute ops cmd s [] = Inr (s', out) \<and> good s'"
    and st: "stuck_on h rest c" "c_input_used c \<le> length (c_input c)" "good (w_storage w)"
  shows "OnRead_loop ops rc i w c = None"
proof (rule OnRead_loop_None [of "\<lambda>w c. stuck_on h rest c \<and> c_input_used c \<le> length (c_input c) \<and> good (w_storage w)"])
  fix w :: "'a worker" and c
  assume a: "stuck_on h rest c \<and> c_input_used c \<le> length (c_input c) \<and> good (w_storage w)"
  then obtain s' out where e: "Command_Execute ops cmd (w_storage w) [] = Inr (s', out)" "good s'"
    using ex by blast
  from stuck_step [of h cmd rc ops w s' out rest c i, OF req rc e(1)] a obtain c1
    where "OnRead_step ops rc i w c = Continue (task_done i cmd [] out s' w) c1" "stuck_on h rest c1"
      "c_input_used c1 \<le> length (c_input c1)" by blast
  moreover have "w_storage (task_done i cmd [] out s' w) = s'" by (simp add: task_done_def Let_def)
  ultimately show "c_input_parsed c < c_input_used c \<and> (\<exists>w1 c1. OnRead_step ops rc i w c = Continue w1 c1 \<and>
      stuck_on h rest c1 \<and> c_input_used c1 \<le> length (c_input c1) \<and> good (w_storage w1))"
    using a e(2) by (auto simp: stuck_on_def)
qed (use st in simp)

section \<open>The buffer\<close>

lemma recv_part_buffer:
  assumes "recv_part w c = r" "buffer_ok c" "c_input_parsed c < c_input_used c"
  shows "(case r of Continue w1 c1 \<Rightarrow> buffer_ok c1 | Throw e w1 c1 \<Rightarrow> buffer_ok c1 | Fail f \<Rightarrow> True)"
proof -
  have n: "Parse p s m = Inr (q, n, fin) \<Longrightarrow> n \<le> m" for p s m q n fin
    using parse_loop_bound [of p 0 "take m s"] by (auto simp: Parse_def res_simps)
  have body: "buffer_ok (recv_body c)"
  proof -
    let ?f = "min (of_nat (c_input_used c - c_input_parsed c)) (c_body_size c)"
    have "unat ?f \<le> unat (of_nat (c_input_used c - c_input_parsed c) :: u32)"
      by (simp add: word_le_nat_alt [symmetric])
    also have "\<dots> \<le> c_input_used c - c_input_parsed c" by (simp add: unat_of_nat)
    finally show ?thesis using assms(2,3) by (auto simp: recv_body_def Let_def buffer_ok_def)
  qed
  show ?thesis
    using assms body
    by (auto simp: recv_part_def recv_header_def recv_trailer_def buffer_ok_def Let_def
        dest: n split: conn_state.splits sum.splits prod.splits parse_error.splits bool.splits if_splits)
qed

lemma Execute_buffer:
  "case Execute ops rc w i c of Continue w1 c1 \<Rightarrow> buffer_ok c1 = buffer_ok c
    | Throw e w1 c1 \<Rightarrow> buffer_ok c1 = buffer_ok c | Fail f \<Rightarrow> True"
  by (auto simp: Execute_def Let_def buffer_ok_def split: option.splits sum.splits prod.splits)

lemma OnRead_step_buffer:
  assumes "buffer_ok c" "c_input_parsed c < c_input_used c"
  shows "case OnRead_step ops rc i w c of Continue w1 c1 \<Rightarrow> buffer_ok c1 | Throw e w1 c1 \<Rightarrow> buffer_ok c1
    | Fail f \<Rightarrow> True"
proof (cases "recv_part w c")
  case (Continue w1 c1)
  then have "buffer_ok c1" using recv_part_buffer [OF Continue assms] by simp
  with Continue Execute_buffer [where ops = ops and rc = rc and w = w1 and i = i and c = c1] show ?thesis
    by (auto simp: OnRead_step_def finish_command_def buffer_ok_def split: outcome.splits)
qed (use recv_part_buffer [OF refl assms, of w] in \<open>auto simp: OnRead_step_def\<close>)

lemma OnRead_loop_buffer:
  assumes "OnRead_loop ops rc i w c = Some r" "buffer_ok c"
  shows "case r of Continue w1 c1 \<Rightarrow> buffer_ok c1 | Throw e w1 c1 \<Rightarrow> buffer_ok c1 | Fail f \<Rightarrow> True"
proof -
  have "buffer_ok c \<longrightarrow> (case r of Continue w1 c1 \<Rightarrow> buffer_ok c1 | Throw e w1 c1 \<Rightarrow> buffer_ok c1 | Fail f \<Rightarrow> True)"
    using assms(1)
  proof (rule OnRead_loop.raw_induct [rotated], intro impI)
    fix loop ops rc i w c r
    assume IH: "\<And>ops rc i w c r. loop ops rc i w c = Some r \<Longrightarrow> buffer_ok c \<longrightarrow>
        (case r of Continue w1 c1 \<Rightarrow> buffer_ok c1 | Throw e w1 c1 \<Rightarrow> buffer_ok c1 | Fail f \<Rightarrow> True)"
      and body: "(if c_input_parsed c < c_input_used c then
          (case OnRead_step ops rc i w c of
             Continue w1 c1 \<Rightarrow> loop ops rc i w1 c1 | Throw x xa xb \<Rightarrow> Some (Throw x xa xb) | Fail x \<Rightarrow> Some (Fail x))
        else Some (Continue w c)) = Some r"
      and ok: "buffer_ok c"
    show "case r of Continue w1 c1 \<Rightarrow> buffer_ok c1 | Throw e w1 c1 \<Rightarrow> buffer_ok c1 | Fail f \<Rightarrow> True"
    proof (cases "c_input_parsed c < c_input_used c")
      case True
      with OnRead_step_buffer [OF ok True, of ops rc i w] IH body show ?thesis
        by (cases "OnRead_step ops rc i w c") auto
    qed (use body ok in auto)
  qed
  with assms(2) show ?thesis by blast
qed

lemma OnAllocate_room:
  assumes "buffer_ok c"
  shows "\<exists>c1 off len. OnAllocate c = Inr (c1, off, len) \<and> off + len = length (c_input c1) \<and>
    off = c_input_used c1 \<and> c_input_parsed c1 = 0 \<and> length (c_input c1) = ConnectionInputBufferSize \<and>
    c_state c1 = c_state c"
  using assms by (auto simp: OnAllocate_def buffer_ok_def Let_def)

lemma OnExecutionDone_conns:
  "OnExecutionDone rc w t = Inr w' \<Longrightarrow> w_conns w' = w_conns w"
  by (auto simp: OnExecutionDone_def uv_close_def uv_def Let_def split: option.splits if_splits)

lemma OnRead_buffer:
  assumes "w_conns w i = Some c" "buffer_ok (c\<lparr>c_input_used := c_input_used c + nat nread\<rparr>)" "0 \<le> nread"
    and "buffer_ok c" "OnRead ops rc w i nread = Some (Inr w')"
  shows "\<exists>c'. w_conns w' i = Some c' \<and> buffer_ok c'"
proof (cases "c_state c = sClosed")
  case True
  with assms show ?thesis by (auto simp: OnRead_def)
next
  case False
  with assms(1,3,5) obtain r where r: "OnRead_loop ops rc i w (c\<lparr>c_input_used := c_input_used c + nat nread\<rparr>) = Some r"
    "(case r of Continue w' c' \<Rightarrow> Inr (set_conn i c' w') | Throw e w' c' \<Rightarrow> OnRead_catch rc i e w' c' | Fail f \<Rightarrow> Inl f)
      = Inr w'"
    by (auto simp: OnRead_def)
  with OnRead_loop_buffer [OF r(1) assms(2)] show ?thesis
    by (auto simp: OnRead_catch_def Let_def buffer_ok_def dest!: OnExecutionDone_conns split: outcome.splits)
qed

section \<open>Properties of the worker\<close>

text \<open>
  C17: A request whose bytes arrive in pieces cut anywhere, each piece through \<open>OnAllocate\<close> and
  \<open>OnRead\<close>, is executed exactly once, with the parsed command and exactly its body as argument, when
  its last byte arrives: one task with the reply and a final line end is created, the storage is
  what the command made of it, and the connection waits for the next request.
\<close>

theorem request_executed_once:
  assumes "w_conns w i = Some c" "idle c" "buffer_ok c" "is_request (c_parser c) h b cmd"
    and "rc (Call_async_init (H_done (w_next_task w))) = 0"
    and "Command_Execute ops cmd (w_storage w) b = Inr (s', out)"
    and "concat css = request_text h b" "\<forall>cs \<in> set css. length cs \<le> ConnectionInputBufferSize"
  shows "\<exists>c'. deliver_all ops rc i w css = Some (Inr (set_conn i c' (task_done i cmd b out s' w))) \<and>
    idle c' \<and> buffer_ok c' \<and> c_runningTasks c' = c_runningTasks c + 1"
  using deliver_all_idle [where rc = rc, OF assms] .

lemma idle_new: "idle (new_Connection raw neg)"
  by (simp add: idle_def new_Connection_def Reset_new)

lemma buffer_new: "length raw = ConnectionInputBufferSize \<Longrightarrow> buffer_ok (new_Connection raw neg)"
  by (simp add: buffer_ok_def new_Connection_def)

lemma new_Connection_tasks: "c_runningTasks (new_Connection raw neg) = 0"
  by (simp add: new_Connection_def)

abbreviation raw_buffer :: string where
  "raw_buffer \<equiv> replicate ConnectionInputBufferSize CHR ''?''"

text \<open>A worker on an empty cache of 8 bytes with one new connection.\<close>

definition one_client :: "lru_store worker" where
  "one_client = set_conn 0 (new_Connection raw_buffer False) (new_Worker (MapBasedGlobalLockImpl 8))"

lemma one_client_simps [simp]:
  "w_conns one_client 0 = Some (new_Connection raw_buffer False)"
  "w_storage one_client = MapBasedGlobalLockImpl 8" "w_next_task one_client = 0" "w_uv one_client = []"
  by (simp_all add: one_client_def new_Worker_def)

theorem request_executed_once_witness:
  "\<exists>c' s'. deliver_all lru_ops (\<lambda>_. 0) 0 one_client [''ge'', ''t a'' @ crlf]
      = Some (Inr (set_conn 0 c' (task_done 0 (new_Get [''a'']) [] ''END'' s' one_client))) \<and> idle c'"
proof -
  obtain s' where "Command_Execute lru_ops (new_Get [''a'']) (w_storage one_client) [] = Inr (s', ''END'')"
    using lru.Get_Execute_total [OF wf_init [of 8], of "[''a'']" "[]"]
    by (auto simp: new_Get_def items_found_def lookup_store_def MapBasedGlobalLockImpl_def)
  moreover have "is_request (c_parser (new_Connection raw_buffer False)) (get_header [''a'']) [] (new_Get [''a''])"
    by (simp add: new_Connection_def Reset_new is_request_get)
  ultimately show ?thesis
    using request_executed_once [of one_client 0 "new_Connection raw_buffer False" "get_header [''a'']" "[]"
        "new_Get [''a'']" "\<lambda>_. 0" lru_ops s' "''END''" "[''ge'', ''t a'' @ crlf]"]
    by (auto simp: idle_new buffer_new get_header_def request_text_def ConnectionInputBufferSize_def)
qed

text \<open>
  C20: \<open>Parse\<close> is called on the start of the buffer, not on its unread part.  When anything follows a
  complete \<open>get\<close> request in the same read, for instance a second request, \<open>OnRead\<close> never returns: it
  parses and executes the first request again and again.
\<close>

theorem pipelined_get_never_returns:
  assumes "w_conns w i = Some c" "idle c" "buffer_ok c" "wf_store (w_storage w)"
    and "\<forall>k \<in> set ks. sp \<notin> set k \<and> cr \<notin> set k" "ks \<noteq> []" "rest \<noteq> []"
    and "length (get_header ks @ rest) \<le> ConnectionInputBufferSize"
    and "\<forall>t. rc (Call_async_init (H_done t)) = 0"
  shows "deliver lru_ops rc i w (get_header ks @ rest) = None"
proof -
  let ?cs = "get_header ks @ rest"
  let ?w = "set_conn i (delivered ?cs c\<lparr>c_input_used := 0\<rparr>) w"
  have st: "stuck_on (get_header ks) rest (delivered ?cs c)"
    using assms(2,7) by (auto simp: stuck_on_def delivered_def idle_def)
  have "OnRead_loop lru_ops rc i ?w (delivered ?cs c) = None"
  proof (rule loop_reparses [where good = wf_store and cmd = "new_Get ks"])
    show "\<And>neg. is_request (new_Parser neg) (get_header ks) [] (new_Get ks)"
      using assms(5,6) by (rule is_request_get)
    show "\<exists>s' out. Command_Execute lru_ops (new_Get ks) s [] = Inr (s', out) \<and> wf_store s'" if "wf_store s" for s
      using lru.Get_Execute_total [OF that, of ks "[]"] by (auto simp: new_Get_def)
    show "c_input_used (delivered ?cs c) \<le> length (c_input (delivered ?cs c))"
      using assms(3,8) delivered_buffer [of ?cs c] by (simp add: buffer_ok_def)
  qed (use st assms in auto)
  then show ?thesis
    using deliver_loop [OF assms(1), of lru_ops rc ?cs] assms(2) by (simp add: idle_def)
qed

theorem pipelined_get_never_returns_witness:
  "deliver lru_ops (\<lambda>_. 0) 0 one_client (get_header [''a''] @ get_header [''b'']) = None"
  by (rule pipelined_get_never_returns [of _ _ "new_Connection raw_buffer False"])
    (auto simp: idle_new buffer_new wf_init get_header_def ConnectionInputBufferSize_def)

lemma recv_rejects:
  assumes "Parse p (cs @ zs) (length cs) = Inl (e, q)" "\<forall>u. e \<noteq> Undefined u"
    and "c_state c = sRecvHeader" "c_parser c = p" "c_input c = cs @ zs" "c_input_used c = length cs"
  shows "recv_part w c = Throw (Parse_exn e) w (c\<lparr>c_parser := q, c_input_parsed := 0\<rparr>)"
  using assms by (cases e) (auto simp: recv_part_def recv_header_def)

lemma deliver_closed:
  assumes "w_conns w i = Some c" "c_state c = sClosed" "c_input_parsed c \<le> c_input_used c"
  shows "\<exists>c'. deliver ops rc i w cs = Some (Inr (set_conn i c' w)) \<and> c_state c' = sClosed"
  using assms by (simp add: deliver_def OnAllocate_def OnRead_def Let_def) (intro exI conjI, rule refl, simp)

text \<open>
  C19: A header the parser rejects is answered with \<open>CLIENT_ERROR\<close> and the parser's message, nothing
  is executed, and the connection is closed for input: whatever arrives later is ignored.
\<close>

theorem client_error_closes:
  assumes "w_conns w i = Some c" "idle c" "t = w_next_task w"
    and "Parse (c_parser c) cs (length cs) = Inl (e, q)" "\<forall>u. e \<noteq> Undefined u"
    and "reply = ''CLIENT_ERROR '' @ parse_error_text e @ crlf"
    and "\<not> is_closing w (H_done t)" "rc (Call_write t i reply) = 0"
  shows "\<exists>w' c'. deliver ops rc i w cs = Some (Inr w') \<and> w_conns w' i = Some c' \<and> c_state c' = sClosed \<and>
    w_storage w' = w_storage w \<and>
    w_uv w' = w_uv w @ [Call_async_init (H_done t), Call_close (H_done t) CB_OnHandleClosed, Call_write t i reply] \<and>
    (\<forall>cs'. \<exists>c''. deliver ops rc i w' cs' = Some (Inr (set_conn i c'' w')) \<and> c_state c'' = sClosed)"
proof -
  let ?d = "delivered cs c" and ?w = "set_conn i (delivered cs c\<lparr>c_input_used := 0\<rparr>) w"
  let ?c1 = "?d\<lparr>c_parser := q, c_input_parsed := 0\<rparr>"
  let ?c2 = "?c1\<lparr>c_runningTasks := c_runningTasks ?c1 + 1, c_state := sClosed\<rparr>"
  have ne: "cs \<noteq> []" using assms(4) by (auto simp: Parse_def)
  have "recv_part ?w ?d = Throw (Parse_exn e) ?w ?c1"
    using assms(2,4,5) by (intro recv_rejects [where cs = cs and zs = "drop (length cs) (c_input c)"])
      (auto simp: delivered_def idle_def Parse_def)
  then have "OnRead_loop ops rc i ?w ?d = Some (Throw (Parse_exn e) ?w ?c1)"
    using ne by (simp add: OnRead_loop.simps OnRead_step_def)
  then have "deliver ops rc i w cs = Some (OnRead_catch rc i (Parse_exn e) ?w ?c1)"
    using deliver_loop [OF assms(1), of ops rc cs] assms(2) by (simp add: idle_def)
  moreover obtain w' where w': "OnRead_catch rc i (Parse_exn e) ?w ?c1 = Inr w'" "w_conns w' i = Some ?c2"
    "w_storage w' = w_storage w"
    "w_uv w' = w_uv w @ [Call_async_init (H_done t), Call_close (H_done t) CB_OnHandleClosed, Call_write t i reply]"
    using assms(3,6-8)
    by (simp add: OnRead_catch_def OnExecutionDone_def uv_close_def uv_def is_closing_def Let_def)
  moreover have "\<exists>c''. deliver ops rc i w' cs' = Some (Inr (set_conn i c'' w')) \<and> c_state c'' = sClosed" for cs'
    using w'(2) by (rule deliver_closed) auto
  ultimately show ?thesis by auto
qed

theorem client_error_closes_witness:
  "\<exists>w' c'. deliver lru_ops (\<lambda>_. 0) 0 one_client (''incr a'' @ crlf) = Some (Inr w') \<and>
    w_conns w' 0 = Some c' \<and> c_state c' = sClosed \<and>
    w_uv w' = [Call_async_init (H_done 0), Call_close (H_done 0) CB_OnHandleClosed,
      Call_write 0 0 (''CLIENT_ERROR Unknown command name'' @ crlf)]"
proof -
  have "\<exists>q. Parse (c_parser (new_Connection raw_buffer False)) (''incr a'' @ crlf) (length (''incr a'' @ crlf))
      = Inl (Unknown_command_name, q)"
    by (simp add: new_Connection_def Reset_def Parse_def new_Parser_fields parse_char_def parse_name_def)
  then obtain q where "Parse (c_parser (new_Connection raw_buffer False)) (''incr a'' @ crlf)
      (length (''incr a'' @ crlf)) = Inl (Unknown_command_name, q)" by blast
  from client_error_closes [OF one_client_simps(1) idle_new refl this, of _ "\<lambda>_. 0" lru_ops]
  show ?thesis by (auto simp: is_closing_def)
qed

text \<open>
  C21: \<open>OnRead\<close> closes a connection on end of file without looking at \<open>runningTasks\<close>.  A client that
  sends one request and shuts down before its reply is written brings the server down: the close
  callback fails its assertion that no task is running.
\<close>

theorem eof_before_reply_asserts:
  assumes "w_conns w i = Some c" "idle c" "buffer_ok c" "is_request (c_parser c) h b cmd"
    and "rc (Call_async_init (H_done (w_next_task w))) = 0"
    and "Command_Execute ops cmd (w_storage w) b = Inr (s', out)"
    and "concat css = request_text h b" "\<forall>cs \<in> set css. length cs \<le> ConnectionInputBufferSize"
    and "c_runningTasks c = 0" "\<not> is_closing w (H_connection i)" "nread < 0"
  shows "\<exists>w1 w2. deliver_all ops rc i w css = Some (Inr w1) \<and> OnRead ops rc w1 i nread = Some (Inr w2) \<and>
    OnConnectionClosed w2 i = Inl (Assertion_failed ''pconn->runningTasks == 0'')"
proof -
  obtain c' where d: "deliver_all ops rc i w css = Some (Inr (set_conn i c' (task_done i cmd b out s' w)))"
    "c_runningTasks c' = 1" using deliver_all_idle [where rc = rc, OF assms(1-8)] assms(9) by auto
  let ?w1 = "set_conn i c' (task_done i cmd b out s' w)"
  have "\<not> is_closing ?w1 (H_connection i)"
    using assms(10) by (simp add: is_closing_def task_done_def Let_def)
  then have "OnRead ops rc ?w1 i nread = Some (Inr (uv ?w1 (Call_close (H_connection i) CB_OnConnectionClosed)))"
    using assms(11) by (simp add: OnRead_def uv_close_def)
  moreover have "OnConnectionClosed (uv ?w1 (Call_close (H_connection i) CB_OnConnectionClosed)) i
      = Inl (Assertion_failed ''pconn->runningTasks == 0'')"
    using d(2) by (simp add: OnConnectionClosed_def uv_def)
  ultimately show ?thesis using d(1) by blast
qed

theorem eof_before_reply_asserts_witness:
  "\<exists>w1 w2. deliver_all lru_ops (\<lambda>_. 0) 0 one_client [get_header [''a'']] = Some (Inr w1) \<and>
    OnRead lru_ops (\<lambda>_. 0) w1 0 (-4095) = Some (Inr w2) \<and>
    OnConnectionClosed w2 0 = Inl (Assertion_failed ''pconn->runningTasks == 0'')"
proof -
  obtain s' where "Command_Execute lru_ops (new_Get [''a'']) (w_storage one_client) [] = Inr (s', ''END'')"
    using lru.Get_Execute_total [OF wf_init [of 8], of "[''a'']" "[]"]
    by (auto simp: new_Get_def items_found_def lookup_store_def MapBasedGlobalLockImpl_def)
  moreover have "is_request (c_parser (new_Connection raw_buffer False)) (get_header [''a'']) [] (new_Get [''a''])"
    by (simp add: new_Connection_def Reset_new is_request_get)
  ultimately show ?thesis
    using eof_before_reply_asserts [of one_client 0 "new_Connection raw_buffer False" "get_header [''a'']" "[]"
        "new_Get [''a'']" "\<lambda>_. 0" lru_ops s' "''END''" "[get_header [''a'']]" "-4095"]
    by (auto simp: idle_new buffer_new get_header_def request_text_def ConnectionInputBufferSize_def
        is_closing_def new_Connection_tasks)
qed

text \<open>
  C18: For any bytes a client sends, the buffer handed to libuv lies within the connection's buffer
  and the read positions stay ordered and within it, so neither \<open>OnAllocate\<close>'s assertion nor a
  bound is ever violated by the next read.
\<close>

theorem buffer_invariant:
  assumes "w_conns w i = Some c" "buffer_ok c"
  shows "\<exists>c1 off len. OnAllocate c = Inr (c1, off, len) \<and> off + len = ConnectionInputBufferSize \<and>
    (\<forall>cs w'. length cs \<le> len \<longrightarrow> deliver ops rc i w cs = Some (Inr w') \<longrightarrow>
       (\<exists>c'. w_conns w' i = Some c' \<and> buffer_ok c'))"
proof -
  from OnAllocate_room [OF assms(2)] obtain c1 off len where a: "OnAllocate c = Inr (c1, off, len)"
    "off + len = length (c_input c1)" "off = c_input_used c1" "c_input_parsed c1 = 0"
    "length (c_input c1) = ConnectionInputBufferSize" by blast
  have "\<exists>c'. w_conns w' i = Some c' \<and> buffer_ok c'"
    if cs: "length cs \<le> len" and d: "deliver ops rc i w cs = Some (Inr w')" for cs w'
  proof (rule OnRead_buffer)
    let ?c = "c1\<lparr>c_input := write_at off cs (c_input c1)\<rparr>"
    have l: "length (write_at off cs (c_input c1)) = ConnectionInputBufferSize"
      using a cs by (simp add: write_at_def)
    show "w_conns (set_conn i ?c w) i = Some ?c" by simp
    show "buffer_ok (?c\<lparr>c_input_used := c_input_used ?c + nat (int (length cs))\<rparr>)" "buffer_ok ?c"
      using a cs l by (auto simp: buffer_ok_def)
    show "OnRead ops rc (set_conn i ?c w) i (int (length cs)) = Some (Inr w')"
      using d assms(1) a(1) by (simp add: deliver_def)
  qed simp
  with a show ?thesis by auto
qed

theorem buffer_invariant_witness:
  "\<exists>c1 off len. OnAllocate (new_Connection raw_buffer False) = Inr (c1, off, len) \<and>
     off + len = ConnectionInputBufferSize"
  using buffer_invariant [OF one_client_simps(1) buffer_new, of lru_ops "\<lambda>_. 0"] by auto

end
