(* ===== verification/Uv_Safety.thy ===== *)
theory Uv_Safety
  imports Uv_Worker
begin

text \<open>
  Every interleaving of the callbacks of a libuv worker (src/src/network/uv/Worker.cpp).  An event is one call libuv makes;
  \<open>may_happen\<close> says when libuv makes it: reads, and the end of a stream, are reported at any time for handles that were
  started and are neither stopped nor closing; the callbacks of a write, of an async handle and of a close come once and only
  after the call that asked for them, in any order; the worker is stopped once, at any time.  (libuv promises more, for instance
  that the callbacks of the writes of a stream come before that of its close; nothing here needs it.)

  In these runs the worker can fail in four ways, all of them defects of the code, which \<open>known_fault\<close> names; the theorem
  is that it fails in no other: no callback touches a deleted connection, a callback touches a deleted task only when
  the close of its async handle is reported after its write, none calls a command that is not there or reads outside
  the buffer, and an assertion fails only for a connection that is already closing.  \<open>orderly\<close> are the events of
  clients that close their side when they have all their replies and of a stop when no connection is being closed; in a run of
  orderly events no assertion fails.
\<close>

section \<open>Events\<close>

datatype uv_event =
    Ev_open string bool
  | Ev_data nat string
  | Ev_eof nat int
  | Ev_execution_done nat
  | Ev_write_done nat
  | Ev_conn_closed nat
  | Ev_handle_closed uv_handle
  | Ev_stop

text \<open>The end of a stream is reported like data: libuv asks for a buffer first.\<close>

definition deliver_eof ::
  "'s storage_ops \<Rightarrow> uv_rc \<Rightarrow> nat \<Rightarrow> 's worker \<Rightarrow> int \<Rightarrow> (failure + 's worker) option" where
  "deliver_eof ops rc i w nread =
     (case w_conns w i of
        None \<Rightarrow> Some (Inl (UB Use_after_free))
      | Some c \<Rightarrow>
          (case OnAllocate c of
             Inl f \<Rightarrow> Some (Inl f)
           | Inr (c1, off, len) \<Rightarrow> OnRead ops rc (set_conn i c1 w) i nread))"

fun handle_event :: "'s storage_ops \<Rightarrow> uv_rc \<Rightarrow> uv_event \<Rightarrow> 's worker \<Rightarrow> (failure + 's worker) option" where
  "handle_event ops rc (Ev_open raw neg) w = Some (OnConnectionOpen rc raw neg w)"
| "handle_event ops rc (Ev_data i cs) w = deliver ops rc i w cs"
| "handle_event ops rc (Ev_eof i nread) w = deliver_eof ops rc i w nread"
| "handle_event ops rc (Ev_execution_done t) w = Some (OnExecutionDone rc w t)"
| "handle_event ops rc (Ev_write_done t) w = Some (OnWriteDone w t)"
| "handle_event ops rc (Ev_conn_closed i) w = Some (OnConnectionClosed w i)"
| "handle_event ops rc (Ev_handle_closed h) w = Some (OnHandleClosed w h)"
| "handle_event ops rc Ev_stop w = Some (OnStop w)"

definition reading :: "'s worker \<Rightarrow> nat \<Rightarrow> bool" where
  "reading w i \<longleftrightarrow> Call_read_start (H_connection i) \<in> set (w_uv w) \<and>
     Call_read_stop (H_connection i) \<notin> set (w_uv w) \<and> \<not> is_closing w (H_connection i)"

definition free_buffer :: "'s worker \<Rightarrow> nat \<Rightarrow> nat" where
  "free_buffer w i =
     (case w_conns w i of
        None \<Rightarrow> ConnectionInputBufferSize
      | Some c \<Rightarrow> ConnectionInputBufferSize - (c_input_used c - c_input_parsed c))"

text \<open>\<open>hist\<close> holds the events so far, the last one first.\<close>

fun may_happen :: "uv_event list \<Rightarrow> 's worker \<Rightarrow> uv_event \<Rightarrow> bool" where
  "may_happen hist w (Ev_open raw neg) \<longleftrightarrow>
     length raw = ConnectionInputBufferSize \<and> \<not> is_closing w H_uvNetwork"
| "may_happen hist w (Ev_data i cs) \<longleftrightarrow> reading w i \<and> length cs \<le> free_buffer w i"
| "may_happen hist w (Ev_eof i nread) \<longleftrightarrow> reading w i \<and> nread < 0"
| "may_happen hist w (Ev_execution_done t) \<longleftrightarrow>
     Call_async_send (H_done t) \<in> set (w_uv w) \<and> \<not> is_closing w (H_done t)"
| "may_happen hist w (Ev_write_done t) \<longleftrightarrow>
     (\<exists>i out. Call_write t i out \<in> set (w_uv w)) \<and> Ev_write_done t \<notin> set hist"
| "may_happen hist w (Ev_conn_closed i) \<longleftrightarrow>
     Call_close (H_connection i) CB_OnConnectionClosed \<in> set (w_uv w) \<and> Ev_conn_closed i \<notin> set hist"
| "may_happen hist w (Ev_handle_closed h) \<longleftrightarrow>
     Call_close h CB_OnHandleClosed \<in> set (w_uv w) \<and> Ev_handle_closed h \<notin> set hist"
| "may_happen hist w Ev_stop \<longleftrightarrow> Ev_stop \<notin> set hist"

text \<open>Clients that wait for their replies before they close, and a stop when no connection is being closed.\<close>

fun orderly :: "'s worker \<Rightarrow> uv_event \<Rightarrow> bool" where
  "orderly w (Ev_eof i nread) \<longleftrightarrow> (\<forall>c. w_conns w i = Some c \<longrightarrow> c_runningTasks c = 0)"
| "orderly w Ev_stop \<longleftrightarrow> (\<forall>i \<in> set (w_alive w). \<not> is_closing w (H_connection i))"
| "orderly w ev \<longleftrightarrow> True"

text \<open>
  The workers that can be met, as long as fewer than \<open>2 ^ 64\<close> tasks were made, so that no count of tasks wraps; with \<open>ord\<close>,
  in runs of orderly events only.
\<close>

inductive uv_reach :: "'s storage_ops \<Rightarrow> uv_rc \<Rightarrow> bool \<Rightarrow> uv_event list \<Rightarrow> 's worker \<Rightarrow> bool" for ops rc ord where
  reach_start: "Start rc (new_Worker s) family = Inr w \<Longrightarrow> uv_reach ops rc ord [] w"
| reach_event: "uv_reach ops rc ord hist w \<Longrightarrow> may_happen hist w ev \<Longrightarrow> (ord \<longrightarrow> orderly w ev) \<Longrightarrow> w_next_task w < 2 ^ 64 \<Longrightarrow>
    handle_event ops rc ev w = Some (Inr w') \<Longrightarrow> uv_reach ops rc ord (ev # hist) w'"

text \<open>A fault of the worker itself, as opposed to one of the storage or an answer of libuv it gives up on.\<close>

fun worker_fault :: "failure \<Rightarrow> bool" where
  "worker_fault (UB u) \<longleftrightarrow> u \<in> {Use_after_free, Null_dereference, Index_out_of_range}"
| "worker_fault (Assertion_failed _) \<longleftrightarrow> True"
| "worker_fault (Escaped _) \<longleftrightarrow> False"

section \<open>The invariant\<close>

text \<open>A connection between two callbacks: a command is there whenever its body is awaited.\<close>

definition parser_ok :: "parser \<Rightarrow> bool" where
  "parser_ok p \<longleftrightarrow> parser_inv p \<and> (p_complete p \<longrightarrow> p_state p = sLF)"

definition conn_ok :: "connection \<Rightarrow> bool" where
  "conn_ok c \<longleftrightarrow> buffer_ok c \<and> parser_ok (c_parser c) \<and>
     (c_state c \<notin> {sRecvHeader, sClosed} \<longrightarrow> c_cmd c \<noteq> None)"

definition tasks_of :: "'s worker \<Rightarrow> nat \<Rightarrow> nat set" where
  "tasks_of w i = {t. \<exists>task. w_tasks w t = Some task \<and> t_connection task = i}"

text \<open>Who is alive: connections until their close callback, tasks until their write callback.\<close>

definition lifetimes :: "uv_event list \<Rightarrow> 's worker \<Rightarrow> bool" where
  "lifetimes hist w \<longleftrightarrow>
     (\<forall>i. w_conns w i \<noteq> None \<longleftrightarrow> i < w_next_conn w \<and> Ev_conn_closed i \<notin> set hist) \<and>
     (\<forall>t. w_tasks w t \<noteq> None \<longleftrightarrow> t < w_next_task w \<and> Ev_write_done t \<notin> set hist) \<and>
     set (w_alive w) = dom (w_conns w) \<and> distinct (w_alive w)"

text \<open>Every connection counts its tasks, every task has its connection, and in orderly runs a closing connection has none.\<close>

definition counted_tasks :: "bool \<Rightarrow> 's worker \<Rightarrow> bool" where
  "counted_tasks ord w \<longleftrightarrow>
     (\<forall>i c. w_conns w i = Some c \<longrightarrow> conn_ok c \<and> c_runningTasks c = of_nat (card (tasks_of w i))) \<and>
     (\<forall>t task. w_tasks w t = Some task \<longrightarrow> w_conns w (t_connection task) \<noteq> None) \<and>
     (ord \<longrightarrow> (\<forall>i. is_closing w (H_connection i) \<longrightarrow> tasks_of w i = {}))"

text \<open>
  What the calls made to libuv say: only of handles that were created, a write only after the async was closed, and a
  connection is closed with one of the two callbacks only.
\<close>

fun call_handle :: "uv_call \<Rightarrow> uv_handle option" where
  "call_handle (Call_async_init h) = Some h"
| "call_handle (Call_tcp_init h) = Some h"
| "call_handle (Call_accept h) = Some h"
| "call_handle (Call_read_start h) = Some h"
| "call_handle (Call_read_stop h) = Some h"
| "call_handle (Call_async_send h) = Some h"
| "call_handle (Call_close h cb) = Some h"
| "call_handle _ = None"

definition log_ok :: "uv_event list \<Rightarrow> 's worker \<Rightarrow> bool" where
  "log_ok hist w \<longleftrightarrow>
     (\<forall>call \<in> set (w_uv w). \<forall>t. call_handle call = Some (H_done t) \<longrightarrow> t < w_next_task w) \<and>
     (\<forall>call \<in> set (w_uv w). \<forall>i. call_handle call = Some (H_connection i) \<longrightarrow> i < w_next_conn w) \<and>
     (\<forall>t i out. Call_write t i out \<in> set (w_uv w) \<longrightarrow> t < w_next_task w \<and> is_closing w (H_done t)) \<and>
     (\<forall>t. Ev_write_done t \<in> set hist \<longrightarrow> is_closing w (H_done t)) \<and>
     (\<forall>i. Ev_conn_closed i \<in> set hist \<longrightarrow> Call_close (H_connection i) CB_OnConnectionClosed \<in> set (w_uv w)) \<and>
     (\<forall>i. Call_close (H_connection i) CB_OnHandleClosed \<in> set (w_uv w) \<longrightarrow>
        Call_close (H_connection i) CB_OnConnectionClosed \<notin> set (w_uv w)) \<and>
     (\<forall>h \<in> {H_uvStopAsync, H_uvSigPipe, H_uvNetwork}. is_closing w h \<longrightarrow> Ev_stop \<in> set hist)"

definition worker_inv :: "bool \<Rightarrow> uv_event list \<Rightarrow> 's worker \<Rightarrow> bool" where
  "worker_inv ord hist w \<longleftrightarrow> lifetimes hist w \<and> counted_tasks ord w \<and> log_ok hist w"

section \<open>Small changes of the state\<close>

lemma is_closing_simps [simp]:
  "is_closing (uv w call) h \<longleftrightarrow> is_closing w h \<or> (\<exists>cb. call = Call_close h cb)"
  "is_closing (set_conn i c w) h = is_closing w h"
  "is_closing (w\<lparr>w_tasks := ts\<rparr>) h = is_closing w h" "is_closing (w\<lparr>w_alive := al\<rparr>) h = is_closing w h"
  "is_closing (w\<lparr>w_conns := cn\<rparr>) h = is_closing w h" "is_closing (w\<lparr>w_next_conn := n\<rparr>) h = is_closing w h"
  by (auto simp: is_closing_def uv_def set_conn_def) (metis close_cb.exhaust)

lemma uv_sel [simp]:
  "w_conns (uv w call) = w_conns w" "w_tasks (uv w call) = w_tasks w" "w_alive (uv w call) = w_alive w"
  "w_next_conn (uv w call) = w_next_conn w" "w_next_task (uv w call) = w_next_task w" "w_storage (uv w call) = w_storage w"
  "w_uv (uv w call) = w_uv w @ [call]"
  by (simp_all add: uv_def)

lemma set_conn_next [simp]: "w_next_conn (set_conn i c w) = w_next_conn w"
  by (simp add: set_conn_def)

lemma tasks_of_sel [simp]:
  "tasks_of (uv w call) = tasks_of w" "tasks_of (set_conn i c w) = tasks_of w"
  by (simp_all add: tasks_of_def fun_eq_iff)

lemma lifetimesD:
  assumes "worker_inv ord hist w"
  shows "w_conns w i \<noteq> None \<longleftrightarrow> i < w_next_conn w \<and> Ev_conn_closed i \<notin> set hist"
    and "w_tasks w t \<noteq> None \<longleftrightarrow> t < w_next_task w \<and> Ev_write_done t \<notin> set hist"
    and "set (w_alive w) = dom (w_conns w)" and "distinct (w_alive w)"
  using assms by (simp_all add: worker_inv_def lifetimes_def)

lemma counted_tasksD:
  assumes "worker_inv ord hist w"
  shows "w_conns w i = Some c \<Longrightarrow> conn_ok c \<and> c_runningTasks c = of_nat (card (tasks_of w i))"
    and "w_tasks w t = Some task \<Longrightarrow> w_conns w (t_connection task) \<noteq> None"
    and "ord \<Longrightarrow> is_closing w (H_connection i) \<Longrightarrow> tasks_of w i = {}"
  using assms by (simp_all add: worker_inv_def counted_tasks_def)

lemma log_callsD:
  assumes "log_ok hist w"
  shows "call \<in> set (w_uv w) \<Longrightarrow> call_handle call = Some (H_done t) \<Longrightarrow> t < w_next_task w"
    and "call \<in> set (w_uv w) \<Longrightarrow> call_handle call = Some (H_connection i) \<Longrightarrow> i < w_next_conn w"
    and "Call_write t i out \<in> set (w_uv w) \<Longrightarrow> t < w_next_task w \<and> is_closing w (H_done t)"
    and "Ev_write_done t \<in> set hist \<Longrightarrow> is_closing w (H_done t)"
    and "Ev_conn_closed i \<in> set hist \<Longrightarrow> is_closing w (H_connection i)"
    and "h \<in> {H_uvStopAsync, H_uvSigPipe, H_uvNetwork} \<Longrightarrow> is_closing w h \<Longrightarrow> Ev_stop \<in> set hist"
    and "Ev_conn_closed i \<in> set hist \<Longrightarrow> Call_close (H_connection i) CB_OnConnectionClosed \<in> set (w_uv w)"
    and "Call_close (H_connection i) CB_OnHandleClosed \<in> set (w_uv w) \<Longrightarrow>
      Call_close (H_connection i) CB_OnConnectionClosed \<notin> set (w_uv w)"
  using assms unfolding log_ok_def is_closing_def by blast+

lemma log_okD: "worker_inv ord hist w \<Longrightarrow> log_ok hist w"
  by (simp add: worker_inv_def)

text \<open>The parts of the invariant look at parts of the state only.\<close>

lemma lifetimes_cong:
  "w_conns w' = w_conns w \<Longrightarrow> w_tasks w' = w_tasks w \<Longrightarrow> w_alive w' = w_alive w \<Longrightarrow> w_next_conn w' = w_next_conn w \<Longrightarrow>
   w_next_task w' = w_next_task w \<Longrightarrow> lifetimes hist w' = lifetimes hist w"
  by (simp add: lifetimes_def)

lemma counted_tasks_cong:
  assumes "w_conns w' = w_conns w" "w_tasks w' = w_tasks w"
    and "\<And>i. ord \<Longrightarrow> is_closing w' (H_connection i) \<Longrightarrow> is_closing w (H_connection i) \<or> tasks_of w i = {}" "counted_tasks ord w"
  shows "counted_tasks ord w'"
proof -
  have "tasks_of w' = tasks_of w" using assms(2) by (simp add: tasks_of_def fun_eq_iff)
  then show ?thesis using assms unfolding counted_tasks_def by (metis (no_types, lifting))
qed

lemma closing_created:
  assumes "worker_inv ord hist w"
  shows "is_closing w (H_done t) \<Longrightarrow> t < w_next_task w" "is_closing w (H_connection i) \<Longrightarrow> i < w_next_conn w"
proof -
  show "is_closing w (H_done t) \<Longrightarrow> t < w_next_task w"
    using log_callsD(1) [OF log_okD [OF assms], of "Call_close (H_done t) _"] by (auto simp: is_closing_def)
  show "is_closing w (H_connection i) \<Longrightarrow> i < w_next_conn w"
    using log_callsD(2) [OF log_okD [OF assms], of "Call_close (H_connection i) _"] by (auto simp: is_closing_def)
qed

lemma finite_tasks: "worker_inv ord hist w \<Longrightarrow> finite (tasks_of w i) \<and> card (tasks_of w i) \<le> w_next_task w"
proof -
  assume "worker_inv ord hist w"
  then have "tasks_of w i \<subseteq> {..<w_next_task w}" using lifetimesD(2) by (fastforce simp: tasks_of_def)
  then show ?thesis using finite_subset [of "tasks_of w i" "{..<w_next_task w}"] card_mono [of "{..<w_next_task w}" "tasks_of w i"]
    by auto
qed

lemma no_tasks:
  assumes "worker_inv ord hist w" "w_conns w i = Some c" "c_runningTasks c = 0" "w_next_task w < 2 ^ 64"
  shows "tasks_of w i = {}"
proof -
  have "card (tasks_of w i) < 2 ^ 64" "finite (tasks_of w i)" using finite_tasks [OF assms(1), of i] assms(4) by auto
  moreover have "(of_nat (card (tasks_of w i)) :: u64) = 0" using counted_tasksD(1) [OF assms(1,2)] assms(3) by simp
  ultimately have "card (tasks_of w i) = 0" by (simp add: word_unat_eq_iff unat_of_nat)
  then show ?thesis using \<open>finite _\<close> by simp
qed

text \<open>A call to libuv that is neither a close nor a write and names a known handle.\<close>

definition plain_call :: "'s worker \<Rightarrow> uv_call \<Rightarrow> bool" where
  "plain_call w call \<longleftrightarrow> (\<forall>h cb. call \<noteq> Call_close h cb) \<and> (\<forall>t i out. call \<noteq> Call_write t i out) \<and>
     (\<forall>t. call_handle call = Some (H_done t) \<longrightarrow> t < w_next_task w) \<and>
     (\<forall>i. call_handle call = Some (H_connection i) \<longrightarrow> i < w_next_conn w)"

lemma log_ok_uv:
  assumes "log_ok hist w" "\<And>t. call_handle call = Some (H_done t) \<Longrightarrow> t < w_next_task w"
    and "\<And>i. call_handle call = Some (H_connection i) \<Longrightarrow> i < w_next_conn w"
    and "\<And>t i out. call = Call_write t i out \<Longrightarrow> t < w_next_task w \<and> is_closing w (H_done t)"
    and "\<And>h cb. call = Call_close h cb \<Longrightarrow> h \<in> {H_uvStopAsync, H_uvSigPipe, H_uvNetwork} \<Longrightarrow> Ev_stop \<in> set hist"
    and "\<And>h cb. call = Call_close h cb \<Longrightarrow> \<not> is_closing w h"
  shows "log_ok hist (uv w call)"
  unfolding log_ok_def
proof (intro conjI ballI allI impI)
  fix x t assume "x \<in> set (w_uv (uv w call))" "call_handle x = Some (H_done t)"
  then show "t < w_next_task (uv w call)" using log_callsD(1) [OF assms(1)] assms(2) by auto
next
  fix x i assume "x \<in> set (w_uv (uv w call))" "call_handle x = Some (H_connection i)"
  then show "i < w_next_conn (uv w call)" using log_callsD(2) [OF assms(1)] assms(3) by auto
next
  fix t i out assume "Call_write t i out \<in> set (w_uv (uv w call))"
  then show "t < w_next_task (uv w call)" "is_closing (uv w call) (H_done t)"
    using log_callsD(3) [OF assms(1), of t i out] assms(4) [of t i out] by auto
next
  fix h assume "h \<in> {H_uvStopAsync, H_uvSigPipe, H_uvNetwork}" "is_closing (uv w call) h"
  then show "Ev_stop \<in> set hist" using log_callsD(6) [OF assms(1), of h] assms(5) [of h] by (auto simp del: insert_iff)
next
  fix i assume "Call_close (H_connection i) CB_OnHandleClosed \<in> set (w_uv (uv w call))"
  then show "Call_close (H_connection i) CB_OnConnectionClosed \<notin> set (w_uv (uv w call))"
    using log_callsD(8) [OF assms(1), of i] assms(6) [of "H_connection i"] by (auto simp: is_closing_def)
qed (use log_callsD(4,7) [OF assms(1)] in simp_all)

lemma worker_inv_uv:
  assumes "worker_inv ord hist w" "plain_call w call"
  shows "worker_inv ord hist (uv w call)"
proof -
  have "lifetimes hist (uv w call)" using assms(1) by (simp add: worker_inv_def lifetimes_cong [of "uv w call" w])
  moreover have "counted_tasks ord (uv w call)"
    by (rule counted_tasks_cong [of _ w]) (use assms in \<open>auto simp: worker_inv_def plain_call_def\<close>)
  moreover have "log_ok hist (uv w call)"
    by (rule log_ok_uv) (use assms in \<open>auto simp: worker_inv_def plain_call_def\<close>)
  ultimately show ?thesis by (simp add: worker_inv_def)
qed

text \<open>Closing: in orderly runs a connection must have no task, an async handle may be closed at any time.\<close>

lemma worker_inv_close:
  assumes "worker_inv ord hist w"
    and "\<And>i. h = H_connection i \<Longrightarrow> i < w_next_conn w \<and> (ord \<longrightarrow> tasks_of w i = {})" "\<And>t. h = H_done t \<Longrightarrow> t < w_next_task w"
    and "h \<in> {H_uvStopAsync, H_uvSigPipe, H_uvNetwork} \<Longrightarrow> Ev_stop \<in> set hist" "\<not> is_closing w h"
  shows "worker_inv ord hist (uv w (Call_close h cb))"
proof -
  have "lifetimes hist (uv w (Call_close h cb))" "counted_tasks ord (uv w (Call_close h cb))"
    using assms(1,2) by (auto simp: worker_inv_def lifetimes_cong [of "uv w (Call_close h cb)" w]
        intro: counted_tasks_cong [of "uv w (Call_close h cb)" w])
  moreover have "log_ok hist (uv w (Call_close h cb))"
    by (rule log_ok_uv) (use assms in \<open>auto simp: worker_inv_def\<close>)
  ultimately show ?thesis by (simp add: worker_inv_def)
qed

lemma worker_inv_set_conn:
  assumes "worker_inv ord hist w" "w_conns w i = Some c" "conn_ok c'" "c_runningTasks c' = c_runningTasks c"
  shows "worker_inv ord hist (set_conn i c' w)"
proof -
  have "dom (w_conns (set_conn i c' w)) = dom (w_conns w)" "i < w_next_conn w" "Ev_conn_closed i \<notin> set hist"
    using assms(2) lifetimesD(1) [OF assms(1), of i] by auto
  then have "lifetimes hist (set_conn i c' w)" using assms(1) by (simp add: worker_inv_def lifetimes_def)
  moreover have "counted_tasks ord (set_conn i c' w)"
    using assms unfolding worker_inv_def counted_tasks_def by simp
  moreover have "log_ok hist (set_conn i c' w)" using assms(1) by (simp add: worker_inv_def log_ok_def)
  ultimately show ?thesis by (simp add: worker_inv_def)
qed

text \<open>A new task of connection \<open>i\<close>, whose count goes up by one.\<close>

definition add_task :: "execute_task \<Rightarrow> uv_call list \<Rightarrow> 's \<Rightarrow> 's worker \<Rightarrow> 's worker" where
  "add_task task calls s w = w\<lparr>w_storage := s, w_tasks := (w_tasks w)(w_next_task w \<mapsto> task),
     w_next_task := Suc (w_next_task w), w_uv := w_uv w @ calls\<rparr>"

lemma add_task_sel [simp]:
  "w_conns (add_task task calls s w) = w_conns w" "w_alive (add_task task calls s w) = w_alive w"
  "w_next_conn (add_task task calls s w) = w_next_conn w" "w_next_task (add_task task calls s w) = Suc (w_next_task w)"
  "w_tasks (add_task task calls s w) = (w_tasks w)(w_next_task w \<mapsto> task)"
  "w_uv (add_task task calls s w) = w_uv w @ calls"
  by (simp_all add: add_task_def)

definition async_calls :: "nat \<Rightarrow> uv_call list \<Rightarrow> bool" where
  "async_calls t calls \<longleftrightarrow> set calls \<subseteq> {Call_async_init (H_done t), Call_async_send (H_done t)}"

lemma is_closing_add_task:
  "async_calls (w_next_task w) calls \<Longrightarrow> is_closing (add_task task calls s w) h = is_closing w h"
  by (auto simp: is_closing_def async_calls_def)

lemma log_ok_add_task:
  assumes "log_ok hist w" "async_calls (w_next_task w) calls"
  shows "log_ok hist (add_task task calls s w)"
  unfolding log_ok_def
proof (intro conjI ballI allI impI)
  fix x t assume "x \<in> set (w_uv (add_task task calls s w))" "call_handle x = Some (H_done t)"
  then show "t < w_next_task (add_task task calls s w)"
    using log_callsD(1) [OF assms(1), of x t] assms(2) by (auto simp: async_calls_def)
next
  fix x i assume "x \<in> set (w_uv (add_task task calls s w))" "call_handle x = Some (H_connection i)"
  then show "i < w_next_conn (add_task task calls s w)"
    using log_callsD(2) [OF assms(1), of x i] assms(2) by (auto simp: async_calls_def)
next
  fix t i out assume "Call_write t i out \<in> set (w_uv (add_task task calls s w))"
  then show "t < w_next_task (add_task task calls s w)" "is_closing (add_task task calls s w) (H_done t)"
    using log_callsD(3) [OF assms(1), of t i out] assms(2) unfolding is_closing_add_task [OF assms(2)]
    by (auto simp: async_calls_def)
next
  fix i assume "Call_close (H_connection i) CB_OnHandleClosed \<in> set (w_uv (add_task task calls s w))"
  then show "Call_close (H_connection i) CB_OnConnectionClosed \<notin> set (w_uv (add_task task calls s w))"
    using log_callsD(8) [OF assms(1), of i] assms(2) by (auto simp: async_calls_def)
next
  fix i assume "Ev_conn_closed i \<in> set hist"
  then show "Call_close (H_connection i) CB_OnConnectionClosed \<in> set (w_uv (add_task task calls s w))"
    using log_callsD(7) [OF assms(1), of i] by simp
qed (use log_callsD(4,6) [OF assms(1)] in \<open>simp_all only: is_closing_add_task [OF assms(2)]\<close>)

lemma tasks_of_add_task:
  "tasks_of (add_task task calls s w) j =
     (if j = t_connection task then insert (w_next_task w) (tasks_of w j) else tasks_of w j - {w_next_task w})"
  by (auto simp: tasks_of_def)

lemma worker_inv_add_task:
  assumes inv: "worker_inv ord hist w" and c: "w_conns w i = Some c" "\<not> is_closing w (H_connection i)"
    and c': "conn_ok c'" "c_runningTasks c' = c_runningTasks c + 1"
    and calls: "t_connection task = i" "async_calls (w_next_task w) calls"
  shows "worker_inv ord hist (set_conn i c' (add_task task calls s w))"
proof -
  let ?w = "set_conn i c' (add_task task calls s w)"
  note cl = is_closing_add_task [OF calls(2)]
  have new: "w_next_task w \<notin> tasks_of w j" "w_tasks w (w_next_task w) = None" for j
    using lifetimesD(2) [OF inv, of "w_next_task w"] by (auto simp: tasks_of_def)
  have fresh: "Ev_write_done (w_next_task w) \<notin> set hist"
    using log_callsD(4) [OF log_okD [OF inv]] closing_created(1) [OF inv] by blast
  have i: "i < w_next_conn w \<and> Ev_conn_closed i \<notin> set hist" using lifetimesD(1) [OF inv, of i] c(1) by simp
  have tk: "tasks_of ?w j = (if j = i then insert (w_next_task w) (tasks_of w j) else tasks_of w j)" for j
    using tasks_of_add_task [of task calls s w j] new(1) [of j] calls(1) by simp
  have "lifetimes hist ?w"
    unfolding lifetimes_def
  proof (intro conjI allI)
    show "w_conns ?w j \<noteq> None \<longleftrightarrow> j < w_next_conn ?w \<and> Ev_conn_closed j \<notin> set hist" for j
      using lifetimesD(1) [OF inv, of j] i by simp
    show "w_tasks ?w t \<noteq> None \<longleftrightarrow> t < w_next_task ?w \<and> Ev_write_done t \<notin> set hist" for t
      using lifetimesD(2) [OF inv, of t] fresh by (cases "t = w_next_task w") auto
    show "set (w_alive ?w) = dom (w_conns ?w)" "distinct (w_alive ?w)" using lifetimesD(3,4) [OF inv] c(1) by auto
  qed
  moreover have "counted_tasks ord ?w"
    unfolding counted_tasks_def
  proof (intro conjI allI impI)
    fix j d assume d: "w_conns ?w j = Some d"
    show "conn_ok d" using d c'(1) counted_tasksD(1) [OF inv, of j d] by (cases "j = i") auto
    show "c_runningTasks d = of_nat (card (tasks_of ?w j))"
      using d c'(2) counted_tasksD(1) [OF inv, of j d] counted_tasksD(1) [OF inv c(1)] finite_tasks [OF inv, of i] new(1) [of i]
      unfolding tk by (cases "j = i") auto
  next
    fix t k assume "w_tasks ?w t = Some k"
    then show "w_conns ?w (t_connection k) \<noteq> None"
      using counted_tasksD(2) [OF inv, of t k] calls(1) by (cases "t = w_next_task w") auto
  next
    fix j assume ord "is_closing ?w (H_connection j)"
    then have "tasks_of w j = {}" "is_closing w (H_connection j)" using counted_tasksD(3) [OF inv, of j] by (simp_all add: cl)
    then show "tasks_of ?w j = {}" using c(2) unfolding tk by auto
  qed
  moreover have "log_ok hist ?w"
    using log_ok_add_task [OF log_okD [OF inv] calls(2), of task s] by (simp add: log_ok_def)
  ultimately show ?thesis by (simp add: worker_inv_def)
qed

section \<open>The parser in the loop\<close>

lemma parse_char_complete:
  assumes "\<not> p_complete p"
  shows "parse_char p pos c = Inr p' \<Longrightarrow> p_complete p' \<Longrightarrow> p_state p' = sLF"
    and "parse_char p pos c = Inl (e, p') \<Longrightarrow> \<not> p_complete p' \<and> (\<forall>u. e = Undefined u \<longrightarrow> u = Signed_overflow)"
  using assms
  by (cases "p_state p"; auto simp: parse_char_def parse_char_defs Let_def split: if_splits)+

lemma parse_loop_ok:
  "parser_ok p \<Longrightarrow>
   case parse_loop p pos cs of
     Inr (p', n) \<Rightarrow> parser_ok p'
   | Inl (e, p') \<Rightarrow> parser_ok p' \<and> (\<forall>u. e = Undefined u \<longrightarrow> u = Signed_overflow)"
proof (induction cs arbitrary: p pos)
  case (Cons c cs)
  then have inv: "parser_inv p" by (simp add: parser_ok_def)
  show ?case
  proof (cases "p_complete p")
    case False
    show ?thesis
    proof (cases "parse_char p pos c")
      case (Inl a)
      then show ?thesis using parse_char_inv(2) [OF inv] parse_char_complete(2) [OF False] False
        by (cases a) (auto simp: parser_ok_def)
    next
      case (Inr p1)
      have "parser_ok p1"
        using parse_char_inv(1) [OF inv Inr] parse_char_complete(1) [OF False Inr] by (simp add: parser_ok_def)
      with Cons.IH [of p1 "Suc pos"] Inr False show ?thesis by simp
    qed
  qed (use Cons.prems in simp)
qed simp

lemma Parse_ok:
  assumes "parser_ok p"
  shows "Parse p input sz = Inl (e, p') \<Longrightarrow> parser_ok p' \<and> (\<forall>u. e = Undefined u \<longrightarrow> u = Signed_overflow)"
    and "Parse p input sz = Inr (p', n, fin) \<Longrightarrow> parser_ok p' \<and> fin = p_complete p'"
  using parse_loop_ok [OF assms, of 0 "take sz input"] by (auto simp: Parse_def res_simps)

lemma Build_complete:
  assumes "parser_ok p" "p_complete p"
  shows "(\<exists>cmd. Build p bs = Inr (Some cmd, p_bytes p)) \<or> Build p bs = Inl Unsupported_command"
  using Build_reachable [of p bs] assms by (auto simp: parser_ok_def)

lemma parser_ok_Reset: "parser_ok (Reset p)"
  by (simp add: parser_ok_def parser_inv_def Reset_def)

section \<open>The loop of OnRead\<close>

text \<open>What one part of a request does to its connection.\<close>

definition part_ok :: "'s worker \<Rightarrow> connection \<Rightarrow> 's outcome \<Rightarrow> bool" where
  "part_ok w c r \<longleftrightarrow>
     (case r of
        Continue w1 c1 \<Rightarrow> w1 = w \<and> conn_ok c1 \<and> c_state c1 \<noteq> sClosed \<and> c_runningTasks c1 = c_runningTasks c
      | Throw e w1 c1 \<Rightarrow> w1 = w \<and> conn_ok (c1\<lparr>c_state := sClosed\<rparr>) \<and> c_runningTasks c1 = c_runningTasks c
      | Fail f \<Rightarrow> \<not> worker_fault f)"

lemma recv_header_ok:
  assumes ok: "conn_ok c" "c_state c = sRecvHeader" and pos: "c_input_parsed c < c_input_used c"
  shows "part_ok w c (recv_header w c)"
proof -
  have p: "parser_ok (c_parser c)" and buf: "buffer_ok c" using ok by (simp_all add: conn_ok_def)
  have r: "recv_part w c = recv_header w c" using ok(2) by (simp add: recv_part_def)
  note b = recv_part_buffer [OF r buf pos]
  show ?thesis
  proof (cases "Parse (c_parser c) (c_input c) (c_input_used c)")
    case (Inl a)
    then obtain e q where e: "Parse (c_parser c) (c_input c) (c_input_used c) = Inl (e, q)" by (cases a) auto
    from Parse_ok(1) [OF p e] e b show ?thesis
      by (cases e) (auto simp: recv_header_def part_ok_def conn_ok_def buffer_ok_def)
  next
    case (Inr a)
    then obtain q n fin where e: "Parse (c_parser c) (c_input c) (c_input_used c) = Inr (q, n, fin)" by (cases a) auto
    note q = Parse_ok(2) [OF p e]
    show ?thesis
    proof (cases fin)
      case False
      then show ?thesis using e b q ok by (auto simp: recv_header_def part_ok_def conn_ok_def buffer_ok_def)
    next
      case True
      with q Build_complete [of q "c_body_size c"]
      consider cmd where "Build q (c_body_size c) = Inr (Some cmd, p_bytes q)" | "Build q (c_body_size c) = Inl Unsupported_command"
        by auto
      then show ?thesis
        by cases (use True e b q in \<open>auto simp: recv_header_def part_ok_def conn_ok_def buffer_ok_def Let_def\<close>)
    qed
  qed
qed

lemma recv_part_ok:
  assumes ok: "conn_ok c" "c_state c \<noteq> sClosed" and pos: "c_input_parsed c < c_input_used c"
  shows "part_ok w c (recv_part w c)"
proof -
  have buf: "buffer_ok c" using ok(1) by (simp add: conn_ok_def)
  note b = recv_part_buffer [OF refl buf pos, of w]
  have len: "c_input_parsed c < length (c_input c)" using buf pos by (simp add: buffer_ok_def)
  show ?thesis
  proof (cases "c_state c = sRecvHeader")
    case True
    then show ?thesis using recv_header_ok [OF ok(1) True pos] by (simp add: recv_part_def)
  next
    case False
    then show ?thesis using ok b len
      by (cases "c_state c") (auto simp: recv_part_def recv_trailer_def part_ok_def conn_ok_def recv_body_def Let_def
          buffer_ok_def)
  qed
qed

text \<open>The storage may run into its own undefined behaviour, but not into a fault that counts as the worker's.\<close>

definition faults_apart :: "ub + 'a \<Rightarrow> bool" where
  "faults_apart r \<longleftrightarrow> (\<forall>u. r = Inl u \<longrightarrow> \<not> worker_fault (UB u))"

lemma faults_apart_simps [simp]:
  "faults_apart (Inr a)" "faults_apart (Inl u) \<longleftrightarrow> \<not> worker_fault (UB u)"
  by (simp_all add: faults_apart_def)

lemma faults_apart_bind: "faults_apart m \<Longrightarrow> (\<And>a. faults_apart (f a)) \<Longrightarrow> faults_apart (res_bind m f)"
  by (cases m) simp_all

lemma faults_apart_FreeSpace: "faults_apart (FreeSpace s n)"
  by (induction s n rule: FreeSpace.induct) (subst FreeSpace.simps, simp add: Let_def split: prod.splits)

lemma faults_apart_front: "faults_apart (set_front_value s v)"
  by (simp add: set_front_value_def split: list.splits)

lemma faults_apart_lru:
  "faults_apart (Put s k v)" "faults_apart (PutIfAbsent s k v)" "faults_apart (Set s k v)" "faults_apart (Get s k v)"
  unfolding Put_def PutIfAbsent_def Set_def Get_def
  by (auto simp: Let_def faults_apart_FreeSpace faults_apart_front intro!: faults_apart_bind split: option.splits list.splits)

lemma faults_apart_Get_loop: "faults_apart (Get_loop lru_ops s ks val out)"
  by (induction ks arbitrary: s val out) (auto simp: faults_apart_lru intro!: faults_apart_bind)

lemma lru_faults_apart: "faults_apart (Command_Execute lru_ops cmd s args)"
  by (cases cmd) (auto simp: Set_Execute_def Add_Execute_def Append_Execute_def Replace_Execute_def Get_Execute_def
      Stats_Execute_def faults_apart_lru faults_apart_Get_loop intro!: faults_apart_bind)

text \<open>
  The invariant of the loop: the worker as it will be when the connection is written back.
\<close>

definition loop_inv :: "bool \<Rightarrow> uv_event list \<Rightarrow> nat \<Rightarrow> 's worker \<Rightarrow> connection \<Rightarrow> bool" where
  "loop_inv ord hist i w c \<longleftrightarrow> worker_inv ord hist (set_conn i c w) \<and> \<not> is_closing w (H_connection i)"

definition loop_ok :: "bool \<Rightarrow> uv_event list \<Rightarrow> nat \<Rightarrow> 's outcome \<Rightarrow> bool" where
  "loop_ok ord hist i r \<longleftrightarrow>
     (case r of
        Continue w c \<Rightarrow> loop_inv ord hist i w c \<and> c_state c \<noteq> sClosed
      | Throw e w c \<Rightarrow> loop_inv ord hist i w (c\<lparr>c_state := sClosed\<rparr>)
      | Fail f \<Rightarrow> \<not> worker_fault f)"

lemma add_task_set_conn: "add_task task calls s (set_conn i c w) = set_conn i c (add_task task calls s w)"
  by (simp add: add_task_def set_conn_def)

lemma loop_inv_conn:
  assumes "loop_inv ord hist i w c" "conn_ok c'" "c_runningTasks c' = c_runningTasks c"
  shows "loop_inv ord hist i w c'"
  using worker_inv_set_conn [of ord hist "set_conn i c w" i c c'] assms by (simp add: loop_inv_def)

lemma loop_inv_task:
  assumes "loop_inv ord hist i w c" "conn_ok c'" "c_runningTasks c' = c_runningTasks c + 1"
    and "t_connection task = i" "async_calls (w_next_task w) calls"
  shows "loop_inv ord hist i (add_task task calls s w) c'"
  using worker_inv_add_task [of ord hist "set_conn i c w" i c c' task calls s] assms
  by (simp add: loop_inv_def add_task_set_conn is_closing_add_task)

lemma loop_inv_written: "loop_inv ord hist i w c \<Longrightarrow> worker_inv ord hist (set_conn i c w)"
  by (simp add: loop_inv_def)

lemma loop_inv_ok: "loop_inv ord hist i w c \<Longrightarrow> conn_ok c"
  using counted_tasksD(1) [of ord hist "set_conn i c w" i c] by (simp add: loop_inv_def)

lemma Execute_ok_or_fails:
  assumes "Execute ops rc w i c = r"
  shows "(\<exists>task. t_connection task = i \<and> r = Throw Async_init_failed
        (add_task task [Call_async_init (H_done (w_next_task w))] (w_storage w) w)
        (c\<lparr>c_cmd := None, c_body := [], c_runningTasks := c_runningTasks c + 1\<rparr>)) \<or>
    c_cmd c = None \<and> r = Fail (UB Null_dereference) \<or>
    (\<exists>cmd u. Command_Execute ops cmd (w_storage w) (c_body c) = Inl u \<and> r = Fail (UB u)) \<or>
    (\<exists>task s'. t_connection task = i \<and> r = Continue
        (add_task task [Call_async_init (H_done (w_next_task w)), Call_async_send (H_done (w_next_task w))] s' w)
        (c\<lparr>c_cmd := None, c_body := [], c_runningTasks := c_runningTasks c + 1\<rparr>))"
proof (cases "rc (Call_async_init (H_done (w_next_task w))) = 0")
  case True
  show ?thesis
  proof (cases "c_cmd c")
    case (Some cmd)
    show ?thesis
    proof (cases "Command_Execute ops cmd (w_storage w) (c_body c)")
      case (Inr a)
      then show ?thesis using assms [symmetric] True Some
        by (cases a, intro disjI2 exI [of _ "\<lparr>t_connection = i, t_cmd = c_cmd c, t_argument = c_body c,
            t_result = snd a @ crlf\<rparr>"] exI [of _ "fst a"]) (simp add: Execute_def Let_def uv_def add_task_def)
    qed (use assms True Some in \<open>auto simp: Execute_def Let_def\<close>)
  qed (use assms True in \<open>simp add: Execute_def Let_def\<close>)
next
  case False
  then show ?thesis using assms
    by (intro disjI1 exI [of _ "\<lparr>t_connection = i, t_cmd = c_cmd c, t_argument = c_body c, t_result = []\<rparr>"])
      (simp add: Execute_def Let_def uv_def add_task_def)
qed

lemma Execute_loop_ok:
  assumes "loop_inv ord hist i w c" "c_state c = sExecute" "\<And>cmd s args. faults_apart (Command_Execute ops cmd s args)"
  shows "case Execute ops rc w i c of
      Continue w1 c1 \<Rightarrow> loop_inv ord hist i w1 (finish_command c1)
    | Throw e w1 c1 \<Rightarrow> loop_inv ord hist i w1 (c1\<lparr>c_state := sClosed\<rparr>)
    | Fail f \<Rightarrow> \<not> worker_fault f"
proof -
  let ?c = "c\<lparr>c_cmd := None, c_body := [], c_runningTasks := c_runningTasks c + 1\<rparr>"
  have ok: "conn_ok c" by (rule loop_inv_ok [OF assms(1)])
  then have new: "conn_ok (finish_command ?c)" "conn_ok (?c\<lparr>c_state := sClosed\<rparr>)" "c_cmd c \<noteq> None"
    using assms(2) by (auto simp: conn_ok_def finish_command_def buffer_ok_def parser_ok_Reset)
  have run: "c_runningTasks (finish_command ?c) = c_runningTasks c + 1" by (simp add: finish_command_def)
  note task = loop_inv_task [OF assms(1)]
  from Execute_ok_or_fails [of ops rc w i c, OF refl] consider
      (init) task where "t_connection task = i" "Execute ops rc w i c = Throw Async_init_failed
        (add_task task [Call_async_init (H_done (w_next_task w))] (w_storage w) w) ?c"
    | (null) "c_cmd c = None" "Execute ops rc w i c = Fail (UB Null_dereference)"
    | (fault) cmd u where "Command_Execute ops cmd (w_storage w) (c_body c) = Inl u" "Execute ops rc w i c = Fail (UB u)"
    | (ran) task s' where "t_connection task = i" "Execute ops rc w i c = Continue
        (add_task task [Call_async_init (H_done (w_next_task w)), Call_async_send (H_done (w_next_task w))] s' w) ?c"
    by (elim disjE exE conjE) metis+
  then show ?thesis
  proof cases
    case fault
    then show ?thesis using assms(3) [of cmd "w_storage w" "c_body c"] by simp
  next
    case init
    show ?thesis unfolding init(2) outcome.case by (rule task) (use init new in \<open>simp_all add: async_calls_def\<close>)
  next
    case ran
    show ?thesis unfolding ran(2) outcome.case by (rule task) (use ran new run in \<open>simp_all add: async_calls_def\<close>)
  qed (use new in simp)
qed

lemma OnRead_step_ok:
  assumes "loop_inv ord hist i w c" "c_state c \<noteq> sClosed" "c_input_parsed c < c_input_used c"
    and "\<And>cmd s args. faults_apart (Command_Execute ops cmd s args)"
  shows "loop_ok ord hist i (OnRead_step ops rc i w c)"
proof -
  note part = recv_part_ok [OF loop_inv_ok [OF assms(1)] assms(2,3), of w]
  note keep = loop_inv_conn [OF assms(1)]
  show ?thesis
  proof (cases "recv_part w c")
    case (Continue w1 c1)
    with part have c1: "w1 = w" "c_state c1 \<noteq> sClosed" "loop_inv ord hist i w c1" by (auto simp: part_ok_def intro: keep)
    show ?thesis
    proof (cases "c_state c1 = sExecute")
      case True
      from Execute_loop_ok [OF c1(3) True assms(4), of rc] show ?thesis using Continue True c1(1)
        by (auto simp: OnRead_step_def loop_ok_def finish_command_def split: outcome.splits)
    qed (use Continue c1 in \<open>simp add: OnRead_step_def loop_ok_def\<close>)
  qed (use part in \<open>auto simp: OnRead_step_def loop_ok_def part_ok_def intro: keep\<close>)
qed

lemma OnRead_loop_ok:
  assumes "OnRead_loop ops rc i w c = Some r" "loop_inv ord hist i w c" "c_state c \<noteq> sClosed"
    and "\<And>cmd s args. faults_apart (Command_Execute ops cmd s args)"
  shows "loop_ok ord hist i r"
proof -
  have "(\<forall>cmd s args. faults_apart (Command_Execute ops cmd s args)) \<longrightarrow> loop_inv ord hist i w c \<longrightarrow> c_state c \<noteq> sClosed \<longrightarrow>
      loop_ok ord hist i r"
    using assms(1)
  proof (rule OnRead_loop.raw_induct [rotated], intro impI)
    fix loop ops rc i w c r
    assume IH: "\<And>ops rc i w c r. loop ops rc i w c = Some r \<Longrightarrow>
        (\<forall>cmd s args. faults_apart (Command_Execute ops cmd s args)) \<longrightarrow> loop_inv ord hist i w c \<longrightarrow> c_state c \<noteq> sClosed \<longrightarrow>
        loop_ok ord hist i r"
      and body: "(if c_input_parsed c < c_input_used c then
          (case OnRead_step ops rc i w c of
             Continue w1 c1 \<Rightarrow> loop ops rc i w1 c1 | Throw x xa xb \<Rightarrow> Some (Throw x xa xb) | Fail x \<Rightarrow> Some (Fail x))
        else Some (Continue w c)) = Some r"
      and ops: "\<forall>cmd s args. faults_apart (Command_Execute ops cmd s args)"
      and inv: "loop_inv ord hist i w c" "c_state c \<noteq> sClosed"
    show "loop_ok ord hist i r"
    proof (cases "c_input_parsed c < c_input_used c")
      case True
      have "loop_ok ord hist i (OnRead_step ops rc i w c)" by (rule OnRead_step_ok [OF inv True]) (use ops in blast)
      with True IH ops body show ?thesis by (cases "OnRead_step ops rc i w c") (auto simp: loop_ok_def)
    qed (use body inv in \<open>auto simp: loop_ok_def\<close>)
  qed
  with assms(2-4) show ?thesis by blast
qed

section \<open>The callbacks\<close>

definition callback_ok :: "bool \<Rightarrow> uv_event list \<Rightarrow> failure + 's worker \<Rightarrow> bool" where
  "callback_ok ord hist r \<longleftrightarrow> (case r of Inl f \<Rightarrow> \<not> worker_fault f | Inr w \<Rightarrow> worker_inv ord hist w)"

lemma callback_ok_simps [simp]:
  "callback_ok ord hist (Inl f) \<longleftrightarrow> \<not> worker_fault f" "callback_ok ord hist (Inr w) = worker_inv ord hist w"
  by (simp_all add: callback_ok_def)

text \<open>A callback that may fail, in the ways \<open>P\<close>.\<close>

definition callback_but :: "bool \<Rightarrow> uv_event list \<Rightarrow> (failure \<Rightarrow> bool) \<Rightarrow> failure + 's worker \<Rightarrow> bool" where
  "callback_but ord hist P r \<longleftrightarrow> (case r of Inl f \<Rightarrow> worker_fault f \<longrightarrow> P f | Inr w \<Rightarrow> worker_inv ord hist w)"

lemma callback_but_simps [simp]:
  "callback_but ord hist P (Inl f) \<longleftrightarrow> (worker_fault f \<longrightarrow> P f)" "callback_but ord hist P (Inr w) = worker_inv ord hist w"
  by (simp_all add: callback_but_def)

lemma callback_ok_but: "callback_ok ord hist r \<Longrightarrow> callback_but ord hist P r"
  by (cases r) simp_all

lemma worker_inv_hist:
  assumes "worker_inv ord hist w" "\<And>t. ev \<noteq> Ev_write_done t" "\<And>i. ev \<noteq> Ev_conn_closed i"
  shows "worker_inv ord (ev # hist) w"
proof -
  have ev: "Ev_write_done t \<noteq> ev" "Ev_conn_closed i \<noteq> ev" for t i using assms(2,3) by metis+
  show ?thesis
    using assms(1) unfolding worker_inv_def lifetimes_def log_ok_def by (simp add: ev)
qed

lemma worker_inv_write:
  assumes "worker_inv ord hist w" "t < w_next_task w" "is_closing w (H_done t)"
  shows "worker_inv ord hist (uv w (Call_write t i out))"
proof -
  have "lifetimes hist (uv w (Call_write t i out))" "counted_tasks ord (uv w (Call_write t i out))"
    using assms(1) by (auto simp: worker_inv_def lifetimes_cong [of "uv w (Call_write t i out)" w]
        intro: counted_tasks_cong [of "uv w (Call_write t i out)" w])
  moreover have "log_ok hist (uv w (Call_write t i out))"
    by (rule log_ok_uv) (use assms in \<open>auto simp: worker_inv_def\<close>)
  ultimately show ?thesis by (simp add: worker_inv_def)
qed

lemma OnExecutionDone_ok:
  assumes "worker_inv ord hist w" "w_tasks w t = Some task" "\<not> is_closing w (H_done t)"
  shows "callback_ok ord hist (OnExecutionDone rc w t)"
proof -
  have t: "t < w_next_task w" using lifetimesD(2) [OF assms(1), of t] assms(2) by simp
  have "worker_inv ord hist (uv w (Call_close (H_done t) CB_OnHandleClosed))"
    by (rule worker_inv_close [OF assms(1)]) (use t assms(3) in auto)
  then have "worker_inv ord hist (uv (uv w (Call_close (H_done t) CB_OnHandleClosed)) (Call_write t i out))" for i out
    by (rule worker_inv_write) (use t in simp_all)
  then show ?thesis using assms(2,3) by (simp add: OnExecutionDone_def uv_close_def Let_def)
qed

lemma OnRead_catch_ok:
  assumes "loop_inv ord hist i w (c\<lparr>c_state := sClosed\<rparr>)"
  shows "callback_ok ord hist (OnRead_catch rc i e w c)"
proof -
  let ?c = "c\<lparr>c_runningTasks := c_runningTasks c + 1, c_state := sClosed\<rparr>"
  define task where "task = \<lparr>t_connection = i, t_cmd = None :: command option, t_argument = [],
    t_result = (''CLIENT_ERROR '' @ exn_what e) @ crlf\<rparr>"
  let ?w = "add_task task [Call_async_init (H_done (w_next_task w))] (w_storage w) w"
  have "conn_ok ?c" using loop_inv_ok [OF assms] by (simp add: conn_ok_def buffer_ok_def)
  then have inv: "loop_inv ord hist i ?w ?c"
    by (intro loop_inv_task [OF assms]) (simp_all add: task_def async_calls_def)
  have "\<not> is_closing w (H_done (w_next_task w))"
    using closing_created(1) [of ord hist "set_conn i (c\<lparr>c_state := sClosed\<rparr>) w" "w_next_task w"] assms
    by (auto simp: loop_inv_def)
  then have "callback_ok ord hist (OnExecutionDone rc (set_conn i ?c ?w) (w_next_task w))"
    using inv by (intro OnExecutionDone_ok [of _ _ _ _ task])
      (simp_all add: loop_inv_def is_closing_add_task async_calls_def)
  moreover have "OnRead_catch rc i e w c = OnExecutionDone rc (set_conn i ?c ?w) (w_next_task w)"
    by (simp add: OnRead_catch_def Let_def task_def add_task_def uv_def)
  ultimately show ?thesis by simp
qed

lemma uv_close_ok:
  assumes "worker_inv ord hist w" "\<not> is_closing w h"
    and "\<And>i. h = H_connection i \<Longrightarrow> i < w_next_conn w \<and> (ord \<longrightarrow> tasks_of w i = {})" "\<And>t. h = H_done t \<Longrightarrow> t < w_next_task w"
    and "h \<in> {H_uvStopAsync, H_uvSigPipe, H_uvNetwork} \<Longrightarrow> Ev_stop \<in> set hist"
  shows "uv_close w h cb = Inr (uv w (Call_close h cb)) \<and> worker_inv ord hist (uv w (Call_close h cb))"
  using worker_inv_close [OF assms(1,3-5,2)] assms(2) by (simp add: uv_close_def)

lemma OnRead_ok:
  assumes inv: "worker_inv ord hist w" "w_conns w i = Some c" "\<not> is_closing w (H_connection i)" "w_next_task w < 2 ^ 64"
    and c: "conn_ok (c\<lparr>c_input_used := c_input_used c + nat nread\<rparr>)" "ord \<Longrightarrow> nread < 0 \<Longrightarrow> c_runningTasks c = 0"
    and ops: "\<And>cmd s args. faults_apart (Command_Execute ops cmd s args)"
    and r: "OnRead ops rc w i nread = Some r"
  shows "callback_ok ord hist r"
proof (cases "nread < 0")
  case True
  have i: "i < w_next_conn w" "ord \<Longrightarrow> tasks_of w i = {}"
    using lifetimesD(1) [OF inv(1), of i] no_tasks [OF inv(1,2) c(2) [OF _ True] inv(4)] inv(2) by simp_all
  have "uv_close w (H_connection i) CB_OnConnectionClosed = Inr (uv w (Call_close (H_connection i) CB_OnConnectionClosed)) \<and>
      worker_inv ord hist (uv w (Call_close (H_connection i) CB_OnConnectionClosed))"
    by (rule uv_close_ok [OF inv(1,3)]) (use i in auto)
  then show ?thesis using r inv(2) True by (auto simp: OnRead_def)
next
  case nn: False
  show ?thesis
  proof (cases "c_state c = sClosed")
    case True
    with r inv nn show ?thesis by (auto simp: OnRead_def)
  next
    case False
    let ?c = "c\<lparr>c_input_used := c_input_used c + nat nread\<rparr>"
    obtain x where x: "OnRead_loop ops rc i w ?c = Some x" "r = (case x of Continue w' c' \<Rightarrow> Inr (set_conn i c' w')
        | Throw e w' c' \<Rightarrow> OnRead_catch rc i e w' c' | Fail f \<Rightarrow> Inl f)"
      using r inv(2) nn False by (auto simp: OnRead_def)
    have "loop_inv ord hist i w ?c" using worker_inv_set_conn [OF inv(1,2) c(1)] inv(3) by (simp add: loop_inv_def)
    then have "loop_ok ord hist i x" using OnRead_loop_ok [OF x(1) _ _ ops] False by simp
    then show ?thesis using x(2) by (cases x) (auto simp: loop_ok_def intro: OnRead_catch_ok loop_inv_written)
  qed
qed

text \<open>A handle that is read belongs to a connection, and \<open>OnAllocate\<close> keeps it in order.\<close>

lemma reading_conn:
  assumes inv: "worker_inv ord hist w" "reading w i"
  obtains c c1 where "w_conns w i = Some c" "\<not> is_closing w (H_connection i)"
    "OnAllocate c = Inr (c1, c_input_used c1, ConnectionInputBufferSize - c_input_used c1)"
    "conn_ok c1" "c_runningTasks c1 = c_runningTasks c" "c_input_used c1 = c_input_used c - c_input_parsed c"
proof -
  have cl: "\<not> is_closing w (H_connection i)" using inv(2) by (simp add: reading_def)
  have "i < w_next_conn w" using log_callsD(2) [OF log_okD [OF inv(1)], of "Call_read_start (H_connection i)" i] inv(2)
    by (simp add: reading_def)
  moreover have "Ev_conn_closed i \<notin> set hist" using log_callsD(5) [OF log_okD [OF inv(1)]] cl by blast
  ultimately obtain c where c: "w_conns w i = Some c" using lifetimesD(1) [OF inv(1), of i] by auto
  then have ok: "conn_ok c" using counted_tasksD(1) [OF inv(1)] by simp
  then have "c_input_used c - c_input_parsed c \<le> ConnectionInputBufferSize" by (auto simp: conn_ok_def buffer_ok_def)
  with ok that [OF c cl] show ?thesis by (auto simp: OnAllocate_def Let_def conn_ok_def buffer_ok_def)
qed

lemma deliver_ok:
  assumes inv: "worker_inv ord hist w" "reading w i" "length cs \<le> free_buffer w i" "w_next_task w < 2 ^ 64"
    and ops: "\<And>cmd s args. faults_apart (Command_Execute ops cmd s args)"
    and r: "deliver ops rc i w cs = Some r"
  shows "callback_ok ord hist r"
proof -
  obtain c c1 where c: "w_conns w i = Some c" and cl: "\<not> is_closing w (H_connection i)"
    and c1: "OnAllocate c = Inr (c1, c_input_used c1, ConnectionInputBufferSize - c_input_used c1)"
    "conn_ok c1" "c_runningTasks c1 = c_runningTasks c" "c_input_used c1 = c_input_used c - c_input_parsed c"
    using reading_conn [OF inv(1,2)] .
  let ?c = "c1\<lparr>c_input := write_at (c_input_used c1) cs (c_input c1)\<rparr>"
  have l: "length (c_input ?c) = ConnectionInputBufferSize" "c_input_used c1 + length cs \<le> ConnectionInputBufferSize"
    using c1(2,4) inv(3) c by (auto simp: write_at_def free_buffer_def conn_ok_def buffer_ok_def)
  then have ok: "conn_ok ?c" "conn_ok (?c\<lparr>c_input_used := c_input_used ?c + nat (int (length cs))\<rparr>)"
    using c1(2) by (auto simp: conn_ok_def buffer_ok_def)
  show ?thesis
  proof (rule OnRead_ok [OF _ _ _ _ ok(2) _ ops])
    show "worker_inv ord hist (set_conn i ?c w)" by (rule worker_inv_set_conn [OF inv(1) c ok(1)]) (simp add: c1(3))
    show "OnRead ops rc (set_conn i ?c w) i (int (length cs)) = Some r" using r c c1(1) by (simp add: deliver_def)
  qed (use cl inv(4) in simp_all)
qed

lemma deliver_eof_ok:
  assumes inv: "worker_inv ord hist w" "reading w i" "w_next_task w < 2 ^ 64" "nread < 0"
    and run: "\<And>c. ord \<Longrightarrow> w_conns w i = Some c \<Longrightarrow> c_runningTasks c = 0"
    and ops: "\<And>cmd s args. faults_apart (Command_Execute ops cmd s args)"
    and r: "deliver_eof ops rc i w nread = Some r"
  shows "callback_ok ord hist r"
proof -
  obtain c c1 where c: "w_conns w i = Some c" and cl: "\<not> is_closing w (H_connection i)"
    and c1: "OnAllocate c = Inr (c1, c_input_used c1, ConnectionInputBufferSize - c_input_used c1)"
    "conn_ok c1" "c_runningTasks c1 = c_runningTasks c"
    using reading_conn [OF inv(1,2)] .
  show ?thesis
  proof (rule OnRead_ok [OF _ _ _ _ _ _ ops])
    show "worker_inv ord hist (set_conn i c1 w)" by (rule worker_inv_set_conn [OF inv(1) c c1(2,3)])
    show "OnRead ops rc (set_conn i c1 w) i nread = Some r" using r c c1(1) by (simp add: deliver_eof_def)
    show "conn_ok (c1\<lparr>c_input_used := c_input_used c1 + nat nread\<rparr>)" using c1(2) inv(4) by simp
  qed (use cl inv(3) run [OF _ c] c1(3) in simp_all)
qed

text \<open>The end of a task: its connection counts one less.\<close>

lemma tasks_of_remove:
  "tasks_of (w\<lparr>w_tasks := (w_tasks w)(t := None)\<rparr>) j = tasks_of w j - {t}"
  by (auto simp: tasks_of_def)

lemma worker_inv_remove_task:
  assumes inv: "worker_inv ord hist w" and t: "w_tasks w t = Some task" "w_conns w (t_connection task) = Some c"
    and cl: "is_closing w (H_done t)"
  shows "worker_inv ord (Ev_write_done t # hist) (set_conn (t_connection task) (c\<lparr>c_runningTasks := c_runningTasks c - 1\<rparr>)
    (w\<lparr>w_tasks := (w_tasks w)(t := None)\<rparr>))" (is "worker_inv ord ?hist ?w")
proof -
  let ?i = "t_connection task"
  have tk: "tasks_of ?w j = tasks_of w j - {t}" for j by (simp add: tasks_of_remove)
  have other: "t \<notin> tasks_of w j" if "j \<noteq> ?i" for j using t(1) that by (auto simp: tasks_of_def)
  have own: "t \<in> tasks_of w ?i" "finite (tasks_of w ?i)" using t(1) finite_tasks [OF inv] by (auto simp: tasks_of_def)
  then have "0 < card (tasks_of w ?i)" by (auto simp: card_gt_0_iff)
  then have card: "of_nat (card (tasks_of w ?i - {t})) = c_runningTasks c - 1"
    using counted_tasksD(1) [OF inv t(2)] own by (simp add: of_nat_diff)
  have i: "?i < w_next_conn w \<and> Ev_conn_closed ?i \<notin> set hist" using lifetimesD(1) [OF inv, of ?i] t(2) by simp
  have "lifetimes ?hist ?w"
    unfolding lifetimes_def
  proof (intro conjI allI)
    show "w_conns ?w j \<noteq> None \<longleftrightarrow> j < w_next_conn ?w \<and> Ev_conn_closed j \<notin> set ?hist" for j
      using lifetimesD(1) [OF inv, of j] i by simp
    show "w_tasks ?w x \<noteq> None \<longleftrightarrow> x < w_next_task ?w \<and> Ev_write_done x \<notin> set ?hist" for x
      using lifetimesD(2) [OF inv, of x] by simp
    show "set (w_alive ?w) = dom (w_conns ?w)" "distinct (w_alive ?w)" using lifetimesD(3,4) [OF inv] t(2) by auto
  qed
  moreover have "counted_tasks ord ?w"
    unfolding counted_tasks_def
  proof (intro conjI allI impI)
    fix j d assume d: "w_conns ?w j = Some d"
    show "conn_ok d" using d counted_tasksD(1) [OF inv t(2)] counted_tasksD(1) [OF inv, of j d]
      by (cases "j = ?i") (auto simp: conn_ok_def buffer_ok_def)
    show "c_runningTasks d = of_nat (card (tasks_of ?w j))"
      using d card other [of j] counted_tasksD(1) [OF inv, of j d] unfolding tk by (cases "j = ?i") auto
  next
    fix x k assume "w_tasks ?w x = Some k"
    then show "w_conns ?w (t_connection k) \<noteq> None"
      using counted_tasksD(2) [OF inv, of x k] by (cases "x = t") auto
  next
    fix j assume ord "is_closing ?w (H_connection j)"
    then show "tasks_of ?w j = {}" using counted_tasksD(3) [OF inv, of j] unfolding tk by simp
  qed
  moreover have "log_ok ?hist ?w"
    using log_okD [OF inv] cl unfolding log_ok_def by simp
  ultimately show ?thesis by (simp add: worker_inv_def)
qed

lemma OnWriteDone_ok:
  assumes inv: "worker_inv ord hist w" "w_next_task w < 2 ^ 64" and ev: "may_happen hist w (Ev_write_done t)"
  shows "callback_but ord (Ev_write_done t # hist)
    (\<lambda>f. f = Assertion_failed ''uv_close'' \<and> (\<exists>task. w_tasks w t = Some task \<and> is_closing w (H_connection (t_connection task))))
    (OnWriteDone w t)" (is "callback_but _ _ ?P _")
proof -
  from ev obtain i out where "Call_write t i out \<in> set (w_uv w)" by auto
  then have t: "t < w_next_task w" "is_closing w (H_done t)" using log_callsD(3) [OF log_okD [OF inv(1)]] by blast+
  with ev obtain task where task: "w_tasks w t = Some task" using lifetimesD(2) [OF inv(1), of t] by auto
  then obtain c where c: "w_conns w (t_connection task) = Some c" using counted_tasksD(2) [OF inv(1) task] by auto
  let ?i = "t_connection task" and ?c = "c\<lparr>c_runningTasks := c_runningTasks c - 1\<rparr>"
  let ?w = "set_conn ?i ?c (w\<lparr>w_tasks := (w_tasks w)(t := None)\<rparr>)"
  note w = worker_inv_remove_task [OF inv(1) task c t(2)]
  have close: "callback_but ord (Ev_write_done t # hist) ?P (uv_close ?w (H_connection ?i) CB_OnConnectionClosed)"
    if "c_runningTasks c - 1 = 0"
  proof (cases "is_closing w (H_connection ?i)")
    case False
    have i: "?i < w_next_conn w" "tasks_of ?w ?i = {}"
      using lifetimesD(1) [OF inv(1), of ?i] c no_tasks [OF w, of ?i ?c] that inv(2) by simp_all
    have "uv_close ?w (H_connection ?i) CB_OnConnectionClosed = Inr (uv ?w (Call_close (H_connection ?i) CB_OnConnectionClosed)) \<and>
        worker_inv ord (Ev_write_done t # hist) (uv ?w (Call_close (H_connection ?i) CB_OnConnectionClosed))"
      by (rule uv_close_ok [OF w]) (use i False in simp_all)
    then show ?thesis by simp
  qed (use task in \<open>simp add: uv_close_def\<close>)
  show ?thesis
  proof (cases "c_state c = sClosed \<and> c_runningTasks c - 1 = 0")
    case True
    then have "OnWriteDone w t = uv_close ?w (H_connection ?i) CB_OnConnectionClosed"
      using task c by (simp add: OnWriteDone_def Let_def uv_close_def uv_def set_conn_def is_closing_def)
    with close True show ?thesis by simp
  next
    case False
    then have "OnWriteDone w t = Inr ?w" using task c by (auto simp: OnWriteDone_def Let_def set_conn_def)
    with w show ?thesis by simp
  qed
qed

lemma CloseEventLopp_ok: "worker_inv ord hist w \<Longrightarrow> worker_inv ord hist (CloseEventLoppIfPossible w)"
  by (simp add: CloseEventLoppIfPossible_def worker_inv_uv plain_call_def)

lemma OnConnectionClosed_ok:
  assumes inv: "worker_inv ord hist w" "w_next_task w < 2 ^ 64" and ev: "may_happen hist w (Ev_conn_closed i)"
  shows "callback_but ord (Ev_conn_closed i # hist)
    (\<lambda>f. f = Assertion_failed ''pconn->runningTasks == 0'' \<and> tasks_of w i \<noteq> {}) (OnConnectionClosed w i)"
proof -
  let ?hist = "Ev_conn_closed i # hist"
  let ?w = "w\<lparr>w_alive := removeAll i (w_alive w), w_conns := (w_conns w)(i := None)\<rparr>"
  have cl: "is_closing w (H_connection i)" using ev by (simp add: is_closing_def)
  then have "i < w_next_conn w" using closing_created(2) [OF inv(1)] by blast
  with ev obtain c where c: "w_conns w i = Some c" using lifetimesD(1) [OF inv(1), of i] by auto
  show ?thesis
  proof (cases "c_runningTasks c = 0")
    case False
    then have "tasks_of w i \<noteq> {}" using counted_tasksD(1) [OF inv(1) c] by auto
    with False c show ?thesis by (simp add: OnConnectionClosed_def)
  next
    case True
    then have none: "tasks_of w i = {}" using no_tasks [OF inv(1) c _ inv(2)] by blast
    have tk: "tasks_of ?w = tasks_of w" by (simp add: tasks_of_def fun_eq_iff)
    have "lifetimes ?hist ?w"
      unfolding lifetimes_def
    proof (intro conjI allI)
      show "w_conns ?w j \<noteq> None \<longleftrightarrow> j < w_next_conn ?w \<and> Ev_conn_closed j \<notin> set ?hist" for j
        using lifetimesD(1) [OF inv(1), of j] by simp
      show "w_tasks ?w x \<noteq> None \<longleftrightarrow> x < w_next_task ?w \<and> Ev_write_done x \<notin> set ?hist" for x
        using lifetimesD(2) [OF inv(1), of x] by simp
      show "set (w_alive ?w) = dom (w_conns ?w)" using lifetimesD(3) [OF inv(1)] by auto
      show "distinct (w_alive ?w)" using lifetimesD(4) [OF inv(1)] by (simp add: distinct_removeAll)
    qed
    moreover have "counted_tasks ord ?w"
      unfolding counted_tasks_def tk
    proof (intro conjI allI impI)
      fix j d assume "w_conns ?w j = Some d"
      then have "w_conns w j = Some d" by (cases "j = i") auto
      from counted_tasksD(1) [OF inv(1) this] show "conn_ok d" "c_runningTasks d = of_nat (card (tasks_of w j))" by auto
    next
      fix x k assume "w_tasks ?w x = Some k"
      then have "w_conns w (t_connection k) \<noteq> None" "t_connection k \<noteq> i"
        using counted_tasksD(2) [OF inv(1), of x k] none by (auto simp: tasks_of_def)
      then show "w_conns ?w (t_connection k) \<noteq> None" by simp
    qed (use counted_tasksD(3) [OF inv(1)] in simp)
    moreover have "log_ok ?hist ?w" using log_okD [OF inv(1)] ev unfolding log_ok_def by simp
    ultimately have "worker_inv ord ?hist ?w" by (simp add: worker_inv_def)
    moreover have "i \<in> set (w_alive w)" using lifetimesD(3) [OF inv(1)] c by auto
    ultimately show ?thesis using c True CloseEventLopp_ok by (auto simp: OnConnectionClosed_def Let_def)
  qed
qed

text \<open>
  A closed handle lies in a deleted task only when the write of the task is done already; a connection that was closed
  with this callback is never deleted.
\<close>

lemma OnHandleClosed_ok:
  assumes inv: "worker_inv ord hist w" and ev: "may_happen hist w (Ev_handle_closed h)"
  shows "callback_but ord (Ev_handle_closed h # hist)
    (\<lambda>f. f = UB Use_after_free \<and> (\<exists>t. h = H_done t \<and> Ev_write_done t \<in> set hist)) (OnHandleClosed w h)"
proof (cases "handle_freed w h")
  case False
  then show ?thesis using worker_inv_hist [OF inv, of "Ev_handle_closed h"] CloseEventLopp_ok by (simp add: OnHandleClosed_def)
next
  case True
  have c: "Call_close h CB_OnHandleClosed \<in> set (w_uv w)" using ev by simp
  show ?thesis
  proof (cases h)
    case (H_connection i)
    have "i < w_next_conn w" using log_callsD(2) [OF log_okD [OF inv] c, of i] H_connection by simp
    then have "Ev_conn_closed i \<in> set hist" using True H_connection lifetimesD(1) [OF inv, of i] by auto
    then show ?thesis using log_callsD(7,8) [OF log_okD [OF inv], of i] c H_connection by blast
  next
    case (H_done t)
    have "t < w_next_task w" using log_callsD(1) [OF log_okD [OF inv] c, of t] H_done by simp
    then have "Ev_write_done t \<in> set hist" using True H_done lifetimesD(2) [OF inv, of t] by auto
    then show ?thesis using H_done True by (simp add: OnHandleClosed_def)
  qed (use True in simp_all)
qed

text \<open>A new connection has no task yet.\<close>

lemma worker_inv_new_conn:
  assumes inv: "worker_inv ord hist w" and c: "conn_ok c" "c_runningTasks c = 0"
  shows "worker_inv ord hist (w\<lparr>w_conns := (w_conns w)(w_next_conn w \<mapsto> c), w_alive := w_alive w @ [w_next_conn w],
    w_next_conn := Suc (w_next_conn w)\<rparr>)" (is "worker_inv ord hist ?w")
proof -
  let ?i = "w_next_conn w"
  have new: "w_conns w ?i = None" "\<not> is_closing w (H_connection ?i)"
    using lifetimesD(1) [OF inv, of ?i] closing_created(2) [OF inv, of ?i] by auto
  have fresh: "Ev_conn_closed ?i \<notin> set hist" using log_callsD(5) [OF log_okD [OF inv]] new(2) by blast
  have none: "tasks_of w ?i = {}" using counted_tasksD(2) [OF inv] new(1) by (fastforce simp: tasks_of_def)
  have tk: "tasks_of ?w = tasks_of w" by (simp add: tasks_of_def fun_eq_iff)
  have "lifetimes hist ?w"
    unfolding lifetimes_def
  proof (intro conjI allI)
    show "w_conns ?w j \<noteq> None \<longleftrightarrow> j < w_next_conn ?w \<and> Ev_conn_closed j \<notin> set hist" for j
      using lifetimesD(1) [OF inv, of j] fresh by (cases "j = ?i") auto
    show "w_tasks ?w x \<noteq> None \<longleftrightarrow> x < w_next_task ?w \<and> Ev_write_done x \<notin> set hist" for x
      using lifetimesD(2) [OF inv, of x] by simp
    show "set (w_alive ?w) = dom (w_conns ?w)" using lifetimesD(3) [OF inv] by auto
    show "distinct (w_alive ?w)" using lifetimesD(3,4) [OF inv] new(1) by auto
  qed
  moreover have "counted_tasks ord ?w"
    unfolding counted_tasks_def tk
  proof (intro conjI allI impI)
    fix j d assume d: "w_conns ?w j = Some d"
    show "conn_ok d" "c_runningTasks d = of_nat (card (tasks_of w j))"
      using d c none counted_tasksD(1) [OF inv, of j d] by (cases "j = ?i"; auto)+
  next
    fix x k assume "w_tasks ?w x = Some k"
    then show "w_conns ?w (t_connection k) \<noteq> None" using counted_tasksD(2) [OF inv, of x k] by auto
  qed (use counted_tasksD(3) [OF inv] in simp)
  moreover have "log_ok hist ?w" using log_okD [OF inv] unfolding log_ok_def by (auto simp: less_Suc_eq)
  ultimately show ?thesis by (simp add: worker_inv_def)
qed

lemma OnConnectionOpen_ok:
  assumes inv: "worker_inv ord hist w" and raw: "length raw = ConnectionInputBufferSize"
  shows "callback_ok ord hist (OnConnectionOpen rc raw neg w)"
proof -
  let ?i = "w_next_conn w" and ?h = "H_connection (w_next_conn w)"
  define w1 where "w1 = w\<lparr>w_conns := (w_conns w)(?i \<mapsto> new_Connection raw neg), w_alive := w_alive w @ [?i],
    w_next_conn := Suc ?i\<rparr>"
  let ?w2 = "uv (uv w1 (Call_tcp_init ?h)) (Call_accept ?h)"
  let ?w3 = "uv ?w2 (Call_read_start ?h)"
  have "conn_ok (new_Connection raw neg)" using buffer_new [OF raw, of neg]
    by (simp add: conn_ok_def new_Connection_def parser_ok_Reset)
  then have "worker_inv ord hist w1" unfolding w1_def by (rule worker_inv_new_conn [OF inv _ new_Connection_tasks])
  moreover have i: "w_next_conn w1 = Suc ?i" by (simp add: w1_def)
  ultimately have w2: "worker_inv ord hist ?w2" by (intro worker_inv_uv) (simp_all add: plain_call_def)
  then have w3: "worker_inv ord hist ?w3" by (rule worker_inv_uv) (simp add: plain_call_def i)
  have cl: "\<not> is_closing w1 ?h" using closing_created(2) [OF inv, of ?i] by (auto simp: w1_def)
  have none: "tasks_of w1 ?i = {}"
  proof -
    have "w_conns w ?i = None" using lifetimesD(1) [OF inv, of ?i] by simp
    then show ?thesis using counted_tasksD(2) [OF inv] by (fastforce simp: tasks_of_def w1_def)
  qed
  have close: "callback_ok ord hist (uv_close x ?h cb)" if "x = ?w2 \<or> x = ?w3" for x cb
    using that uv_close_ok [OF w2, of ?h cb] uv_close_ok [OF w3, of ?h cb] cl none i by auto
  show ?thesis unfolding OnConnectionOpen_def Let_def w1_def [symmetric] using close w3 by simp
qed

text \<open>Stopping: each connection is marked, and those with no task are closed, unless one of them is closing already.\<close>

lemma stop_connection_ok:
  assumes inv: "worker_inv ord hist w" "w_conns w i = Some c" "w_next_task w < 2 ^ 64"
  obtains (asserts) "stop_connection w i c = Inl (Assertion_failed ''uv_close'')" "is_closing w (H_connection i)"
    | (stops) w' where "stop_connection w i c = Inr w'" "worker_inv ord hist w'" "dom (w_conns w') = dom (w_conns w)"
      "w_next_task w' = w_next_task w" "\<And>j. j \<noteq> i \<Longrightarrow> is_closing w' (H_connection j) = is_closing w (H_connection j)"
proof -
  let ?w = "uv (set_conn i (c\<lparr>c_state := sClosed\<rparr>) w) (Call_read_stop (H_connection i))"
  have i: "i < w_next_conn w" using lifetimesD(1) [OF inv(1), of i] inv(2) by simp
  have "conn_ok (c\<lparr>c_state := sClosed\<rparr>)" using counted_tasksD(1) [OF inv(1,2)] by (simp add: conn_ok_def buffer_ok_def)
  then have "worker_inv ord hist (set_conn i (c\<lparr>c_state := sClosed\<rparr>) w)" by (rule worker_inv_set_conn [OF inv(1,2)]) simp
  then have w: "worker_inv ord hist ?w" by (rule worker_inv_uv) (simp add: plain_call_def i)
  have dom: "dom (w_conns ?w) = dom (w_conns w)" using inv(2) by auto
  show thesis
  proof (cases "c_runningTasks c = 0")
    case True
    have none: "tasks_of w i = {}" by (rule no_tasks [OF inv(1,2) True inv(3)])
    show thesis
    proof (cases "is_closing w (H_connection i)")
      case cl: True
      then show thesis using asserts True by (simp add: stop_connection_def Let_def uv_close_def)
    next
      case False
      then have "uv_close ?w (H_connection i) CB_OnConnectionClosed = Inr (uv ?w (Call_close (H_connection i) CB_OnConnectionClosed)) \<and>
          worker_inv ord hist (uv ?w (Call_close (H_connection i) CB_OnConnectionClosed))"
        by (intro uv_close_ok [OF w]) (use i none in simp_all)
      then show thesis using stops [of "uv ?w (Call_close (H_connection i) CB_OnConnectionClosed)"] True dom
        by (simp add: stop_connection_def Let_def)
    qed
  next
    case False
    then show thesis using stops [of ?w] w dom by (simp add: stop_connection_def Let_def)
  qed
qed

lemma stop_connections_ok:
  assumes "worker_inv ord hist w" "distinct is" "set is \<subseteq> dom (w_conns w)" "w_next_task w < 2 ^ 64"
  shows "stop_connections w is = Inl (Assertion_failed ''uv_close'') \<and> (\<exists>i \<in> set is. is_closing w (H_connection i)) \<or>
    (\<exists>w'. stop_connections w is = Inr w' \<and> worker_inv ord hist w')"
  using assms
proof (induction "is" arbitrary: w)
  case (Cons i "is")
  then obtain c where c: "w_conns w i = Some c" by auto
  show ?case
  proof (cases rule: stop_connection_ok [OF Cons.prems(1) c Cons.prems(4)])
    case 1
    then show ?thesis using c by simp
  next
    case (2 w')
    have "is_closing w' (H_connection j) = is_closing w (H_connection j)" if "j \<in> set is" for j
      using that 2(5) [of j] Cons.prems(2) by auto
    with Cons.IH [of w'] Cons.prems 2 c show ?thesis by auto
  qed
qed simp

lemma OnStop_ok:
  assumes inv: "worker_inv ord hist w" "w_next_task w < 2 ^ 64" and ev: "may_happen hist w Ev_stop"
  shows "callback_but ord (Ev_stop # hist)
    (\<lambda>f. f = Assertion_failed ''uv_close'' \<and> (\<exists>i \<in> set (w_alive w). is_closing w (H_connection i))) (OnStop w)"
proof -
  let ?hist = "Ev_stop # hist" and ?h = "\<lambda>w h. uv w (Call_close h CB_OnHandleClosed)"
  have w: "worker_inv ord ?hist w" by (rule worker_inv_hist [OF inv(1)]) simp_all
  have cl: "\<not> is_closing w H_uvStopAsync" "\<not> is_closing w H_uvSigPipe" "\<not> is_closing w H_uvNetwork"
    using log_callsD(6) [OF log_okD [OF inv(1)]] ev by auto
  define w1 where "w1 = ?h w H_uvStopAsync"
  define w2 where "w2 = ?h w1 H_uvSigPipe"
  define w3 where "w3 = ?h w2 H_uvNetwork"
  have 1: "uv_close w H_uvStopAsync CB_OnHandleClosed = Inr w1 \<and> worker_inv ord ?hist w1"
    unfolding w1_def by (rule uv_close_ok [OF w]) (use cl in simp_all)
  then have 2: "uv_close w1 H_uvSigPipe CB_OnHandleClosed = Inr w2 \<and> worker_inv ord ?hist w2"
    unfolding w2_def by (intro uv_close_ok) (use cl in \<open>simp_all add: w1_def\<close>)
  then have 3: "uv_close w2 H_uvNetwork CB_OnHandleClosed = Inr w3 \<and> worker_inv ord ?hist w3"
    unfolding w3_def by (intro uv_close_ok) (use cl in \<open>simp_all add: w1_def w2_def\<close>)
  have al: "w_alive w3 = w_alive w" "is_closing w3 (H_connection i) = is_closing w (H_connection i)" for i
    by (simp_all add: w1_def w2_def w3_def)
  have "stop_connections w3 (w_alive w3) = Inl (Assertion_failed ''uv_close'') \<and>
      (\<exists>i \<in> set (w_alive w3). is_closing w3 (H_connection i)) \<or>
    (\<exists>w'. stop_connections w3 (w_alive w3) = Inr w' \<and> worker_inv ord ?hist w')"
    by (rule stop_connections_ok)
      (use 3 inv(2) lifetimesD(3,4) [OF w] in \<open>auto simp: w1_def w2_def w3_def\<close>)
  then show ?thesis unfolding al using 1 2 3 CloseEventLopp_ok by (auto simp: OnStop_def al)
qed

section \<open>All runs\<close>

lemma run_calls_log: "run_calls rc w cs = Inr w' \<Longrightarrow> w' = w\<lparr>w_uv := w_uv w @ map fst cs\<rparr>"
proof (induction cs arbitrary: w)
  case (Cons x cs)
  obtain c checked where x: "x = (c, checked)" by (cases x)
  with Cons.prems have "run_calls rc (uv w c) cs = Inr w'" by (simp split: if_splits)
  from Cons.IH [OF this] x show ?case by (simp add: uv_def)
qed simp

lemma Start_inv:
  assumes "Start rc (new_Worker s) family = Inr w"
  shows "worker_inv ord [] w"
proof -
  have w: "w = (new_Worker s)\<lparr>w_uv := map fst (Start_calls family)\<rparr>"
    using run_calls_log [OF assms [unfolded Start_def]] by (simp add: new_Worker_def)
  have "lifetimes [] w" "counted_tasks ord w" by (simp_all add: w lifetimes_def counted_tasks_def new_Worker_def tasks_of_def)
  moreover have "log_ok [] w" by (simp add: w log_ok_def is_closing_def Start_calls_def new_Worker_def)
  ultimately show ?thesis by (simp add: worker_inv_def)
qed

lemma execution_done_task:
  assumes "worker_inv ord hist w" "may_happen hist w (Ev_execution_done t)"
  obtains task where "w_tasks w t = Some task" "\<not> is_closing w (H_done t)"
proof -
  have "t < w_next_task w" using log_callsD(1) [OF log_okD [OF assms(1)], of "Call_async_send (H_done t)" t] assms(2) by simp
  moreover have "Ev_write_done t \<notin> set hist" using log_callsD(4) [OF log_okD [OF assms(1)]] assms(2) by auto
  ultimately show thesis using that lifetimesD(2) [OF assms(1), of t] assms(2) by auto
qed

text \<open>
  The four ways a callback can fail: a stop, or the last reply of a closed connection, closes a connection that is
  closing already; the close of a connection is reported while a task of it is not answered; and the close of the async handle
  of a task is reported after the write callback deleted the task.
\<close>

fun known_fault :: "uv_event list \<Rightarrow> 's worker \<Rightarrow> uv_event \<Rightarrow> failure \<Rightarrow> bool" where
  "known_fault hist w Ev_stop f \<longleftrightarrow>
     f = Assertion_failed ''uv_close'' \<and> (\<exists>i \<in> set (w_alive w). is_closing w (H_connection i))"
| "known_fault hist w (Ev_write_done t) f \<longleftrightarrow>
     f = Assertion_failed ''uv_close'' \<and> (\<exists>task. w_tasks w t = Some task \<and> is_closing w (H_connection (t_connection task)))"
| "known_fault hist w (Ev_conn_closed i) f \<longleftrightarrow>
     f = Assertion_failed ''pconn->runningTasks == 0'' \<and> tasks_of w i \<noteq> {}"
| "known_fault hist w (Ev_handle_closed h) f \<longleftrightarrow>
     f = UB Use_after_free \<and> (\<exists>t. h = H_done t \<and> Ev_write_done t \<in> set hist)"
| "known_fault hist w ev f \<longleftrightarrow> False"

lemma handle_event_ok:
  assumes inv: "worker_inv ord hist w" "w_next_task w < 2 ^ 64" and ev: "may_happen hist w ev" "ord \<longrightarrow> orderly w ev"
    and ops: "\<And>cmd s args. faults_apart (Command_Execute ops cmd s args)" and r: "handle_event ops rc ev w = Some r"
  shows "callback_but ord (ev # hist) (known_fault hist w ev) r"
proof (cases ev)
  case (Ev_open raw neg)
  then show ?thesis using worker_inv_hist [OF inv(1), of ev] ev r OnConnectionOpen_ok [of ord "ev # hist" w raw rc neg]
    by (auto intro: callback_ok_but)
next
  case (Ev_data i cs)
  then show ?thesis using worker_inv_hist [OF inv(1), of ev] ev r deliver_ok [of ord "ev # hist" w i cs ops rc r, OF _ _ _ inv(2) ops]
    by (simp add: callback_ok_but)
next
  case (Ev_eof i nread)
  then show ?thesis
    using worker_inv_hist [OF inv(1), of ev] ev r deliver_eof_ok [of ord "ev # hist" w i nread ops rc r, OF _ _ inv(2) _ _ ops]
    by (simp add: callback_ok_but)
next
  case (Ev_execution_done t)
  then obtain task where "w_tasks w t = Some task" "\<not> is_closing w (H_done t)"
    using execution_done_task [OF inv(1)] ev by metis
  then show ?thesis using worker_inv_hist [OF inv(1), of ev] Ev_execution_done r OnExecutionDone_ok [of ord "ev # hist" w t task rc]
    by (auto intro: callback_ok_but)
next
  case (Ev_write_done t)
  then show ?thesis using OnWriteDone_ok [OF inv, of t] ev r by (simp add: callback_but_def split: sum.splits)
next
  case (Ev_conn_closed i)
  then show ?thesis using OnConnectionClosed_ok [OF inv, of i] ev r by (simp add: callback_but_def split: sum.splits)
next
  case (Ev_handle_closed h)
  then show ?thesis using OnHandleClosed_ok [OF inv(1), of h] ev r by (simp add: callback_but_def split: sum.splits)
next
  case Ev_stop
  then show ?thesis using OnStop_ok [OF inv] ev r by (simp add: callback_but_def split: sum.splits)
qed

lemma uv_reach_inv:
  assumes "uv_reach ops rc ord hist w" "\<And>cmd s args. faults_apart (Command_Execute ops cmd s args)"
  shows "worker_inv ord hist w"
  using assms(1)
proof induction
  case (reach_event hist w ev w')
  from handle_event_ok [OF reach_event.IH reach_event.hyps(4,2,3) assms(2) reach_event.hyps(5)] show ?case by simp
qed (rule Start_inv)

text \<open>In a run of orderly events the only known fault that can happen is the last one.\<close>

lemma orderly_fault:
  assumes "worker_inv True hist w" "may_happen hist w ev" "orderly w ev" "known_fault hist w ev f"
  shows "\<exists>t. ev = Ev_handle_closed (H_done t) \<and> f = UB Use_after_free"
proof (cases ev)
  case (Ev_write_done t)
  with assms(4) obtain task where "w_tasks w t = Some task" "is_closing w (H_connection (t_connection task))" by auto
  then show ?thesis using counted_tasksD(3) [OF assms(1)] by (auto simp: tasks_of_def)
next
  case (Ev_conn_closed i)
  then have "is_closing w (H_connection i)" using assms(2) by (simp add: is_closing_def)
  then show ?thesis using counted_tasksD(3) [OF assms(1)] assms(4) Ev_conn_closed by auto
qed (use assms(3,4) in auto)

section \<open>Properties of all runs\<close>

text \<open>
  C22: The faults of the worker with the LRU storage.  Whatever events libuv reports, in any order its contract allows and
  whatever bytes the clients send, a callback that uses a connection or a task that was deleted, executes a missing command,
  reads outside the buffer, closes a handle twice or fails one of its assertions does so in one of four known
  ways: (1) a stop while a connection is closing, or (2) the last reply of a connection that is closing, closes it again and
  \<open>uv_close\<close> asserts; (3) the close of a connection is reported while a task of it is unanswered and the assertion of
  \<open>OnConnectionClosed\<close> fails; (4) the close of the async handle of a task is reported after \<open>OnWriteDone\<close> deleted the task.
  When all clients close their side only after all their replies and no stop comes while a connection is closing, no
  assertion fails: only (4) is left.
\<close>

theorem worker_memory_safe:
  assumes "uv_reach lru_ops rc ord hist w" "may_happen hist w ev" "w_next_task w < 2 ^ 64"
    and "handle_event lru_ops rc ev w = Some (Inl f)" "worker_fault f"
  shows "known_fault hist w ev f \<and> (ord \<and> orderly w ev \<longrightarrow> (\<exists>t. ev = Ev_handle_closed (H_done t) \<and> f = UB Use_after_free))"
proof -
  have inv: "worker_inv ord hist w" "worker_inv False hist w"
    using uv_reach_inv [OF assms(1) lru_faults_apart] by (simp_all add: worker_inv_def counted_tasks_def)
  have k: "known_fault hist w ev f"
    using handle_event_ok [OF inv(2) assms(3,2) _ lru_faults_apart assms(4)] assms(5) by simp
  moreover have "\<exists>t. ev = Ev_handle_closed (H_done t) \<and> f = UB Use_after_free" if "ord" "orderly w ev"
    using orderly_fault [OF _ assms(2) that(2) k] inv(1) that(1) by simp
  ultimately show ?thesis by blast
qed

text \<open>A worker that was started and has accepted a client.\<close>

definition accepted :: "lru_store worker" where
  "accepted = (new_Worker (MapBasedGlobalLockImpl 8))\<lparr>
     w_conns := [0 \<mapsto> new_Connection raw_buffer False], w_alive := [0], w_next_conn := 1,
     w_uv := map fst (Start_calls 2) @
       [Call_tcp_init (H_connection 0), Call_accept (H_connection 0), Call_read_start (H_connection 0)]\<rparr>"

lemma accepted_reached: "uv_reach lru_ops (\<lambda>_. 0) ord [Ev_open raw_buffer False] accepted"
proof (rule reach_event)
  let ?w = "(new_Worker (MapBasedGlobalLockImpl 8))\<lparr>w_uv := map fst (Start_calls 2)\<rparr>"
  show "uv_reach lru_ops (\<lambda>_. 0) ord [] ?w"
    by (rule reach_start [of _ "MapBasedGlobalLockImpl 8" 2]) (simp add: Start_def Start_calls_def uv_def new_Worker_def)
  show "may_happen [] ?w (Ev_open raw_buffer False)"
    by (simp add: is_closing_def Start_calls_def)
  show "w_next_task ?w < 2 ^ 64" by (simp add: new_Worker_def)
  show "handle_event lru_ops (\<lambda>_. 0) (Ev_open raw_buffer False) ?w = Some (Inr accepted)"
    by (simp add: OnConnectionOpen_def Let_def uv_def accepted_def new_Worker_def)
qed simp

lemma accepted_simps:
  "w_conns accepted 0 = Some (new_Connection raw_buffer False)" "w_next_task accepted = 0" "reading accepted 0"
  "free_buffer accepted 0 = ConnectionInputBufferSize"
  by (simp_all add: accepted_def reading_def is_closing_def Start_calls_def free_buffer_def new_Worker_def new_Connection_def)

text \<open>
  A stop while a connection is closing: the callback closes every connection without a running task, also one whose close
  was requested at the end of its stream, and \<open>uv_close\<close> asserts.
\<close>

lemma stop_while_closing_asserts:
  assumes "w_alive w = [i]" "w_conns w i = Some c" "c_runningTasks c = 0" "is_closing w (H_connection i)"
    and "\<not> is_closing w H_uvStopAsync" "\<not> is_closing w H_uvSigPipe" "\<not> is_closing w H_uvNetwork"
  shows "OnStop w = Inl (Assertion_failed ''uv_close'')"
  using assms by (simp add: OnStop_def uv_close_def stop_connection_def Let_def)

lemma stop_after_eof_asserts:
  "\<exists>w. uv_reach lru_ops (\<lambda>_. 0) ord [Ev_eof 0 (-4095), Ev_open raw_buffer False] w \<and> w_next_task w = 0 \<and>
    OnStop w = Inl (Assertion_failed ''uv_close'')"
proof -
  let ?w = "uv (set_conn 0 ((new_Connection raw_buffer False)\<lparr>c_input_parsed := 0, c_input_used := 0\<rparr>) accepted)
    (Call_close (H_connection 0) CB_OnConnectionClosed)"
  have cl: "\<not> is_closing accepted h" for h by (simp add: accepted_def is_closing_def Start_calls_def)
  have "deliver_eof lru_ops (\<lambda>_. 0) 0 accepted (-4095) = Some (Inr ?w)"
    using cl OnAllocate_drained [of "new_Connection raw_buffer False"]
    by (simp add: deliver_eof_def accepted_simps OnRead_def uv_close_def new_Connection_def)
  then have "uv_reach lru_ops (\<lambda>_. 0) ord [Ev_eof 0 (-4095), Ev_open raw_buffer False] ?w"
    by (intro reach_event [OF accepted_reached]) (simp_all add: accepted_simps new_Connection_tasks)
  moreover have "OnStop ?w = Inl (Assertion_failed ''uv_close'')"
    by (rule stop_while_closing_asserts) (use cl in \<open>auto simp: accepted_def new_Connection_tasks\<close>)
  moreover have "w_next_task ?w = 0" by (simp add: accepted_simps)
  ultimately show ?thesis by blast
qed

text \<open>The worker is stopped while the connection of a client that left is closing: the first known fault.\<close>

theorem worker_memory_safe_witness:
  "\<exists>w :: lru_store worker. handle_event lru_ops (\<lambda>_. 0) Ev_stop w = Some (Inl (Assertion_failed ''uv_close'')) \<and>
    known_fault [Ev_eof 0 (-4095), Ev_open raw_buffer False] w Ev_stop (Assertion_failed ''uv_close'') \<and> \<not> orderly w Ev_stop"
proof -
  obtain w where w: "uv_reach lru_ops (\<lambda>_. 0) True [Ev_eof 0 (-4095), Ev_open raw_buffer False] w" "w_next_task w = 0"
    "OnStop w = Inl (Assertion_failed ''uv_close'')" using stop_after_eof_asserts by blast
  from worker_memory_safe [OF w(1), of Ev_stop "Assertion_failed ''uv_close''"] w(2,3) show ?thesis
    by (intro exI [of _ w]) auto
qed

text \<open>The fourth one: whenever the write callback of a task comes before the close callback of its async handle.\<close>

lemma close_after_write_done:
  assumes "uv_reach lru_ops rc ord hist w" "Ev_write_done t \<in> set hist"
  shows "handle_event lru_ops rc (Ev_handle_closed (H_done t)) w = Some (Inl (UB Use_after_free))"
  using lifetimesD(2) [OF uv_reach_inv [OF assms(1) lru_faults_apart], of t] assms(2) by (auto simp: OnHandleClosed_def)

text \<open>
  C23: In every run, each task that is not yet answered belongs to a connection that is still there, and \<open>runningTasks\<close>
  of a connection is exactly the number of its unanswered tasks.  In a run in which clients close their side only after
  all their replies and no stop comes while a connection is closing, a connection that is being closed has none.
\<close>

theorem running_tasks_counted:
  assumes "uv_reach lru_ops rc ord hist w" "w_next_task w < 2 ^ 64"
  shows "(\<forall>t task. w_tasks w t = Some task \<longrightarrow> w_conns w (t_connection task) \<noteq> None) \<and>
    (\<forall>i c. w_conns w i = Some c \<longrightarrow> unat (c_runningTasks c) = card (tasks_of w i)) \<and>
    (ord \<longrightarrow> (\<forall>i. is_closing w (H_connection i) \<longrightarrow> tasks_of w i = {}))"
proof -
  have inv: "worker_inv ord hist w" by (rule uv_reach_inv [OF assms(1) lru_faults_apart])
  have "unat (c_runningTasks c) = card (tasks_of w i)" if "w_conns w i = Some c" for i c
    using counted_tasksD(1) [OF inv that] finite_tasks [OF inv, of i] assms(2) by (simp add: unat_of_nat)
  with counted_tasksD(2,3) [OF inv] show ?thesis by blast
qed

text \<open>The client sends \<open>get a\<close>: one task is running and one is counted.\<close>

lemma get_task_running:
  "\<exists>w c. deliver lru_ops (\<lambda>_. 0) 0 accepted (''get a'' @ crlf) = Some (Inr w) \<and> w_conns w 0 = Some c \<and>
    c_runningTasks c = 1 \<and> w_next_task w = 1"
proof -
  let ?c = "new_Connection raw_buffer False"
  have r: "is_request (c_parser ?c) (get_header [''a'']) [] (new_Get [''a''])"
    using is_request_get [of "[''a'']"] by (simp add: new_Connection_def Reset_new)
  have h: "get_header [''a''] = ''get a'' @ crlf" by (simp add: get_header_def)
  obtain s' out where ex: "Command_Execute lru_ops (new_Get [''a'']) (w_storage accepted) [] = Inr (s', out)"
    using lru.Get_Execute_total [OF wf_init [of 8], of "[''a'']" "[]"] by (auto simp: accepted_def new_Worker_def new_Get_def)
  have "buffer_ok ?c" by (rule buffer_new) simp
  then obtain c' where "deliver_all lru_ops (\<lambda>_. 0) 0 accepted [''get a'' @ crlf] =
      Some (Inr (set_conn 0 c' (task_done 0 (new_Get [''a'']) [] out s' accepted)))" "c_runningTasks c' = c_runningTasks ?c + 1"
    using deliver_all_idle [where rc = "\<lambda>_. 0" and css = "[''get a'' @ crlf]", OF accepted_simps(1) idle_new _ r _ ex]
    by (auto simp: h request_text_def ConnectionInputBufferSize_def)
  moreover from this(1) have "deliver lru_ops (\<lambda>_. 0) 0 accepted (''get a'' @ crlf) =
      Some (Inr (set_conn 0 c' (task_done 0 (new_Get [''a'']) [] out s' accepted)))"
    by (auto split: option.splits sum.splits)
  ultimately show ?thesis by (simp add: new_Connection_tasks task_done_def Let_def accepted_simps)
qed

theorem running_tasks_counted_witness:
  "\<exists>w :: lru_store worker. uv_reach lru_ops (\<lambda>_. 0) True [Ev_data 0 (''get a'' @ crlf), Ev_open raw_buffer False] w \<and>
    card (tasks_of w 0) = 1"
proof -
  obtain w c where w: "deliver lru_ops (\<lambda>_. 0) 0 accepted (''get a'' @ crlf) = Some (Inr w)" "w_conns w 0 = Some c"
    "c_runningTasks c = 1" "w_next_task w = 1" using get_task_running by blast
  have reach: "uv_reach lru_ops (\<lambda>_. 0) True [Ev_data 0 (''get a'' @ crlf), Ev_open raw_buffer False] w"
    by (rule reach_event [OF accepted_reached]) (use w(1) in \<open>simp_all add: accepted_simps ConnectionInputBufferSize_def\<close>)
  from running_tasks_counted [OF reach] w(2-4) have "card (tasks_of w 0) = 1" by fastforce
  with reach show ?thesis by blast
qed

end
