(* ===== verification/Uv_Queue.thy ===== *)
theory Uv_Queue
  imports Prelude
begin

text \<open>
  The intrusive circular queues of libuv (src/third-party/libuv-1.11.0/src/queue.h).  A \<open>QUEUE\<close> is a
  pair of pointers; the memory maps the address of every node to its two fields, and each macro is
  the sequence of its assignments.  \<open>ring m h xs\<close> says that the nodes linked from the head \<open>h\<close> are
  \<open>xs\<close>, in order; the lemmas give what each macro does to the list, and that it leaves other rings
  alone.  The locale \<open>intrusive_queue\<close> is the contract the users of the macros rely on.
\<close>

section \<open>The macros\<close>

record 'p qmem =
  QUEUE_NEXT :: "'p \<Rightarrow> 'p"
  QUEUE_PREV :: "'p \<Rightarrow> 'p"

definition set_next :: "'p qmem \<Rightarrow> 'p \<Rightarrow> 'p \<Rightarrow> 'p qmem" where
  "set_next m p q = m\<lparr>QUEUE_NEXT := (QUEUE_NEXT m)(p := q)\<rparr>"

definition set_prev :: "'p qmem \<Rightarrow> 'p \<Rightarrow> 'p \<Rightarrow> 'p qmem" where
  "set_prev m p q = m\<lparr>QUEUE_PREV := (QUEUE_PREV m)(p := q)\<rparr>"

text \<open>Assignments to \<open>QUEUE_PREV_NEXT(p)\<close> and \<open>QUEUE_NEXT_PREV(p)\<close>.\<close>

definition set_prev_next :: "'p qmem \<Rightarrow> 'p \<Rightarrow> 'p \<Rightarrow> 'p qmem" where
  "set_prev_next m p q = set_next m (QUEUE_PREV m p) q"

definition set_next_prev :: "'p qmem \<Rightarrow> 'p \<Rightarrow> 'p \<Rightarrow> 'p qmem" where
  "set_next_prev m p q = set_prev m (QUEUE_NEXT m p) q"

definition QUEUE_EMPTY :: "'p qmem \<Rightarrow> 'p \<Rightarrow> bool" where
  "QUEUE_EMPTY m q \<longleftrightarrow> q = QUEUE_NEXT m q"

definition QUEUE_HEAD :: "'p qmem \<Rightarrow> 'p \<Rightarrow> 'p" where
  "QUEUE_HEAD m q = QUEUE_NEXT m q"

definition QUEUE_INIT :: "'p qmem \<Rightarrow> 'p \<Rightarrow> 'p qmem" where
  "QUEUE_INIT m q = set_prev (set_next m q q) q q"

definition QUEUE_ADD :: "'p qmem \<Rightarrow> 'p \<Rightarrow> 'p \<Rightarrow> 'p qmem" where
  "QUEUE_ADD m h n =
     (let m1 = set_prev_next m h (QUEUE_NEXT m n);
          m2 = set_next_prev m1 n (QUEUE_PREV m1 h);
          m3 = set_prev m2 h (QUEUE_PREV m2 n)
      in set_prev_next m3 h h)"

definition QUEUE_SPLIT :: "'p qmem \<Rightarrow> 'p \<Rightarrow> 'p \<Rightarrow> 'p \<Rightarrow> 'p qmem" where
  "QUEUE_SPLIT m h q n =
     (let m1 = set_prev m n (QUEUE_PREV m h);
          m2 = set_prev_next m1 n n;
          m3 = set_next m2 n q;
          m4 = set_prev m3 h (QUEUE_PREV m3 q);
          m5 = set_prev_next m4 h h
      in set_prev m5 q n)"

definition QUEUE_MOVE :: "'p qmem \<Rightarrow> 'p \<Rightarrow> 'p \<Rightarrow> 'p qmem" where
  "QUEUE_MOVE m h n =
     (if QUEUE_EMPTY m h then QUEUE_INIT m n
      else let q = QUEUE_HEAD m h in QUEUE_SPLIT m h q n)"

definition QUEUE_INSERT_HEAD :: "'p qmem \<Rightarrow> 'p \<Rightarrow> 'p \<Rightarrow> 'p qmem" where
  "QUEUE_INSERT_HEAD m h q =
     (let m1 = set_next m q (QUEUE_NEXT m h);
          m2 = set_prev m1 q h;
          m3 = set_next_prev m2 q q
      in set_next m3 h q)"

definition QUEUE_INSERT_TAIL :: "'p qmem \<Rightarrow> 'p \<Rightarrow> 'p \<Rightarrow> 'p qmem" where
  "QUEUE_INSERT_TAIL m h q =
     (let m1 = set_next m q h;
          m2 = set_prev m1 q (QUEUE_PREV m1 h);
          m3 = set_prev_next m2 q q
      in set_prev m3 h q)"

definition QUEUE_REMOVE :: "'p qmem \<Rightarrow> 'p \<Rightarrow> 'p qmem" where
  "QUEUE_REMOVE m q =
     (let m1 = set_prev_next m q (QUEUE_NEXT m q)
      in set_next_prev m1 q (QUEUE_PREV m1 q))"

text \<open>The nodes \<open>QUEUE_FOREACH(q, h)\<close> visits from \<open>q\<close> on; \<open>None\<close> when the loop does not end.\<close>

partial_function (option) QUEUE_FOREACH :: "'p qmem \<Rightarrow> 'p \<Rightarrow> 'p \<Rightarrow> 'p list option" where
  "QUEUE_FOREACH m h q =
     (if q = h then Some []
      else Option.bind (QUEUE_FOREACH m h (QUEUE_NEXT m q)) (\<lambda>qs. Some (q # qs)))"

section \<open>Rings\<close>

fun seg :: "'p qmem \<Rightarrow> 'p \<Rightarrow> 'p list \<Rightarrow> 'p \<Rightarrow> bool" where
  "seg m a [] b \<longleftrightarrow> QUEUE_NEXT m a = b \<and> QUEUE_PREV m b = a"
| "seg m a (x # xs) b \<longleftrightarrow> QUEUE_NEXT m a = x \<and> QUEUE_PREV m x = a \<and> seg m x xs b"

definition ring :: "'p qmem \<Rightarrow> 'p \<Rightarrow> 'p list \<Rightarrow> bool" where
  "ring m h xs \<longleftrightarrow> distinct (h # xs) \<and> seg m h xs h"

named_theorems qmem_simps "reading the fields after assignments"

lemma qmem_reads [qmem_simps]:
  "QUEUE_NEXT (set_next m p q) = (QUEUE_NEXT m)(p := q)" "QUEUE_PREV (set_next m p q) = QUEUE_PREV m"
  "QUEUE_PREV (set_prev m p q) = (QUEUE_PREV m)(p := q)" "QUEUE_NEXT (set_prev m p q) = QUEUE_NEXT m"
  by (simp_all add: set_next_def set_prev_def)

lemmas [qmem_simps] = set_prev_next_def set_next_prev_def Let_def

lemma seg_append [simp]: "seg m a (xs @ y # ys) b \<longleftrightarrow> seg m a xs y \<and> seg m y ys b"
  by (induction xs arbitrary: a) auto

lemma seg_cong:
  "(\<And>p. p \<in> insert a (set xs) \<Longrightarrow> QUEUE_NEXT m' p = QUEUE_NEXT m p) \<Longrightarrow>
   (\<And>p. p \<in> insert b (set xs) \<Longrightarrow> QUEUE_PREV m' p = QUEUE_PREV m p) \<Longrightarrow> seg m' a xs b = seg m a xs b"
  by (induction xs arbitrary: a) auto

lemma seg_set_next [simp]: "p \<noteq> a \<Longrightarrow> p \<notin> set xs \<Longrightarrow> seg (set_next m p q) a xs b = seg m a xs b"
  by (rule seg_cong) (auto simp: qmem_simps)

lemma seg_set_prev [simp]: "p \<noteq> b \<Longrightarrow> p \<notin> set xs \<Longrightarrow> seg (set_prev m p q) a xs b = seg m a xs b"
  by (rule seg_cong) (auto simp: qmem_simps)

lemma seg_last: "seg m a xs b \<Longrightarrow> QUEUE_PREV m b = last (a # xs)"
  by (induction xs arbitrary: a) auto

lemma seg_first: "seg m a xs b \<Longrightarrow> QUEUE_NEXT m a = hd (xs @ [b])"
  by (cases xs) auto

lemma ring_cong:
  assumes "\<And>p. p \<in> set (h # xs) \<Longrightarrow> QUEUE_NEXT m' p = QUEUE_NEXT m p \<and> QUEUE_PREV m' p = QUEUE_PREV m p"
  shows "ring m' h xs = ring m h xs"
proof -
  have "seg m' h xs h = seg m h xs h" using assms by (intro seg_cong) auto
  then show ?thesis by (simp add: ring_def)
qed

lemma ring_INIT: "ring (QUEUE_INIT m h) h []"
  by (simp add: QUEUE_INIT_def ring_def qmem_simps)

lemma ring_EMPTY: "ring m h xs \<Longrightarrow> QUEUE_EMPTY m h \<longleftrightarrow> xs = []"
  by (cases xs) (auto simp: ring_def QUEUE_EMPTY_def)

lemma ring_HEAD: "ring m h (x # xs) \<Longrightarrow> QUEUE_HEAD m h = x"
  by (simp add: ring_def QUEUE_HEAD_def)

text \<open>The ring seen with its last node apart.\<close>

lemma ring_snoc_cases [consumes 1, case_names empty snoc]:
  assumes "ring m h xs"
  obtains "xs = []" "QUEUE_NEXT m h = h" "QUEUE_PREV m h = h"
  | ys y where "xs = ys @ [y]" "QUEUE_PREV m h = y" "QUEUE_NEXT m y = h" "seg m h ys y"
proof (cases xs rule: rev_cases)
  case Nil
  with assms that(1) show ?thesis by (simp add: ring_def)
next
  case (snoc ys y)
  with assms that(2) show ?thesis by (simp add: ring_def)
qed

lemma ring_INSERT_TAIL:
  assumes "ring m h xs" "q \<notin> set (h # xs)"
  shows "ring (QUEUE_INSERT_TAIL m h q) h (xs @ [q])"
  using assms(1)
proof (cases rule: ring_snoc_cases)
  case empty
  with assms show ?thesis by (auto simp: QUEUE_INSERT_TAIL_def ring_def qmem_simps)
next
  case (snoc ys y)
  with assms show ?thesis by (auto simp: QUEUE_INSERT_TAIL_def ring_def qmem_simps)
qed

lemma ring_INSERT_HEAD:
  assumes "ring m h xs" "q \<notin> set (h # xs)"
  shows "ring (QUEUE_INSERT_HEAD m h q) h (q # xs)"
  using assms by (cases xs) (auto simp: QUEUE_INSERT_HEAD_def ring_def qmem_simps)

lemma ring_REMOVE:
  assumes "ring m h (xs @ q # ys)"
  shows "ring (QUEUE_REMOVE m q) h (xs @ ys)"
proof -
  from assms have s: "seg m h xs q" "seg m q ys h" "distinct (h # xs @ q # ys)" by (auto simp: ring_def)
  show ?thesis
  proof (cases xs rule: rev_cases)
    case Nil
    with s show ?thesis by (cases ys) (auto simp: QUEUE_REMOVE_def ring_def qmem_simps)
  next
    case (snoc zs z)
    with s show ?thesis by (cases ys) (auto simp: QUEUE_REMOVE_def ring_def qmem_simps)
  qed
qed

lemma SPLIT_fields:
  assumes "q \<noteq> n" "h \<noteq> n"
  shows "QUEUE_NEXT (QUEUE_SPLIT m h q n) = (QUEUE_NEXT m)(QUEUE_PREV m h := n, n := q, QUEUE_PREV m q := h)"
    "QUEUE_PREV (QUEUE_SPLIT m h q n) = (QUEUE_PREV m)(n := QUEUE_PREV m h, h := QUEUE_PREV m q, q := n)"
  using assms by (simp_all add: QUEUE_SPLIT_def qmem_simps)

lemma seg_last_cases [consumes 1, case_names nil snoc]:
  assumes "seg m a xs b"
  obtains "xs = []" "QUEUE_NEXT m a = b" "QUEUE_PREV m b = a"
  | ys y where "xs = ys @ [y]" "seg m a ys y" "QUEUE_NEXT m y = b" "QUEUE_PREV m b = y"
  using assms that by (cases xs rule: rev_cases) auto

lemma ring_SPLIT:
  assumes "ring m h (xs @ q # ys)" "n \<notin> set (h # xs @ q # ys)"
  shows "ring (QUEUE_SPLIT m h q n) h xs" "ring (QUEUE_SPLIT m h q n) n (q # ys)"
proof -
  from assms have s: "seg m h xs q" "seg m q ys h" and d: "distinct (h # xs @ q # ys)" by (auto simp: ring_def)
  have n: "q \<noteq> n" "h \<noteq> n" using assms(2) by auto
  let ?m = "QUEUE_SPLIT m h q n"
  note f = SPLIT_fields [OF n, of m]
  have l: "QUEUE_PREV m h \<in> insert q (set ys)" using s(2) by (cases rule: seg_last_cases) auto
  have k: "QUEUE_PREV m q \<in> insert h (set xs)" using s(1) by (cases rule: seg_last_cases) auto
  from s(1) show "ring ?m h xs"
  proof (cases rule: seg_last_cases)
    case nil
    with d n show ?thesis by (simp add: ring_def f)
  next
    case (snoc zs z)
    then have "seg ?m h zs z" using d n l assms(2) by (subst seg_cong [of _ _ _ m]) (auto simp: f)
    with snoc d n show ?thesis by (auto simp: ring_def f)
  qed
  from s(2) show "ring ?m n (q # ys)"
  proof (cases rule: seg_last_cases)
    case nil
    with d n k assms(2) show ?thesis by (auto simp: ring_def f)
  next
    case (snoc zs z)
    then have "seg ?m q zs z" using d n k assms(2) by (subst seg_cong [of _ _ _ m]) (auto simp: f)
    with snoc d n k assms(2) show ?thesis by (auto simp: ring_def f)
  qed
qed

lemma ring_MOVE:
  assumes "ring m h xs" "n \<notin> set (h # xs)"
  shows "ring (QUEUE_MOVE m h n) h []" "ring (QUEUE_MOVE m h n) n xs"
proof -
  have "ring (QUEUE_MOVE m h n) h [] \<and> ring (QUEUE_MOVE m h n) n xs"
  proof (cases xs)
    case Nil
    with assms show ?thesis
      by (auto simp: QUEUE_MOVE_def QUEUE_EMPTY_def QUEUE_INIT_def ring_def qmem_simps)
  next
    case (Cons x ys)
    with assms ring_SPLIT [of m h "[]" x ys n] show ?thesis
      by (simp add: QUEUE_MOVE_def ring_EMPTY ring_HEAD Let_def)
  qed
  then show "ring (QUEUE_MOVE m h n) h []" "ring (QUEUE_MOVE m h n) n xs" by auto
qed

text \<open>\<open>QUEUE_ADD\<close> appends the nodes of the second queue; its head is left pointing into the first.\<close>

lemma ring_ADD:
  assumes "ring m h xs" "ring m n ys" "set (h # xs) \<inter> set (n # ys) = {}"
  shows "ring (QUEUE_ADD m h n) h (xs @ ys)"
proof -
  have d: "distinct (h # xs)" "distinct (n # ys)" "seg m h xs h" "seg m n ys n"
    using assms(1,2) by (auto simp: ring_def)
  let ?m = "QUEUE_ADD m h n"
  have l: "QUEUE_PREV m h \<in> insert h (set xs)" using d(3) by (cases rule: seg_last_cases) auto
  show ?thesis
  proof (cases ys rule: rev_cases)
    case Nil
    with d have n: "QUEUE_NEXT m n = n" "QUEUE_PREV m n = n" by auto
    have "n \<noteq> QUEUE_PREV m h" "n \<noteq> h" using l assms(3) by auto
    with n have f: "QUEUE_NEXT ?m = (QUEUE_NEXT m)(QUEUE_PREV m h := h)"
      "QUEUE_PREV ?m = (QUEUE_PREV m)(n := QUEUE_PREV m h)"
      by (auto simp: QUEUE_ADD_def qmem_simps)
    have "QUEUE_NEXT m (QUEUE_PREV m h) = h" using d(3) by (cases rule: seg_last_cases) auto
    then have "seg ?m h xs h = seg m h xs h"
      using assms(3) by (intro seg_cong) (auto simp: f)
    with d Nil show ?thesis by (simp add: ring_def)
  next
    case (snoc zs z)
    with d have z: "QUEUE_PREV m n = z" "QUEUE_NEXT m z = n" "seg m n zs z" by auto
    have ne: "n \<noteq> QUEUE_PREV m h" "n \<noteq> h" "z \<noteq> h" "z \<noteq> n" "QUEUE_NEXT m n \<noteq> h" "QUEUE_NEXT m n \<noteq> n"
      using l assms(3) d(2,4) snoc seg_first [OF z(3)] by (cases zs; auto)+
    then have f: "QUEUE_NEXT ?m = (QUEUE_NEXT m)(QUEUE_PREV m h := QUEUE_NEXT m n, z := h)"
      "QUEUE_PREV ?m = (QUEUE_PREV m)(QUEUE_NEXT m n := QUEUE_PREV m h, h := z)"
      by (auto simp: QUEUE_ADD_def qmem_simps z)
    obtain y ys' where y: "ys = y # ys'" using snoc by (metis list.exhaust snoc_eq_iff_butlast)
    with d(4) have y1: "QUEUE_NEXT m n = y" "seg m y ys' n" by auto
    have dis: "y \<notin> insert h (set xs)" "z \<notin> insert h (set xs)" "\<forall>p \<in> set ys'. p \<notin> insert h (set xs)"
    proof -
      have "z \<in> set ys" using snoc by simp
      then show "y \<notin> insert h (set xs)" "z \<notin> insert h (set xs)" "\<forall>p \<in> set ys'. p \<notin> insert h (set xs)"
        using assms(3) y by auto
    qed
    have "seg ?m h xs y"
      using d(3)
    proof (cases rule: seg_last_cases)
      case nil
      with dis y1 show ?thesis by (simp add: f)
    next
      case (snoc ws w)
      then have "seg ?m h ws w" using d(1) dis y1 by (subst seg_cong [of _ _ _ m]) (auto simp: f)
      with snoc dis y1 show ?thesis by (auto simp: f)
    qed
    moreover have "seg ?m y ys' h"
      using y1(2)
    proof (cases rule: seg_last_cases)
      case nil
      with z y1 show ?thesis by (simp add: f)
    next
      case (snoc ws w)
      then have w: "w = z" using z by simp
      with snoc have "seg ?m y ws w"
        using d(2) y dis l y1 by (subst seg_cong [of _ _ _ m]) (auto simp: f)
      with snoc w show ?thesis by (simp add: f)
    qed
    ultimately show ?thesis using d(1,2) assms(3) y by (auto simp: ring_def)
  qed
qed

section \<open>Other queues are left alone\<close>

lemma INSERT_TAIL_frame:
  assumes "ring m n ys" "ring m h xs" "set (h # xs) \<inter> set (n # ys) = {}" "q \<notin> set (n # ys)"
  shows "ring (QUEUE_INSERT_TAIL m h q) n ys"
proof -
  have l: "QUEUE_PREV m h \<in> insert h (set xs)"
    using assms(2) by (cases rule: ring_snoc_cases) auto
  have "ring (QUEUE_INSERT_TAIL m h q) n ys = ring m n ys"
    using assms(3,4) l by (intro ring_cong) (auto simp: QUEUE_INSERT_TAIL_def qmem_simps)
  with assms(1) show ?thesis by simp
qed

lemma INSERT_HEAD_frame:
  assumes "ring m n ys" "ring m h xs" "set (h # xs) \<inter> set (n # ys) = {}" "q \<notin> set (n # ys)"
  shows "ring (QUEUE_INSERT_HEAD m h q) n ys"
proof -
  have l: "QUEUE_NEXT m h \<in> insert h (set xs)"
    using assms(2) by (cases xs) (auto simp: ring_def)
  have "ring (QUEUE_INSERT_HEAD m h q) n ys = ring m n ys"
    using assms(3,4) l by (intro ring_cong) (auto simp: QUEUE_INSERT_HEAD_def qmem_simps)
  with assms(1) show ?thesis by simp
qed

lemma REMOVE_frame:
  assumes "ring m n zs" "ring m h (xs @ q # ys)" "set (h # xs @ q # ys) \<inter> set (n # zs) = {}"
  shows "ring (QUEUE_REMOVE m q) n zs"
proof -
  from assms(2) have s: "seg m h xs q" "seg m q ys h" by (auto simp: ring_def)
  have p: "QUEUE_PREV m q \<in> set (h # xs)" using s(1) by (cases rule: seg_last_cases) auto
  have n: "QUEUE_NEXT m q \<in> set (h # ys)" using s(2) by (cases ys) auto
  have "ring (QUEUE_REMOVE m q) n zs = ring m n zs"
    using assms(3) p n by (intro ring_cong) (auto simp: QUEUE_REMOVE_def qmem_simps)
  with assms(1) show ?thesis by simp
qed

lemma MOVE_frame:
  assumes "ring m k zs" "ring m h xs" "set (h # xs) \<inter> set (k # zs) = {}" "n \<notin> set (h # xs)" "n \<notin> set (k # zs)"
  shows "ring (QUEUE_MOVE m h n) k zs"
proof -
  have "ring (QUEUE_MOVE m h n) k zs = ring m k zs"
  proof (cases xs)
    case Nil
    then have "QUEUE_MOVE m h n = QUEUE_INIT m n"
      using assms(2) by (simp add: QUEUE_MOVE_def ring_EMPTY)
    then show ?thesis using assms(5) by (intro ring_cong) (auto simp: QUEUE_INIT_def qmem_simps)
  next
    case (Cons x ys)
    then have x: "QUEUE_PREV m x = h" "QUEUE_HEAD m h = x" "\<not> QUEUE_EMPTY m h" "x \<noteq> n" "h \<noteq> n"
      using assms(2,4) by (auto simp: ring_def QUEUE_HEAD_def QUEUE_EMPTY_def)
    have l: "QUEUE_PREV m h \<in> set (h # xs)" using assms(2) by (cases rule: ring_snoc_cases) auto
    show ?thesis
      using assms(3,5) x l Cons SPLIT_fields [OF x(4,5), of m]
      by (intro ring_cong) (auto simp: QUEUE_MOVE_def)
  qed
  with assms(1) show ?thesis by simp
qed

lemma QUEUE_FOREACH_ring: "ring m h xs \<Longrightarrow> QUEUE_FOREACH m h (QUEUE_NEXT m h) = Some xs"
proof -
  have "seg m a xs h \<Longrightarrow> h \<notin> set xs \<Longrightarrow> QUEUE_FOREACH m h (QUEUE_NEXT m a) = Some xs" for a
    by (induction xs arbitrary: a) (auto simp: QUEUE_FOREACH.simps [of _ h h] QUEUE_FOREACH.simps [of _ h])
  then show "ring m h xs \<Longrightarrow> ?thesis" by (simp add: ring_def)
qed

section \<open>The contract\<close>

text \<open>
  What a user of the queues relies on: \<open>Q m h xs\<close> reads the queue with head \<open>h\<close> as a list, every
  operation acts on that list, and it leaves a queue with other nodes alone.
\<close>

locale intrusive_queue =
  fixes Q :: "'m \<Rightarrow> 'p \<Rightarrow> 'p list \<Rightarrow> bool"
    and init :: "'m \<Rightarrow> 'p \<Rightarrow> 'm"
    and empty :: "'m \<Rightarrow> 'p \<Rightarrow> bool"
    and head :: "'m \<Rightarrow> 'p \<Rightarrow> 'p"
    and insert_tail :: "'m \<Rightarrow> 'p \<Rightarrow> 'p \<Rightarrow> 'm"
    and remove :: "'m \<Rightarrow> 'p \<Rightarrow> 'm"
    and move :: "'m \<Rightarrow> 'p \<Rightarrow> 'p \<Rightarrow> 'm"
  assumes Q_distinct: "Q m h xs \<Longrightarrow> distinct (h # xs)"
    and init: "Q (init m h) h []"
    and empty: "Q m h xs \<Longrightarrow> empty m h \<longleftrightarrow> xs = []"
    and head: "Q m h (x # xs) \<Longrightarrow> head m h = x"
    and insert_tail: "Q m h xs \<Longrightarrow> q \<notin> set (h # xs) \<Longrightarrow> Q (insert_tail m h q) h (xs @ [q])"
    and remove: "Q m h (xs @ q # ys) \<Longrightarrow> Q (remove m q) h (xs @ ys)"
    and move: "Q m h xs \<Longrightarrow> n \<notin> set (h # xs) \<Longrightarrow> Q (move m h n) h [] \<and> Q (move m h n) n xs"
    and insert_tail_frame: "Q m n ys \<Longrightarrow> Q m h xs \<Longrightarrow> set (h # xs) \<inter> set (n # ys) = {} \<Longrightarrow>
      q \<notin> set (n # ys) \<Longrightarrow> Q (insert_tail m h q) n ys"
    and remove_frame: "Q m n zs \<Longrightarrow> Q m h (xs @ q # ys) \<Longrightarrow>
      set (h # xs @ q # ys) \<inter> set (n # zs) = {} \<Longrightarrow> Q (remove m q) n zs"
begin

text \<open>
  One pass of the loops that libuv runs over a queue moved aside: the first node goes from the
  private queue \<open>n\<close> to the end of the public one.
\<close>

definition rotate :: "'m \<Rightarrow> 'p \<Rightarrow> 'p \<Rightarrow> 'm" where
  "rotate m h n = insert_tail (remove m (head m n)) h (head m n)"

lemma rotate:
  assumes "Q m h xs" "Q m n (y # ys)" "set (h # xs) \<inter> set (n # y # ys) = {}"
  shows "Q (rotate m h n) h (xs @ [y]) \<and> Q (rotate m h n) n ys"
proof -
  have hd: "head m n = y" using assms(2) by (rule head)
  have r: "Q (remove m y) n ys" using remove [of m n "[]" y ys] assms(2) by simp
  have f: "Q (remove m y) h xs"
    using remove_frame [of m h xs n "[]" y ys] assms by (simp add: Int_commute)
  have "distinct (n # y # ys)" using assms(2) by (rule Q_distinct)
  with r f assms(3) show ?thesis
    unfolding rotate_def hd using insert_tail [OF f, of y] insert_tail_frame [OF r f, of y] by auto
qed

text \<open>Draining the private queue gives the public one all nodes, in the old order.\<close>

lemma rotate_all:
  assumes "Q m h xs" "Q m n ys" "set (h # xs) \<inter> set (n # ys) = {}"
  shows "Q (((\<lambda>m. rotate m h n) ^^ length ys) m) h (xs @ ys) \<and> Q (((\<lambda>m. rotate m h n) ^^ length ys) m) n []"
  using assms
proof (induction ys arbitrary: m xs)
  case (Cons y ys)
  note d = Q_distinct [OF Cons.prems(2)]
  have "Q (rotate m h n) h (xs @ [y])" "Q (rotate m h n) n ys"
    using rotate [OF Cons.prems] by auto
  from Cons.IH [OF this] Cons.prems(3) d show ?case
    by (simp add: funpow_Suc_right del: funpow.simps)
qed simp

lemma move_rotate_all:
  assumes "Q m h xs" "n \<notin> set (h # xs)"
  shows "Q (((\<lambda>m. rotate m h n) ^^ length xs) (move m h n)) h xs"
  using rotate_all [of "move m h n" h "[]" n xs] move [OF assms] assms(2) Q_distinct [OF assms(1)] by auto

end

interpretation uvq: intrusive_queue ring QUEUE_INIT QUEUE_EMPTY QUEUE_HEAD QUEUE_INSERT_TAIL QUEUE_REMOVE QUEUE_MOVE
proof unfold_locales
  fix m :: "'p qmem" and h n q x xs ys zs
  show "ring m h xs \<Longrightarrow> distinct (h # xs)" by (simp add: ring_def)
  show "ring (QUEUE_INIT m h) h []" by (rule ring_INIT)
  show "ring m h xs \<Longrightarrow> QUEUE_EMPTY m h \<longleftrightarrow> xs = []" by (rule ring_EMPTY)
  show "ring m h (x # xs) \<Longrightarrow> QUEUE_HEAD m h = x" by (rule ring_HEAD)
  show "ring m h xs \<Longrightarrow> q \<notin> set (h # xs) \<Longrightarrow> ring (QUEUE_INSERT_TAIL m h q) h (xs @ [q])"
    by (rule ring_INSERT_TAIL)
  show "ring m h (xs @ q # ys) \<Longrightarrow> ring (QUEUE_REMOVE m q) h (xs @ ys)" by (rule ring_REMOVE)
  show "ring m h xs \<Longrightarrow> n \<notin> set (h # xs) \<Longrightarrow> ring (QUEUE_MOVE m h n) h [] \<and> ring (QUEUE_MOVE m h n) n xs"
    by (blast intro: ring_MOVE)
  show "ring m n ys \<Longrightarrow> ring m h xs \<Longrightarrow> set (h # xs) \<inter> set (n # ys) = {} \<Longrightarrow> q \<notin> set (n # ys) \<Longrightarrow>
      ring (QUEUE_INSERT_TAIL m h q) n ys" by (rule INSERT_TAIL_frame)
  show "ring m n zs \<Longrightarrow> ring m h (xs @ q # ys) \<Longrightarrow> set (h # xs @ q # ys) \<inter> set (n # zs) = {} \<Longrightarrow>
      ring (QUEUE_REMOVE m q) n zs" by (rule REMOVE_frame)
qed

end
