(* ===== verification/Uv_Heap.thy ===== *)
theory Uv_Heap
  imports Prelude
begin

text \<open>
  The intrusive binary heap of libuv (src/third-party/libuv-1.11.0/src/heap-inl.h), which holds the
  timers.  A node is an address with three pointer fields, \<open>NULL\<close> is \<open>None\<close>, a pointer to a pointer
  is a \<open>slot\<close>.  \<open>lt\<close> is the comparison the caller passes.  The loops that move a node are
  partial functions, \<open>None\<close> standing for a loop that does not end; the lemmas show that they end.

  \<open>heap_rep m at n\<close> reads a heap as the complete tree whose node at position \<open>i\<close> (1 is the root, the
  children of \<open>i\<close> are \<open>2 * i\<close> and \<open>2 * i + 1\<close>) is \<open>at i\<close>.
\<close>

unbundle bit_operations_syntax

section \<open>The code\<close>

record 'p heap =
  left :: "'p \<Rightarrow> 'p option"
  right :: "'p \<Rightarrow> 'p option"
  parent :: "'p \<Rightarrow> 'p option"
  heap_root :: "'p option"
  nelts :: u32

definition heap_init :: "'p heap \<Rightarrow> 'p heap" where
  "heap_init m = m\<lparr>heap_root := None, nelts := 0\<rparr>"

definition heap_min :: "'p heap \<Rightarrow> 'p option" where
  "heap_min m = heap_root m"

definition set_parent :: "'p option \<Rightarrow> 'p \<Rightarrow> 'p heap \<Rightarrow> 'p heap" where
  "set_parent q p m = (case q of None \<Rightarrow> m | Some c \<Rightarrow> m\<lparr>parent := (parent m)(c := Some p)\<rparr>)"

definition heap_node_swap :: "'p heap \<Rightarrow> 'p \<Rightarrow> 'p \<Rightarrow> 'p heap" where
  "heap_node_swap m par child =
     (let m1 = m\<lparr>left := (left m)(par := left m child, child := left m par),
                right := (right m)(par := right m child, child := right m par),
                parent := (parent m)(par := parent m child, child := parent m par)\<rparr>;
          m2 = m1\<lparr>parent := (parent m1)(par := Some child)\<rparr>;
          (m3, sibling) =
            (if left m2 child = Some child
             then (m2\<lparr>left := (left m2)(child := Some par)\<rparr>, right m2 child)
             else (m2\<lparr>right := (right m2)(child := Some par)\<rparr>, left m2 child));
          m4 = set_parent sibling child m3;
          m5 = set_parent (left m4 par) par m4;
          m6 = set_parent (right m5 par) par m5
      in case parent m6 child of
           None \<Rightarrow> m6\<lparr>heap_root := Some child\<rparr>
         | Some g \<Rightarrow>
             if left m6 g = Some par then m6\<lparr>left := (left m6)(g := Some child)\<rparr>
             else m6\<lparr>right := (right m6)(g := Some child)\<rparr>)"

text \<open>The loop that computes the path to position \<open>n\<close>, its steps in the low bits first.\<close>

function heap_path :: "u32 \<Rightarrow> nat \<Rightarrow> u32 \<Rightarrow> u32 \<times> nat" where
  "heap_path path k n =
     (if n \<ge> 2 then heap_path (push_bit 1 path OR (n AND 1)) (k + 1) (n div 2) else (path, k))"
  by pat_completeness auto
termination
proof (relation "measure (\<lambda>(_, _, n). unat n)")
  fix path n :: u32 and k
  assume "2 \<le> n"
  then have "2 \<le> unat n" by (simp add: word_le_nat_alt)
  then show "((push_bit 1 path OR (n AND 1), k + 1, n div 2), path, k, n) \<in> measure (\<lambda>(_, _, n). unat n)"
    by (simp add: unat_div)
qed simp

declare heap_path.simps [simp del]

datatype 'p slot = Min_slot | Left_slot 'p | Right_slot 'p

fun read_slot :: "'p heap \<Rightarrow> 'p slot \<Rightarrow> 'p option" where
  "read_slot m Min_slot = heap_root m"
| "read_slot m (Left_slot p) = left m p"
| "read_slot m (Right_slot p) = right m p"

fun write_slot :: "'p heap \<Rightarrow> 'p slot \<Rightarrow> 'p option \<Rightarrow> 'p heap" where
  "write_slot m Min_slot v = m\<lparr>heap_root := v\<rparr>"
| "write_slot m (Left_slot p) v = m\<lparr>left := (left m)(p := v)\<rparr>"
| "write_slot m (Right_slot p) v = m\<lparr>right := (right m)(p := v)\<rparr>"

text \<open>
  The traversal along a path: the slot before the last step and the last slot.
\<close>

fun heap_walk :: "'p heap \<Rightarrow> 'p slot \<Rightarrow> 'p slot \<Rightarrow> u32 \<Rightarrow> nat \<Rightarrow> ub + 'p slot \<times> 'p slot" where
  "heap_walk m par child path 0 = Inr (par, child)"
| "heap_walk m par child path (Suc k) =
     (case read_slot m child of
        None \<Rightarrow> Inl Null_dereference
      | Some c \<Rightarrow>
          heap_walk m child (if path AND 1 \<noteq> 0 then Right_slot c else Left_slot c) (drop_bit 1 path) k)"

partial_function (option) heap_up :: "('p \<Rightarrow> 'p \<Rightarrow> bool) \<Rightarrow> 'p heap \<Rightarrow> 'p \<Rightarrow> 'p heap option" where
  "heap_up lt m node =
     (case parent m node of
        None \<Rightarrow> Some m
      | Some p \<Rightarrow> if lt node p then heap_up lt (heap_node_swap m p node) node else Some m)"

definition smaller :: "('p \<Rightarrow> 'p \<Rightarrow> bool) \<Rightarrow> 'p option \<Rightarrow> 'p \<Rightarrow> 'p" where
  "smaller lt q s = (case q of None \<Rightarrow> s | Some c \<Rightarrow> if lt c s then c else s)"

partial_function (option) heap_down :: "('p \<Rightarrow> 'p \<Rightarrow> bool) \<Rightarrow> 'p heap \<Rightarrow> 'p \<Rightarrow> 'p heap option" where
  "heap_down lt m child =
     (let s1 = smaller lt (left m child) child;
          smallest = smaller lt (right m child) s1
      in if smallest = child then Some m
         else heap_down lt (heap_node_swap m child smallest) child)"

definition heap_insert :: "('p \<Rightarrow> 'p \<Rightarrow> bool) \<Rightarrow> 'p heap \<Rightarrow> 'p \<Rightarrow> (ub + 'p heap) option" where
  "heap_insert lt m newnode =
     (let m0 = m\<lparr>left := (left m)(newnode := None), right := (right m)(newnode := None),
                parent := (parent m)(newnode := None)\<rparr>;
          (path, k) = heap_path 0 0 (1 + nelts m0)
      in case heap_walk m0 Min_slot Min_slot path k of
           Inl u \<Rightarrow> Some (Inl u)
         | Inr (par, child) \<Rightarrow>
             let m1 = m0\<lparr>parent := (parent m0)(newnode := read_slot m0 par)\<rparr>;
                 m2 = write_slot m1 child (Some newnode);
                 m3 = m2\<lparr>nelts := nelts m2 + 1\<rparr>
             in map_option Inr (heap_up lt m3 newnode))"

definition heap_replace :: "'p heap \<Rightarrow> 'p \<Rightarrow> 'p \<Rightarrow> 'p heap" where
  "heap_replace m node child =
     (let m1 = m\<lparr>left := (left m)(child := left m node), right := (right m)(child := right m node),
                parent := (parent m)(child := parent m node)\<rparr>;
          m2 = set_parent (left m1 child) child m1;
          m3 = set_parent (right m2 child) child m2
      in case parent m3 node of
           None \<Rightarrow> m3\<lparr>heap_root := Some child\<rparr>
         | Some g \<Rightarrow>
             if left m3 g = Some node then m3\<lparr>left := (left m3)(g := Some child)\<rparr>
             else m3\<lparr>right := (right m3)(g := Some child)\<rparr>)"

definition heap_remove :: "('p \<Rightarrow> 'p \<Rightarrow> bool) \<Rightarrow> 'p heap \<Rightarrow> 'p \<Rightarrow> (ub + 'p heap) option" where
  "heap_remove lt m node =
     (if nelts m = 0 then Some (Inr m)
      else
        let (path, k) = heap_path 0 0 (nelts m)
        in case heap_walk m Min_slot Min_slot path k of
             Inl u \<Rightarrow> Some (Inl u)
           | Inr (_, mx) \<Rightarrow>
               let m1 = m\<lparr>nelts := nelts m - 1\<rparr>
               in case read_slot m1 mx of
                    None \<Rightarrow> Some (Inl Null_dereference)
                  | Some child \<Rightarrow>
                      let m2 = write_slot m1 mx None
                      in if child = node then
                           Some (Inr (if heap_root m2 = Some child then m2\<lparr>heap_root := None\<rparr> else m2))
                         else
                           Option.bind (heap_down lt (heap_replace m2 node child) child) (\<lambda>m3.
                             map_option Inr (heap_up lt m3 child)))"

definition heap_dequeue :: "('p \<Rightarrow> 'p \<Rightarrow> bool) \<Rightarrow> 'p heap \<Rightarrow> (ub + 'p heap) option" where
  "heap_dequeue lt m =
     (case heap_root m of
        None \<Rightarrow>
          if nelts m = 0 then Some (Inr m)
          else if nelts m = 1 then Some (Inr (m\<lparr>nelts := 0\<rparr>))
          else Some (Inl Null_dereference)
      | Some r \<Rightarrow> heap_remove lt m r)"

section \<open>The shape\<close>

definition node_at :: "(nat \<Rightarrow> 'p) \<Rightarrow> nat \<Rightarrow> nat \<Rightarrow> 'p option" where
  "node_at at n i = (if 1 \<le> i \<and> i \<le> n then Some (at i) else None)"

definition heap_rep :: "'p heap \<Rightarrow> (nat \<Rightarrow> 'p) \<Rightarrow> nat \<Rightarrow> bool" where
  "heap_rep m at n \<longleftrightarrow>
     unat (nelts m) = n \<and> heap_root m = node_at at n 1 \<and> inj_on at {1..n} \<and>
     (\<forall>i \<in> {1..n}. left m (at i) = node_at at n (2 * i) \<and> right m (at i) = node_at at n (2 * i + 1) \<and>
        parent m (at i) = node_at at n (i div 2))"

lemma node_at_simps [simp]:
  "1 \<le> i \<Longrightarrow> i \<le> n \<Longrightarrow> node_at at n i = Some (at i)" "node_at at n 0 = None" "n < i \<Longrightarrow> node_at at n i = None"
  by (simp_all add: node_at_def)

lemma heap_repD:
  assumes "heap_rep m at n" "1 \<le> i" "i \<le> n"
  shows "left m (at i) = node_at at n (2 * i)" "right m (at i) = node_at at n (2 * i + 1)"
    "parent m (at i) = node_at at n (i div 2)"
  using assms unfolding heap_rep_def by auto

lemma heap_rep_inj: "heap_rep m at n \<Longrightarrow> inj_on at {1..n}"
  unfolding heap_rep_def by blast

lemma heap_rep_root: "heap_rep m at n \<Longrightarrow> heap_root m = node_at at n 1"
  unfolding heap_rep_def by blast

lemma at_eq:
  assumes "heap_rep m at n" "1 \<le> i" "i \<le> n" "1 \<le> j" "j \<le> n"
  shows "at i = at j \<longleftrightarrow> i = j"
proof -
  have "inj_on at {1..n}" using assms(1) unfolding heap_rep_def by blast
  then show ?thesis using assms(2-) by (intro inj_on_eq_iff) auto
qed


text \<open>The node at \<open>c\<close> and its parent change places.\<close>

definition swap_at :: "(nat \<Rightarrow> 'p) \<Rightarrow> nat \<Rightarrow> nat \<Rightarrow> nat \<Rightarrow> 'p" where
  "swap_at at i c = at(i := at c, c := at i)"

definition upd_opt :: "'p option \<Rightarrow> 'v \<Rightarrow> ('p \<Rightarrow> 'v) \<Rightarrow> 'p \<Rightarrow> 'v" where
  "upd_opt q v f = (case q of None \<Rightarrow> f | Some p \<Rightarrow> f(p := v))"

lemma upd_opt_apply [simp]: "upd_opt q v f x = (if q = Some x then v else f x)"
  by (auto simp: upd_opt_def split: option.splits)

lemma set_parent_sel [simp]:
  "parent (set_parent q p m) = upd_opt q (Some p) (parent m)" "left (set_parent q p m) = left m"
  "right (set_parent q p m) = right m" "heap_root (set_parent q p m) = heap_root m" "nelts (set_parent q p m) = nelts m"
  by (auto simp: set_parent_def upd_opt_def split: option.splits)

text \<open>The fields after a swap, for distinct nodes in the right relation.\<close>

lemma swap_eqs:
  assumes "P \<noteq> C" "parent m P \<noteq> Some P" "parent m P \<noteq> Some C"
    and "left m C \<notin> {Some P, Some C}" "right m C \<notin> {Some P, Some C}"
    and "S = (if left m P = Some C then right m P else left m P)" "S \<notin> {Some P, Some C}"
  shows "left (heap_node_swap m P C) = (case parent m P of None \<Rightarrow> id
        | Some g \<Rightarrow> if left m g = Some P then (\<lambda>f. f(g := Some C)) else id)
      ((left m)(P := left m C, C := if left m P = Some C then Some P else left m P))"
    and "right (heap_node_swap m P C) = (case parent m P of None \<Rightarrow> id
        | Some g \<Rightarrow> if left m g = Some P then id else (\<lambda>f. f(g := Some C)))
      ((right m)(P := right m C, C := if left m P = Some C then right m P else Some P))"
    and "parent (heap_node_swap m P C) = upd_opt (right m C) (Some P) (upd_opt (left m C) (Some P)
      (upd_opt S (Some C) ((parent m)(P := Some C, C := parent m P))))"
    and "heap_root (heap_node_swap m P C) = (if parent m P = None then Some C else heap_root m)"
    and "nelts (heap_node_swap m P C) = nelts m"
  using assms by (auto simp: heap_node_swap_def Let_def split: option.splits)

definition sibling :: "nat \<Rightarrow> nat" where
  "sibling c = (if even c then c + 1 else c - 1)"

lemma sibling_pos:
  assumes "i = c div 2"
  shows "even c \<Longrightarrow> sibling c = Suc (2 * i)" "odd c \<Longrightarrow> sibling c = 2 * i" "sibling c div 2 = i" "sibling c \<noteq> c"
  using assms by (auto simp: sibling_def elim: oddE)

lemma node_at_eq:
  assumes "heap_rep m at n" "1 \<le> k" "k \<le> n"
  shows "node_at at n j = Some (at k) \<longleftrightarrow> j = k"
  using assms at_eq [OF assms(1), of j k] by (auto simp: node_at_def)

lemma parent_side:
  assumes "heap_rep m at n" "2 \<le> c" "c \<le> n"
  shows "left m (at (c div 2)) = Some (at c) \<longleftrightarrow> even c"
proof -
  have "2 * (c div 2) = c \<longleftrightarrow> even c" by presburger
  then show ?thesis
    using heap_repD(1) [OF assms(1), of "c div 2"] node_at_eq [OF assms(1), of c "2 * (c div 2)"] assms by simp
qed

text \<open>The fields after the swap of position \<open>c\<close> with its parent \<open>i\<close>.\<close>

lemma swap_reads:
  assumes rep: "heap_rep m at n" and c: "2 \<le> c" "c \<le> n" and i: "i = c div 2"
  defines "m' \<equiv> heap_node_swap m (at i) (at c)"
  shows "left m' x = (if 2 \<le> i \<and> x = at (i div 2) \<and> even i then Some (at c)
      else if x = at c then if even c then Some (at i) else node_at at n (2 * i)
      else if x = at i then node_at at n (2 * c) else left m x)"
    and "right m' x = (if 2 \<le> i \<and> x = at (i div 2) \<and> odd i then Some (at c)
      else if x = at c then if even c then node_at at n (2 * i + 1) else Some (at i)
      else if x = at i then node_at at n (2 * c + 1) else right m x)"
    and "parent m' x = (if node_at at n (2 * c + 1) = Some x \<or> node_at at n (2 * c) = Some x then Some (at i)
      else if node_at at n (sibling c) = Some x then Some (at c) else if x = at c then node_at at n (i div 2)
      else if x = at i then Some (at c) else parent m x)"
    and "heap_root m' = (if i = 1 then Some (at c) else heap_root m)" and "nelts m' = nelts m"
proof -
  let ?P = "at i" and ?C = "at c"
  have i1: "1 \<le> i" "i < c" "i \<le> n" "1 \<le> c" using c i by auto
  note NA = node_at_eq [OF rep]
  have lP: "left m ?P = node_at at n (2 * i)" "right m ?P = node_at at n (2 * i + 1)"
    "parent m ?P = node_at at n (i div 2)" using heap_repD [OF rep, of i] i1 by auto
  have lC: "left m ?C = node_at at n (2 * c)" "right m ?C = node_at at n (2 * c + 1)"
    using heap_repD [OF rep, of c] i1 c by auto
  have side: "left m ?P = Some ?C \<longleftrightarrow> even c" using parent_side [OF rep c] i by simp
  have sib: "node_at at n (sibling c) = (if left m ?P = Some ?C then right m ?P else left m ?P)"
    using sibling_pos [OF i] side lP(1,2) by (cases "even c") simp_all
  have ss: "sibling c \<noteq> i" "sibling c \<noteq> c" using sibling_pos [OF i] i1 by (cases "even c"; simp)+
  have ne: "?P \<noteq> ?C" "parent m ?P \<noteq> Some ?P" "parent m ?P \<noteq> Some ?C"
    "left m ?C \<notin> {Some ?P, Some ?C}" "right m ?C \<notin> {Some ?P, Some ?C}" "node_at at n (sibling c) \<notin> {Some ?P, Some ?C}"
    using at_eq [OF rep, of i c] i1 c ss by (simp_all add: lP lC NA)
  note F = swap_eqs [OF ne(1-5) sib ne(6), unfolded side]
  have g: "left m (at (i div 2)) = Some ?P \<longleftrightarrow> even i" if "2 \<le> i"
    using parent_side [OF rep that i1(3)] by simp
  have p: "parent m ?P = (if 2 \<le> i then Some (at (i div 2)) else None)"
    using i1 lP(3) by (auto simp: node_at_def)
  show "left m' x = (if 2 \<le> i \<and> x = at (i div 2) \<and> even i then Some (at c)
      else if x = at c then if even c then Some (at i) else node_at at n (2 * i)
      else if x = at i then node_at at n (2 * c) else left m x)"
    using g unfolding m'_def F(1) lP(1) lC(1) p by (cases "2 \<le> i") simp_all
  show "right m' x = (if 2 \<le> i \<and> x = at (i div 2) \<and> odd i then Some (at c)
      else if x = at c then if even c then node_at at n (2 * i + 1) else Some (at i)
      else if x = at i then node_at at n (2 * c + 1) else right m x)"
    using g unfolding m'_def F(2) lP(2) lC(2) p by (cases "2 \<le> i") simp_all
  show "parent m' x = (if node_at at n (2 * c + 1) = Some x \<or> node_at at n (2 * c) = Some x then Some (at i)
      else if node_at at n (sibling c) = Some x then Some (at c) else if x = at c then node_at at n (i div 2)
      else if x = at i then Some (at c) else parent m x)"
    unfolding m'_def F(3) lP(3) lC by simp
  show "heap_root m' = (if i = 1 then Some (at c) else heap_root m)"
    using i1 unfolding m'_def F(4) p by auto
  show "nelts m' = nelts m" unfolding m'_def by (rule F(5))
qed

lemma node_at_swap:
  assumes "1 \<le> i" "i \<le> n" "1 \<le> c" "c \<le> n" "i \<noteq> c"
  shows "node_at (swap_at at i c) n j = (if j = i then Some (at c) else if j = c then Some (at i) else node_at at n j)"
  using assms by (auto simp: node_at_def swap_at_def)

definition rep_at :: "'p heap \<Rightarrow> (nat \<Rightarrow> 'p) \<Rightarrow> nat \<Rightarrow> nat \<Rightarrow> bool" where
  "rep_at m at n j \<longleftrightarrow> left m (at j) = node_at at n (2 * j) \<and> right m (at j) = node_at at n (Suc (2 * j)) \<and>
     parent m (at j) = node_at at n (j div 2)"

lemma heap_rep_alt:
  "heap_rep m at n \<longleftrightarrow> unat (nelts m) = n \<and> heap_root m = node_at at n 1 \<and> inj_on at {1..n} \<and>
     (\<forall>j. 1 \<le> j \<longrightarrow> j \<le> n \<longrightarrow> rep_at m at n j)"
  unfolding heap_rep_def rep_at_def by auto


lemma swap_rep_other:
  assumes rep: "heap_rep m at n" and c: "2 \<le> c" "c \<le> n" and i: "i = c div 2"
    and j: "1 \<le> j" "j \<le> n" "j \<noteq> i" "j \<noteq> c"
  shows "rep_at (heap_node_swap m (at i) (at c)) (swap_at at i c) n j"
proof -
  let ?m = "heap_node_swap m (at i) (at c)" and ?at = "swap_at at i c"
  have i1: "1 \<le> i" "i < c" "i \<le> n" "1 \<le> c" "i \<noteq> c" using c i by auto
  note E = at_eq [OF rep] and NA = node_at_eq [OF rep] and S = swap_reads [OF rep c i]
    and na = node_at_swap [OF i1(1,3,4) c(2) i1(5)] and sib = sibling_pos [OF i]
  have ch: "2 * i = c \<longleftrightarrow> even c" "Suc (2 * i) = c \<longleftrightarrow> odd c" using i by presburger+
  have a: "?at j = at j" "at j \<noteq> at i" "at j \<noteq> at c" using E [of j i] E [of j c] j i1 c by (auto simp: swap_at_def)
  have q: "2 \<le> i \<Longrightarrow> at j = at (i div 2) \<longleftrightarrow> j = i div 2" using E [of j "i div 2"] j i1 by auto
  have k: "2 * j = i \<longleftrightarrow> j = i div 2 \<and> even i" "Suc (2 * j) = i \<longleftrightarrow> j = i div 2 \<and> odd i"
    "2 * j \<noteq> c" "Suc (2 * j) \<noteq> c"
  proof -
    show "2 * j = i \<longleftrightarrow> j = i div 2 \<and> even i" "Suc (2 * j) = i \<longleftrightarrow> j = i div 2 \<and> odd i" by presburger+
    show "2 * j \<noteq> c" "Suc (2 * j) \<noteq> c" using j(3) i by auto
  qed
  have p: "j div 2 = i \<longleftrightarrow> sibling c = j" "j div 2 = c \<longleftrightarrow> 2 * c = j \<or> Suc (2 * c) = j"
  proof -
    show "j div 2 = c \<longleftrightarrow> 2 * c = j \<or> Suc (2 * c) = j" by presburger
    have "j div 2 = i \<Longrightarrow> j = 2 * i \<or> j = Suc (2 * i)" by presburger
    then show "j div 2 = i \<longleftrightarrow> sibling c = j" using sib ch j(4) by (cases "even c") auto
  qed
  have d: "left m (at j) = node_at at n (2 * j)" "right m (at j) = node_at at n (Suc (2 * j))"
    "parent m (at j) = node_at at n (j div 2)" using heap_repD [OF rep, of j] j by auto
  have kl: "(2 \<le> i \<and> at j = at (i div 2) \<and> even i) = (2 * j = i)" "(2 \<le> i \<and> at j = at (i div 2) \<and> odd i) = (Suc (2 * j) = i)"
    using k(1,2) q j(1) by auto
  have n: "node_at at n x = Some (at j) \<longleftrightarrow> x = j" for x using NA [OF j(1,2)] .
  have "left ?m (?at j) = node_at ?at n (2 * j)"
    using a(2,3) k(3) d(1) unfolding S(1) na a(1) kl by simp
  moreover have "right ?m (?at j) = node_at ?at n (Suc (2 * j))"
    using a(2,3) k(4) d(2) unfolding S(2) na a(1) kl by simp
  moreover have "parent ?m (?at j) = node_at ?at n (j div 2)"
    using a(2,3) p d(3) i1 unfolding S(3) na a(1) n by auto
  ultimately show ?thesis by (simp add: rep_at_def)
qed

lemma swap_rep:
  assumes rep: "heap_rep m at n" and c: "2 \<le> c" "c \<le> n" and i: "i = c div 2"
  shows "heap_rep (heap_node_swap m (at i) (at c)) (swap_at at i c) n"
proof -
  let ?m = "heap_node_swap m (at i) (at c)" and ?at = "swap_at at i c"
  have i1: "1 \<le> i" "i < c" "i \<le> n" "1 \<le> c" "i \<noteq> c" using c i by auto
  note E = at_eq [OF rep] and NA = node_at_eq [OF rep] and S = swap_reads [OF rep c i]
    and na = node_at_swap [OF i1(1,3,4) c(2) i1(5)] and sib = sibling_pos [OF i]
  have ch: "2 * i = c \<longleftrightarrow> even c" "Suc (2 * i) = c \<longleftrightarrow> odd c" using i by presburger+
  have at_i: "?at i = at c" "?at c = at i" using i1 by (simp_all add: swap_at_def)
  have "rep_at ?m ?at n i"
  proof -
    have "at c \<noteq> at (i div 2)" if "2 \<le> i" using E [of c "i div 2"] that i1 c by simp
    moreover have "i div 2 \<noteq> i" "i div 2 \<noteq> c" "2 * i \<noteq> i" "Suc (2 * i) \<noteq> i" "sibling c \<noteq> c"
      using i1 sib by auto
    ultimately show ?thesis using ch i1 c by (auto simp: rep_at_def at_i S na NA)
  qed
  moreover have "rep_at ?m ?at n c"
  proof -
    have "at i \<noteq> at (i div 2)" if "2 \<le> i" using E [of i "i div 2"] that i1 c by simp
    moreover have "at i \<noteq> at c" using E [of i c] i1 c by simp
    moreover have "2 * c \<noteq> i" "Suc (2 * c) \<noteq> i" "2 * c \<noteq> c" "sibling c \<noteq> i" "c div 2 = i" using i1 sib i
      by (auto simp: sibling_def)
    ultimately show ?thesis using i1 c by (auto simp: rep_at_def at_i S na NA)
  qed
  moreover have "rep_at ?m ?at n j" if "1 \<le> j" "j \<le> n" "j \<noteq> i" "j \<noteq> c" for j
    by (rule swap_rep_other [OF rep c i that])
  ultimately have "rep_at ?m ?at n j" if "1 \<le> j" "j \<le> n" for j using that by blast
  moreover have "inj_on ?at {1..n}"
    using E i1 c unfolding inj_on_def swap_at_def by auto
  moreover have "heap_root ?m = node_at ?at n 1"
  proof -
    have "heap_root m = node_at at n 1" using rep unfolding heap_rep_def by blast
    then show ?thesis using i1 unfolding S(4) na by auto
  qed
  moreover have "unat (nelts ?m) = n" using rep by (simp add: S heap_rep_def)
  ultimately show ?thesis unfolding heap_rep_alt by blast
qed


section \<open>Paths\<close>

fun follow :: "nat \<Rightarrow> nat \<Rightarrow> nat \<Rightarrow> nat" where
  "follow pos path 0 = pos"
| "follow pos path (Suc k) = follow (2 * pos + path mod 2) (path div 2) k"

lemma follow_bound: "pos * 2 ^ k \<le> follow pos path k"
proof (induction k arbitrary: pos path)
  case (Suc k)
  have "pos * 2 ^ Suc k \<le> (2 * pos + path mod 2) * 2 ^ k" by simp
  also have "\<dots> \<le> follow (2 * pos + path mod 2) (path div 2) k" by (rule Suc.IH)
  finally show ?case by simp
qed simp

lemma unat_u32: "unat (w :: u32) < 2 ^ 32"
  using unsigned_less [of w] by simp

lemma unat_and_1: "unat (n AND 1 :: u32) = unat n mod 2"
  by (simp only: and_one_eq unat_mod) simp

lemma push_bit_or:
  assumes "unat path < 2 ^ 31"
  shows "unat (push_bit 1 path OR (n AND 1) :: u32) = 2 * unat path + unat n mod 2"
proof -
  have "push_bit 1 path OR (n AND 1) = push_bit 1 path + (n AND 1)"
    by (rule disjunctive_add [symmetric]) (auto simp only: bit_push_bit_iff bit_and_iff bit_1_iff)
  moreover have "unat (push_bit 1 path :: u32) = 2 * unat path"
    using assms by (simp add: push_bit_eq_mult unat_mult_lem mult.commute unat_word_ariths)
  ultimately show ?thesis using assms
    by (simp add: unat_word_ariths unat_and_1)
qed

lemma heap_path_follow:
  "1 \<le> unat n \<Longrightarrow> unat path < 2 ^ k \<Longrightarrow> unat n * 2 ^ k < 2 ^ 32 \<Longrightarrow>
   heap_path path k n = (P, K) \<Longrightarrow> follow 1 (unat P) K = follow (unat n) (unat path) k"
proof (induction path k n rule: heap_path.induct)
  case (1 path k n)
  show ?case
  proof (cases "2 \<le> n")
    case True
    then have n2: "2 \<le> unat n" by (simp add: word_le_nat_alt)
    have "2 * 2 ^ k \<le> unat n * 2 ^ k" using n2 by simp
    then have k: "(2::nat) ^ Suc k < 2 ^ 32" using le_less_trans [OF _ "1.prems"(3)] by (metis power_Suc)
    then have k31: "Suc k \<le> 31" using power_strict_increasing_iff [of "2::nat" "Suc k" 32] by simp
    then have "(2::nat) ^ k \<le> 2 ^ 30" by (intro power_increasing) auto
    then have p31: "unat path < 2 ^ 31" using "1.prems"(2) by simp
    have d: "unat (n div 2) = unat n div 2" by (simp add: unat_div)
    let ?q = "push_bit 1 path OR (n AND 1)"
    have q: "unat ?q = 2 * unat path + unat n mod 2" by (rule push_bit_or [OF p31])
    have "follow 1 (unat P) K = follow (unat (n div 2)) (unat ?q) (k + 1)"
    proof (rule "1.IH" [OF True])
      show "1 \<le> unat (n div 2)" using n2 d by simp
      have "2 * unat path + unat n mod 2 < 2 * 2 ^ k" using "1.prems"(2) by linarith
      then show "unat ?q < 2 ^ (k + 1)" unfolding q by simp
      have "unat n div 2 * 2 * 2 ^ k \<le> unat n * 2 ^ k" by (intro mult_le_mono1) simp
      then have "unat n div 2 * 2 ^ (k + 1) < 2 ^ 32" using le_less_trans [OF _ "1.prems"(3)] by (simp add: mult.assoc)
      then show "unat (n div 2) * 2 ^ (k + 1) < 2 ^ 32" unfolding d .
      show "heap_path ?q (k + 1) (n div 2) = (P, K)"
        using "1.prems"(4) True unfolding heap_path.simps [of path k n] by simp
    qed
    also have "\<dots> = follow (unat n) (unat path) k"
      unfolding d q by simp
    finally show ?thesis .
  next
    case False
    then have "unat n = 1" using "1.prems"(1) by (simp add: word_le_nat_alt)
    with "1.prems"(4) False show ?thesis by (simp add: heap_path.simps)
  qed
qed

definition slot_of :: "(nat \<Rightarrow> 'p) \<Rightarrow> nat \<Rightarrow> 'p slot" where
  "slot_of at i = (if i \<le> 1 then Min_slot else if even i then Left_slot (at (i div 2)) else Right_slot (at (i div 2)))"

definition links :: "'p heap \<Rightarrow> (nat \<Rightarrow> 'p) \<Rightarrow> nat \<Rightarrow> bool" where
  "links m at n \<longleftrightarrow> heap_root m = node_at at n 1 \<and>
     (\<forall>i. 1 \<le> i \<longrightarrow> i \<le> n \<longrightarrow> left m (at i) = node_at at n (2 * i) \<and> right m (at i) = node_at at n (Suc (2 * i)))"

lemma heap_rep_links: "heap_rep m at n \<Longrightarrow> links m at n"
  unfolding heap_rep_alt links_def rep_at_def by blast

lemma read_slot_of:
  assumes "links m at n" "1 \<le> i" "i div 2 \<le> n"
  shows "read_slot m (slot_of at i) = node_at at n i"
proof (cases "i = 1")
  case False
  then have "1 \<le> i div 2" using assms(2) by simp
  with assms(1,3) have "left m (at (i div 2)) = node_at at n (2 * (i div 2))"
    "right m (at (i div 2)) = node_at at n (Suc (2 * (i div 2)))" unfolding links_def by blast+
  with False assms(2) show ?thesis by (cases "even i") (auto simp: slot_of_def)
qed (use assms in \<open>simp add: links_def slot_of_def\<close>)

lemma heap_walk_follow:
  "links m at n \<Longrightarrow> 1 \<le> pos \<Longrightarrow> follow pos (unat path) k \<le> Suc n \<Longrightarrow>
   heap_walk m par (slot_of at pos) path k
     = Inr (if k = 0 then par else slot_of at (follow pos (unat path) k div 2), slot_of at (follow pos (unat path) k))"
proof (induction k arbitrary: pos path par)
  case (Suc k)
  let ?q = "2 * pos + unat path mod 2"
  have u: "unat (drop_bit 1 path) = unat path div 2" by (simp add: drop_bit_eq_div unat_div)
  have "?q * 2 ^ k \<le> follow ?q (unat path div 2) k" by (rule follow_bound)
  moreover have "?q \<le> ?q * 2 ^ k" by simp
  ultimately have q: "?q \<le> Suc n" using Suc.prems(3) unfolding follow.simps by linarith
  then have pn: "pos \<le> n" using Suc.prems(2) by linarith
  then have rd: "read_slot m (slot_of at pos) = Some (at pos)"
    using read_slot_of [OF Suc.prems(1), of pos] Suc.prems(2) by simp
  have "path AND 1 \<noteq> 0 \<longleftrightarrow> odd (unat path)"
    using unat_and_1 [of path] by (simp add: word_unat_eq_iff odd_iff_mod_2_eq_one)
  then have sl: "(if path AND 1 \<noteq> 0 then Right_slot (at pos) else Left_slot (at pos)) = slot_of at ?q"
    using Suc.prems(2) by (auto simp: slot_of_def odd_iff_mod_2_eq_one even_iff_mod_2_eq_zero)
  have IH: "heap_walk m (slot_of at pos) (slot_of at ?q) (drop_bit 1 path) k
      = Inr (if k = 0 then slot_of at pos else slot_of at (follow ?q (unat path div 2) k div 2),
             slot_of at (follow ?q (unat path div 2) k))"
    using Suc.IH [of ?q "drop_bit 1 path" "slot_of at pos"] Suc.prems u by simp
  show ?case
    using IH unfolding heap_walk.simps rd option.case sl by (cases k) simp_all
qed simp

text \<open>The path for position \<open>N\<close> ends at the slot of \<open>N\<close>.\<close>

lemma walk_to:
  assumes "links m at n" "1 \<le> unat N" "unat N \<le> Suc n" "heap_path 0 0 N = (path, k)"
  shows "heap_walk m Min_slot Min_slot path k
    = Inr (slot_of at (unat N div 2), slot_of at (unat N))"
proof -
  have f: "follow 1 (unat path) k = unat N"
    using heap_path_follow [of N 0 0 path k] assms(2,4) unat_u32 [of N] by simp
  have "slot_of at 1 = Min_slot" "slot_of at 0 = Min_slot" by (simp_all add: slot_of_def)
  moreover have "k = 0 \<Longrightarrow> unat N = 1" using f by simp
  ultimately show ?thesis using heap_walk_follow [OF assms(1), of 1 path k Min_slot] f assms(3) by auto
qed

section \<open>Linking the new last node\<close>

definition link_last :: "'p heap \<Rightarrow> (nat \<Rightarrow> 'p) \<Rightarrow> nat \<Rightarrow> 'p \<Rightarrow> 'p heap" where
  "link_last m at n x =
     (let m0 = m\<lparr>left := (left m)(x := None), right := (right m)(x := None),
                parent := (parent m)(x := node_at at n (Suc n div 2))\<rparr>;
          m1 = write_slot m0 (slot_of at (Suc n)) (Some x)
      in m1\<lparr>nelts := nelts m1 + 1\<rparr>)"

lemma link_last_reads:
  "left (link_last m at n x) y =
     (if n \<noteq> 0 \<and> odd n \<and> y = at (Suc n div 2) then Some x else if y = x then None else left m y)"
  "right (link_last m at n x) y =
     (if n \<noteq> 0 \<and> even n \<and> y = at (Suc n div 2) then Some x else if y = x then None else right m y)"
  "parent (link_last m at n x) y = (if y = x then node_at at n (Suc n div 2) else parent m y)"
  by (auto simp: link_last_def Let_def slot_of_def)

lemma link_last_rep_at:
  assumes rep: "heap_rep m at n" and x: "x \<notin> at ` {1..n}" and j: "1 \<le> j" "j \<le> Suc n"
  shows "rep_at (link_last m at n x) (at(Suc n := x)) (Suc n) j"
proof -
  let ?m = "link_last m at n x" and ?at = "at(Suc n := x)"
  have xn: "at j \<noteq> x" if "1 \<le> j" "j \<le> n" for j using x that by force
  note D = heap_repD [OF rep]
  have na: "node_at ?at (Suc n) j = (if j = Suc n then Some x else node_at at n j)" for j
    by (auto simp: node_at_def)
  show ?thesis
  proof (cases "j = Suc n")
    case True
    have "at (Suc n div 2) \<noteq> x" if "n \<noteq> 0" using xn [of "Suc n div 2"] that by auto
    then have "left ?m x = None" "right ?m x = None" unfolding link_last_reads by (cases "n = 0"; auto)+
    moreover have "parent ?m x = node_at at n (Suc n div 2)" unfolding link_last_reads by simp
    moreover have "Suc n div 2 \<noteq> Suc n" "2 * Suc n \<noteq> Suc n" "Suc (2 * Suc n) \<noteq> Suc n" by auto
    moreover have "node_at at n (2 * Suc n) = None" "node_at at n (Suc (2 * Suc n)) = None" by simp_all
    ultimately show ?thesis unfolding True rep_at_def na by simp
  next
    case False
    then have j': "j \<le> n" using j by simp
    have e: "at j = at (Suc n div 2) \<longleftrightarrow> j = Suc n div 2" if "n \<noteq> 0"
      using at_eq [OF rep, of j "Suc n div 2"] j j' that by auto
    have k: "2 * j = Suc n \<longleftrightarrow> odd n \<and> j = Suc n div 2" "Suc (2 * j) = Suc n \<longleftrightarrow> even n \<and> j = Suc n div 2"
      by presburger+
    have d: "left m (at j) = node_at at n (2 * j)" "right m (at j) = node_at at n (Suc (2 * j))"
      "parent m (at j) = node_at at n (j div 2)" using D [of j] j j' by auto
    have nz: "n \<noteq> 0" using j j' by simp
    have kl: "(n \<noteq> 0 \<and> odd n \<and> at j = at (Suc n div 2)) = (2 * j = Suc n)"
      "(n \<noteq> 0 \<and> even n \<and> at j = at (Suc n div 2)) = (Suc (2 * j) = Suc n)"
      unfolding k e [OF nz] using nz by blast+
    have a: "?at j = at j" "at j \<noteq> x" "j div 2 \<noteq> Suc n" using False xn [OF j(1) j'] j j' by auto
    show ?thesis
      unfolding rep_at_def a(1) link_last_reads na kl using a(2,3) d by simp
  qed
qed

lemma link_last_rep:
  assumes rep: "heap_rep m at n" and x: "x \<notin> at ` {1..n}" and n: "Suc n < 2 ^ 32"
  shows "heap_rep (link_last m at n x) (at(Suc n := x)) (Suc n)"
proof -
  let ?m = "link_last m at n x" and ?at = "at(Suc n := x)"
  have na: "node_at ?at (Suc n) j = (if j = Suc n then Some x else node_at at n j)" for j
    by (auto simp: node_at_def)
  have "rep_at ?m ?at (Suc n) j" if "1 \<le> j" "j \<le> Suc n" for j
    by (rule link_last_rep_at [OF rep x that])
  moreover have "inj_on ?at {1..Suc n}"
  proof -
    have "{1..Suc n} = insert (Suc n) {1..n}" by auto
    moreover have "inj_on ?at {1..n}"
      using heap_rep_inj [OF rep] by (subst inj_on_cong [of _ _ at]) auto
    moreover have "?at ` {1..n} = at ` {1..n}" by (rule image_cong) auto
    ultimately show ?thesis using x by simp
  qed
  moreover have "heap_root ?m = node_at ?at (Suc n) 1"
    using heap_rep_root [OF rep] unfolding na by (cases "n = 0") (auto simp: link_last_def Let_def slot_of_def)
  moreover have "unat (nelts ?m) = Suc n"
  proof -
    have "nelts ?m = nelts m + 1" by (auto simp: link_last_def Let_def slot_of_def)
    moreover have "unat (nelts m) = n" using rep unfolding heap_rep_def by blast
    ultimately show ?thesis using n by (simp add: unat_word_ariths)
  qed
  ultimately show ?thesis unfolding heap_rep_alt by blast
qed

section \<open>The order\<close>

text \<open>
  What the heap relies on of the comparison: it is a strict weak order.
\<close>

locale heap_compare =
  fixes lt :: "'p \<Rightarrow> 'p \<Rightarrow> bool"
  assumes asym: "lt a b \<Longrightarrow> \<not> lt b a"
    and negtrans: "\<not> lt a b \<Longrightarrow> \<not> lt b c \<Longrightarrow> \<not> lt a c"

definition ordered_but :: "('p \<Rightarrow> 'p \<Rightarrow> bool) \<Rightarrow> (nat \<Rightarrow> 'p) \<Rightarrow> nat \<Rightarrow> nat set \<Rightarrow> bool" where
  "ordered_but lt at n B \<longleftrightarrow> (\<forall>i. 2 \<le> i \<longrightarrow> i \<le> n \<longrightarrow> i \<notin> B \<longrightarrow> \<not> lt (at i) (at (i div 2)))"

text \<open>The children of position \<open>j\<close> are not less than its parent.\<close>

definition bridged :: "('p \<Rightarrow> 'p \<Rightarrow> bool) \<Rightarrow> (nat \<Rightarrow> 'p) \<Rightarrow> nat \<Rightarrow> nat \<Rightarrow> bool" where
  "bridged lt at n j \<longleftrightarrow> (\<forall>i. 2 \<le> j \<longrightarrow> i \<le> n \<longrightarrow> i div 2 = j \<longrightarrow> \<not> lt (at i) (at (j div 2)))"

lemma ordered_butD: "ordered_but lt at n B \<Longrightarrow> 2 \<le> i \<Longrightarrow> i \<le> n \<Longrightarrow> i \<notin> B \<Longrightarrow> \<not> lt (at i) (at (i div 2))"
  by (simp add: ordered_but_def)

lemma bridgedD: "bridged lt at n j \<Longrightarrow> 2 \<le> j \<Longrightarrow> i \<le> n \<Longrightarrow> i div 2 = j \<Longrightarrow> \<not> lt (at i) (at (j div 2))"
  by (simp add: bridged_def)

lemma swap_at_simps:
  "swap_at at i c c = at i" "i \<noteq> c \<Longrightarrow> swap_at at i c i = at c" "j \<noteq> i \<Longrightarrow> j \<noteq> c \<Longrightarrow> swap_at at i c j = at j"
  by (simp_all add: swap_at_def)

lemma swap_at_image:
  assumes "1 \<le> i" "i \<le> n" "1 \<le> c" "c \<le> n"
  shows "swap_at at i c ` {1..n} = at ` {1..n}"
proof (intro equalityI subsetI)
  fix x assume "x \<in> swap_at at i c ` {1..n}"
  then show "x \<in> at ` {1..n}" using assms by (auto simp: swap_at_def split: if_splits)
next
  fix x assume "x \<in> at ` {1..n}"
  then obtain j where j: "x = at j" "1 \<le> j" "j \<le> n" by auto
  let ?k = "if j = i then c else if j = c then i else j"
  have "x = swap_at at i c ?k" "?k \<in> {1..n}" using j assms by (auto simp: swap_at_def)
  then show "x \<in> swap_at at i c ` {1..n}" by blast
qed

context heap_compare
begin

lemma trans: "lt a b \<Longrightarrow> lt b c \<Longrightarrow> lt a c"
  using asym negtrans by blast

text \<open>One step up keeps the invariant.\<close>

lemma up_step:
  assumes "ordered_but lt at n {j}" "bridged lt at n j" "2 \<le> j" "j \<le> n" "lt (at j) (at (j div 2))"
  shows "ordered_but lt (swap_at at (j div 2) j) n {j div 2}" "bridged lt (swap_at at (j div 2) j) n (j div 2)"
proof -
  let ?i = "j div 2" and ?at = "swap_at at (j div 2) j"
  have ij: "?i \<noteq> j" "1 \<le> ?i" using assms(3) by auto
  show "ordered_but lt ?at n {?i}"
    unfolding ordered_but_def
  proof (intro allI impI)
    fix k assume k: "2 \<le> k" "k \<le> n" "k \<notin> {?i}"
    consider "k = j" | "k \<noteq> j" "k div 2 = ?i" | "k \<noteq> j" "k div 2 = j" | "k \<noteq> j" "k div 2 \<noteq> ?i" "k div 2 \<noteq> j"
      by blast
    then show "\<not> lt (?at k) (?at (k div 2))"
    proof cases
      case 1
      with assms(5) ij show ?thesis using asym by (simp add: swap_at_simps)
    next
      case 2
      have "\<not> lt (at k) (at ?i)" using ordered_butD [OF assms(1) k(1,2)] 2 by auto
      then have "\<not> lt (at k) (at j)" using trans assms(5) by blast
      with 2 k ij show ?thesis by (simp add: swap_at_simps)
    next
      case 3
      then have "\<not> lt (at k) (at ?i)" using bridgedD [OF assms(2,3) k(2)] by blast
      with 3 k ij show ?thesis by (simp add: swap_at_simps)
    next
      case 4
      then show ?thesis using ordered_butD [OF assms(1) k(1,2)] k by (simp add: swap_at_simps)
    qed
  qed
  show "bridged lt ?at n ?i"
    unfolding bridged_def
  proof (intro allI impI)
    fix k assume k: "2 \<le> ?i" "k \<le> n" "k div 2 = ?i"
    have g: "?at (?i div 2) = at (?i div 2)" using k(1) by (intro swap_at_simps) auto
    have gi: "\<not> lt (at ?i) (at (?i div 2))"
      using ordered_butD [OF assms(1), of ?i] k(1) assms(4) ij by auto
    show "\<not> lt (?at k) (?at (?i div 2))"
    proof (cases "k = j")
      case True
      with gi g show ?thesis by (simp add: swap_at_simps)
    next
      case False
      have "\<not> lt (at k) (at ?i)" using ordered_butD [OF assms(1), of k] k False by auto
      then have "\<not> lt (at k) (at (?i div 2))" using gi negtrans by blast
      moreover have "k \<noteq> ?i" using k by auto
      ultimately show ?thesis using False g by (simp add: swap_at_simps)
    qed
  qed
qed

lemma heap_up_ok:
  "heap_rep m at n \<Longrightarrow> 1 \<le> j \<Longrightarrow> j \<le> n \<Longrightarrow> ordered_but lt at n {j} \<Longrightarrow> bridged lt at n j \<Longrightarrow>
   \<exists>m' at'. heap_up lt m (at j) = Some m' \<and> heap_rep m' at' n \<and> ordered_but lt at' n {} \<and>
     at' ` {1..n} = at ` {1..n}"
proof (induction j arbitrary: m at rule: less_induct)
  case (less j)
  note rep = less.prems(1)
  have pa: "parent m (at j) = node_at at n (j div 2)" using heap_repD(3) [OF rep] less.prems(2,3) by simp
  show ?case
  proof (cases "2 \<le> j \<and> lt (at j) (at (j div 2))")
    case True
    let ?i = "j div 2" and ?at = "swap_at at (j div 2) j" and ?m = "heap_node_swap m (at (j div 2)) (at j)"
    have i: "1 \<le> ?i" "?i \<le> n" "?i < j" "?i \<noteq> j" using True less.prems(3) by auto
    have "heap_up lt m (at j) = heap_up lt ?m (at j)"
      using True pa i by (simp add: heap_up.simps [of lt m])
    moreover have "?at ?i = at j" using i by (simp add: swap_at_simps)
    moreover have "heap_rep ?m ?at n" using swap_rep [OF rep] True less.prems(3) by simp
    moreover note up_step [OF less.prems(4,5) _ less.prems(3)] True
    ultimately show ?thesis
      using less.IH [OF i(3), of ?m ?at] i swap_at_image [of ?i n j at] less.prems(2,3) by auto
  next
    case False
    have "j = 1 \<or> 2 \<le> j" using less.prems(2) by linarith
    then have "heap_up lt m (at j) = Some m"
      using False pa less.prems(3) by (auto simp: heap_up.simps node_at_def)
    moreover have "ordered_but lt at n {}" using less.prems(4) False by (auto simp: ordered_but_def)
    ultimately show ?thesis using rep by blast
  qed
qed

end

section \<open>Unlinking the last node and replacing a node\<close>

lemma unlink_rep:
  assumes rep: "heap_rep m at n" and n: "1 \<le> n"
  shows "heap_rep (write_slot (m\<lparr>nelts := nelts m - 1\<rparr>) (slot_of at n) None) at (n - 1)"
proof -
  let ?m = "write_slot (m\<lparr>nelts := nelts m - 1\<rparr>) (slot_of at n) None"
  have na: "node_at at (n - 1) j = (if j = n then None else node_at at n j)" for j
    by (auto simp: node_at_def)
  have L: "left ?m y = (if 2 \<le> n \<and> even n \<and> y = at (n div 2) then None else left m y)" for y
    by (auto simp: slot_of_def)
  have R: "right ?m y = (if 2 \<le> n \<and> odd n \<and> y = at (n div 2) then None else right m y)" for y
    by (auto simp: slot_of_def)
  have U: "parent ?m = parent m" "nelts ?m = nelts m - 1" by (auto simp: slot_of_def)
  have "rep_at ?m at (n - 1) j" if j: "1 \<le> j" "j \<le> n - 1" for j
  proof -
    have j': "j \<le> n" "2 \<le> n" "j div 2 \<noteq> n" using j by auto
    have e: "at j = at (n div 2) \<longleftrightarrow> j = n div 2" using at_eq [OF rep, of j "n div 2"] j j' by auto
    have k: "(2 \<le> n \<and> even n \<and> at j = at (n div 2)) = (2 * j = n)"
      "(2 \<le> n \<and> odd n \<and> at j = at (n div 2)) = (Suc (2 * j) = n)"
      unfolding e using j'(2) by presburger+
    have d: "left m (at j) = node_at at n (2 * j)" "right m (at j) = node_at at n (Suc (2 * j))"
      "parent m (at j) = node_at at n (j div 2)" using heap_repD [OF rep, of j] j j' by auto
    show ?thesis unfolding rep_at_def L R U na k using d j'(3) by simp
  qed
  moreover have "inj_on at {1..n - 1}" using heap_rep_inj [OF rep] by (rule inj_on_subset) auto
  moreover have "heap_root ?m = node_at at (n - 1) 1"
    using heap_rep_root [OF rep] n unfolding na by (auto simp: slot_of_def)
  moreover have "unat (nelts ?m) = n - 1"
  proof -
    have u: "unat (nelts m) = n" using rep unfolding heap_rep_def by blast
    then have "1 \<le> nelts m" using n by (simp add: word_le_nat_alt)
    with u show ?thesis unfolding U by (simp add: unat_sub)
  qed
  ultimately show ?thesis unfolding heap_rep_alt by blast
qed

lemma replace_reads:
  assumes rep: "heap_rep m at n" and j: "1 \<le> j" "j \<le> n" and x: "x \<notin> at ` {1..n}"
  defines "m' \<equiv> heap_replace m (at j) x"
  shows "left m' y = (if 2 \<le> j \<and> even j \<and> y = at (j div 2) then Some x
      else if y = x then node_at at n (2 * j) else left m y)"
    and "right m' y = (if 2 \<le> j \<and> odd j \<and> y = at (j div 2) then Some x
      else if y = x then node_at at n (Suc (2 * j)) else right m y)"
    and "parent m' y = (if node_at at n (2 * j) = Some y \<or> node_at at n (Suc (2 * j)) = Some y then Some x
      else if y = x then node_at at n (j div 2) else parent m y)"
    and "heap_root m' = (if j = 1 then Some x else heap_root m)" and "nelts m' = nelts m"
proof -
  have xn: "at i \<noteq> x" if "1 \<le> i" "i \<le> n" for i using x that by force
  have l: "left m (at j) = node_at at n (2 * j)" "right m (at j) = node_at at n (Suc (2 * j))"
    "parent m (at j) = node_at at n (j div 2)" using heap_repD [OF rep j] by auto
  note NA = node_at_eq [OF rep]
  have p: "node_at at n (j div 2) = (if 2 \<le> j then Some (at (j div 2)) else None)"
    using j by (auto simp: node_at_def)
  have g: "left m (at (j div 2)) = Some (at j) \<longleftrightarrow> even j" "at (j div 2) \<noteq> x" if "2 \<le> j"
    using parent_side [OF rep that j(2)] xn [of "j div 2"] j that by auto
  have nx: "node_at at n i \<noteq> Some x" for i using xn by (auto simp: node_at_def)
  have nj: "2 * j \<noteq> j" "Suc (2 * j) \<noteq> j" "at j \<noteq> x" using j xn by auto
  show "left m' y = (if 2 \<le> j \<and> even j \<and> y = at (j div 2) then Some x
      else if y = x then node_at at n (2 * j) else left m y)"
    using l p g nx nj j unfolding m'_def heap_replace_def Let_def by (cases "2 \<le> j") (simp_all add: NA)
  show "right m' y = (if 2 \<le> j \<and> odd j \<and> y = at (j div 2) then Some x
      else if y = x then node_at at n (Suc (2 * j)) else right m y)"
    using l p g nx nj j unfolding m'_def heap_replace_def Let_def by (cases "2 \<le> j") (simp_all add: NA)
  show "parent m' y = (if node_at at n (2 * j) = Some y \<or> node_at at n (Suc (2 * j)) = Some y then Some x
      else if y = x then node_at at n (j div 2) else parent m y)"
    using l p g nx nj j unfolding m'_def heap_replace_def Let_def by (cases "2 \<le> j") (simp_all add: NA)
  show "heap_root m' = (if j = 1 then Some x else heap_root m)" "nelts m' = nelts m"
    using l p g nx nj j unfolding m'_def heap_replace_def Let_def by (cases "2 \<le> j"; simp add: NA)+
qed

lemma replace_rep:
  assumes rep: "heap_rep m at n" and j: "1 \<le> j" "j \<le> n" and x: "x \<notin> at ` {1..n}"
  shows "heap_rep (heap_replace m (at j) x) (at(j := x)) n"
proof -
  let ?m = "heap_replace m (at j) x" and ?at = "at(j := x)"
  note S = replace_reads [OF rep j x] and NA = node_at_eq [OF rep]
  have xn: "at i \<noteq> x" if "1 \<le> i" "i \<le> n" for i using x that by force
  have nx: "node_at at n i \<noteq> Some x" for i using xn by (auto simp: node_at_def)
  have na: "node_at ?at n i = (if i = j then Some x else node_at at n i)" for i
    using j by (auto simp: node_at_def)
  have "rep_at ?m ?at n j"
  proof -
    have "at (j div 2) \<noteq> x" if "2 \<le> j" using xn [of "j div 2"] j that by auto
    moreover have "2 * j \<noteq> j" "Suc (2 * j) \<noteq> j" "j div 2 \<noteq> j" using j by auto
    ultimately show ?thesis unfolding rep_at_def na S using nx by auto
  qed
  moreover have "rep_at ?m ?at n i" if i: "1 \<le> i" "i \<le> n" "i \<noteq> j" for i
  proof -
    have e: "2 \<le> j \<Longrightarrow> at i = at (j div 2) \<longleftrightarrow> i = j div 2" using at_eq [OF rep, of i "j div 2"] i j by auto
    have "2 * i = j \<Longrightarrow> 2 \<le> j" "Suc (2 * i) = j \<Longrightarrow> 2 \<le> j" using i by auto
    then have k: "(2 \<le> j \<and> even j \<and> at i = at (j div 2)) = (2 * i = j)" "(2 \<le> j \<and> odd j \<and> at i = at (j div 2)) = (Suc (2 * i) = j)"
      using e by auto
    have p: "(2 * j = i \<or> Suc (2 * j) = i) = (i div 2 = j)" by presburger
    have a: "?at i = at i" "at i \<noteq> x" using i xn by auto
    have d: "left m (at i) = node_at at n (2 * i)" "right m (at i) = node_at at n (Suc (2 * i))"
      "parent m (at i) = node_at at n (i div 2)" using heap_repD [OF rep, of i] i by auto
    show ?thesis
      unfolding rep_at_def a(1) na S k NA [OF i(1,2)] p using a(2) d by simp
  qed
  ultimately have "rep_at ?m ?at n i" if "1 \<le> i" "i \<le> n" for i using that by blast
  moreover have "inj_on ?at {1..n}"
    using heap_rep_inj [OF rep] x by (rule inj_on_fun_updI)
  moreover have "heap_root ?m = node_at ?at n 1"
    using heap_rep_root [OF rep] j unfolding S na by auto
  moreover have "unat (nelts ?m) = n" using rep unfolding S heap_rep_def by blast
  ultimately show ?thesis unfolding heap_rep_alt by blast
qed

section \<open>Moving down\<close>

context heap_compare
begin

text \<open>
  Position \<open>j\<close> may be out of order with its parent and its children; every other node is in order.
\<close>

definition loose :: "(nat \<Rightarrow> 'p) \<Rightarrow> nat \<Rightarrow> nat \<Rightarrow> bool" where
  "loose at n j \<longleftrightarrow> bridged lt at n j \<and> ordered_but lt at n (insert j {i. i div 2 = j})"

lemma down_step:
  assumes "loose at n j" "1 \<le> j" "s \<le> n" "s div 2 = j"
    and sib: "sibling s \<le> n \<Longrightarrow> \<not> lt (at (sibling s)) (at s)"
  shows "loose (swap_at at j s) n s"
proof -
  let ?at = "swap_at at j s"
  have sj: "j \<noteq> s" "2 \<le> s" "j < s" using assms(2,4) by auto
  note o = ordered_butD [of lt at n "insert j {i. i div 2 = j}"]
  have ord: "ordered_but lt at n (insert j {i. i div 2 = j})" and br: "bridged lt at n j"
    using assms(1) by (auto simp: loose_def)
  have "ordered_but lt ?at n (insert s {i. i div 2 = s})"
    unfolding ordered_but_def
  proof (intro allI impI)
    fix k assume k: "2 \<le> k" "k \<le> n" "k \<notin> insert s {i. i div 2 = s}"
    consider "k = j" | "k \<noteq> j" "k div 2 = j" | "k \<noteq> j" "k div 2 \<noteq> j" by blast
    then show "\<not> lt (?at k) (?at (k div 2))"
    proof cases
      case 1
      then have "\<not> lt (at s) (at (j div 2))" using bridgedD [OF br _ assms(3,4)] k by simp
      moreover have "j div 2 \<noteq> j" "j div 2 \<noteq> s" using 1 k sj by auto
      ultimately show ?thesis using 1 sj by (simp add: swap_at_simps)
    next
      case 2
      have "sibling s = k"
      proof -
        have "k = 2 * j \<or> k = Suc (2 * j)" "s = 2 * j \<or> s = Suc (2 * j)" "k \<noteq> s" using 2 k assms(4) by auto
        then show ?thesis by (auto simp: sibling_def)
      qed
      with sib k 2 sj show ?thesis by (simp add: swap_at_simps)
    next
      case 3
      then show ?thesis using o [OF ord k(1,2)] k sj by (simp add: swap_at_simps)
    qed
  qed
  moreover have "bridged lt ?at n s"
    unfolding bridged_def
  proof (intro allI impI)
    fix k assume k: "2 \<le> s" "k \<le> n" "k div 2 = s"
    then have "\<not> lt (at k) (at (k div 2))" using o [OF ord, of k] sj by auto
    moreover have "k \<noteq> s" "k \<noteq> j" using k sj by auto
    ultimately show "\<not> lt (?at k) (?at (s div 2))" using k assms(4) sj by (simp add: swap_at_simps)
  qed
  ultimately show ?thesis by (simp add: loose_def)
qed

text \<open>The child the loop chooses, by position.\<close>

lemma smallest_child:
  assumes "heap_rep m at n" "1 \<le> j" "j \<le> n"
    and "s1 = smaller lt (left m (at j)) (at j)" "s2 = smaller lt (right m (at j)) s1"
  shows "s2 = at j \<and> (\<forall>i \<le> n. i div 2 = j \<longrightarrow> \<not> lt (at i) (at j)) \<or>
    (\<exists>s \<le> n. s div 2 = j \<and> s2 = at s \<and> s2 \<noteq> at j \<and> (sibling s \<le> n \<longrightarrow> \<not> lt (at (sibling s)) (at s)))"
proof -
  have l: "left m (at j) = node_at at n (2 * j)" "right m (at j) = node_at at n (Suc (2 * j))"
    using heap_repD [OF assms(1-3)] by auto
  have sb: "sibling (2 * j) = Suc (2 * j)" "sibling (Suc (2 * j)) = 2 * j" by (simp_all add: sibling_def)
  have ne: "i \<le> n \<Longrightarrow> i div 2 = j \<Longrightarrow> at i \<noteq> at j" for i
    using at_eq [OF assms(1), of i j] assms(2,3) by auto
  have ch: "i div 2 = j \<longleftrightarrow> i = 2 * j \<or> i = Suc (2 * j)" for i by presburger
  consider (none) "n < 2 * j" | (one) "n = 2 * j" | (two) "Suc (2 * j) \<le> n" by linarith
  then show ?thesis
  proof cases
    case none
    then show ?thesis using assms(4,5) l by (auto simp: smaller_def ch)
  next
    case one
    then have "left m (at j) = Some (at (2 * j))" "right m (at j) = None" using l assms(2) by auto
    then show ?thesis using assms(4,5) one ne [of "2 * j"] sb
      by (cases "lt (at (2 * j)) (at j)") (auto simp: smaller_def ch)
  next
    case two
    then have lr: "left m (at j) = Some (at (2 * j))" "right m (at j) = Some (at (Suc (2 * j)))"
      using l assms(2) by auto
    let ?l = "at (2 * j)" and ?r = "at (Suc (2 * j))"
    have ex: "\<exists>s \<le> n. s div 2 = j \<and> s2 = at s \<and> s2 \<noteq> at j \<and> (sibling s \<le> n \<longrightarrow> \<not> lt (at (sibling s)) (at s))"
      if "s2 = at s" "s = 2 * j \<or> s = Suc (2 * j)" "\<not> lt (at (sibling s)) (at s)" for s
      using that two ne [of s] by (intro exI [of _ s]) (auto simp: ch)
    consider "lt ?l (at j)" "lt ?r ?l" | "lt ?l (at j)" "\<not> lt ?r ?l" | "\<not> lt ?l (at j)" "lt ?r (at j)"
      | "\<not> lt ?l (at j)" "\<not> lt ?r (at j)" by blast
    then show ?thesis
    proof cases
      case 1
      then show ?thesis using assms(4,5) lr ex [of "Suc (2 * j)"] asym sb by (simp add: smaller_def)
    next
      case 2
      then show ?thesis using assms(4,5) lr ex [of "2 * j"] sb by (simp add: smaller_def)
    next
      case 3
      then have "\<not> lt ?l ?r" using trans by blast
      with 3 show ?thesis using assms(4,5) lr ex [of "Suc (2 * j)"] sb by (simp add: smaller_def)
    next
      case 4
      then show ?thesis using assms(4,5) lr by (auto simp: smaller_def ch)
    qed
  qed
qed

lemma heap_down_ok:
  "heap_rep m at n \<Longrightarrow> 1 \<le> j \<Longrightarrow> j \<le> n \<Longrightarrow> loose at n j \<Longrightarrow>
   \<exists>m' at' j'. heap_down lt m (at j) = Some m' \<and> heap_rep m' at' n \<and> at' j' = at j \<and> 1 \<le> j' \<and> j' \<le> n \<and>
     ordered_but lt at' n {j'} \<and> bridged lt at' n j' \<and> at' ` {1..n} = at ` {1..n}"
proof (induction "n - j" arbitrary: m at j rule: less_induct)
  case less
  define s1 where "s1 = smaller lt (left m (at j)) (at j)"
  define s2 where "s2 = smaller lt (right m (at j)) s1"
  consider (stop) "s2 = at j" "\<forall>i \<le> n. i div 2 = j \<longrightarrow> \<not> lt (at i) (at j)"
    | (go) s where "s \<le> n" "s div 2 = j" "s2 = at s" "s2 \<noteq> at j" "sibling s \<le> n \<longrightarrow> \<not> lt (at (sibling s)) (at s)"
    using smallest_child [OF less.prems(1-3) s1_def s2_def] by blast
  then show ?case
  proof cases
    case stop
    then have "heap_down lt m (at j) = Some m" by (simp add: heap_down.simps s1_def s2_def)
    moreover have "ordered_but lt at n {j}"
      using less.prems(4) stop(2) unfolding loose_def ordered_but_def by auto
    moreover have "bridged lt at n j" using less.prems(4) by (simp add: loose_def)
    ultimately show ?thesis using less.prems by blast
  next
    case go
    let ?m = "heap_node_swap m (at j) (at s)" and ?at = "swap_at at j s"
    have sj: "2 \<le> s" "j < s" using go(2) less.prems(2) by auto
    have "heap_down lt m (at j) = heap_down lt ?m (at j)"
      using go(3,4) by (simp add: heap_down.simps [of lt m] s1_def s2_def)
    moreover have "?at s = at j" by (simp add: swap_at_simps)
    moreover have "heap_rep ?m ?at n" using swap_rep [OF less.prems(1) sj(1) go(1)] go(2) by simp
    moreover have "loose ?at n s" using down_step [OF less.prems(4,2) go(1,2)] go(5) by blast
    moreover have "?at ` {1..n} = at ` {1..n}" using swap_at_image [of j n s at] less.prems(2,3) sj go(1) by simp
    ultimately show ?thesis using less.hyps [of s ?m ?at] sj go(1) by auto
  qed
qed

end

section \<open>The public operations\<close>

text \<open>\<open>heap_ok lt m S\<close>: the nodes of the heap are \<open>S\<close>, in heap order.\<close>

definition heap_ok :: "('p \<Rightarrow> 'p \<Rightarrow> bool) \<Rightarrow> 'p heap \<Rightarrow> 'p set \<Rightarrow> bool" where
  "heap_ok lt m S \<longleftrightarrow> (\<exists>at n. heap_rep m at n \<and> ordered_but lt at n {} \<and> at ` {1..n} = S)"

lemma heap_rep_card: "heap_rep m at n \<Longrightarrow> card (at ` {1..n}) = n"
  using card_image [OF heap_rep_inj] by force

lemma heap_ok_init: "heap_ok lt (heap_init m) {}"
  unfolding heap_ok_def
  by (rule exI [of _ undefined], rule exI [of _ 0])
    (simp add: heap_rep_def ordered_but_def heap_init_def)

lemma heap_ok_cong:
  assumes "heap_ok lt m S" "\<And>a b. a \<in> S \<Longrightarrow> b \<in> S \<Longrightarrow> lt' a b = lt a b"
  shows "heap_ok lt' m S"
proof -
  from assms(1) obtain at n where r: "heap_rep m at n" "ordered_but lt at n {}" "at ` {1..n} = S"
    by (auto simp: heap_ok_def)
  have "ordered_but lt' at n {}"
    unfolding ordered_but_def
  proof (intro allI impI)
    fix i assume i: "2 \<le> i" "i \<le> n"
    then have "i \<in> {1..n}" "i div 2 \<in> {1..n}" by auto
    then have "at i \<in> S" "at (i div 2) \<in> S" using r(3) by blast+
    with assms(2) ordered_butD [OF r(2) i] show "\<not> lt' (at i) (at (i div 2))" by simp
  qed
  with r show ?thesis unfolding heap_ok_def by blast
qed

lemma heap_ok_nelts: "heap_ok lt m S \<Longrightarrow> unat (nelts m) = card S \<and> finite S"
  using heap_rep_card by (fastforce simp: heap_ok_def heap_rep_def)

lemma image_replaced:
  assumes "inj_on f A" "j \<in> A" "y \<notin> f ` A"
  shows "(f(j := y)) ` A = insert y (f ` A) - {f j}"
  using assms by (auto simp: inj_on_def image_iff)

context heap_compare
begin

lemma loose_replaced:
  assumes "ordered_but lt at n {}"
  shows "loose (at(j := y)) (n - 1) j"
  unfolding loose_def bridged_def ordered_but_def
proof (intro conjI allI impI)
  fix i assume i: "2 \<le> j" "i \<le> n - 1" "i div 2 = j"
  then have "\<not> lt (at i) (at j)" "\<not> lt (at j) (at (j div 2))"
    using ordered_butD [OF assms, of i] ordered_butD [OF assms, of j] by auto
  then have "\<not> lt (at i) (at (j div 2))" using negtrans by blast
  moreover have "i \<noteq> j" "j div 2 \<noteq> j" using i by auto
  ultimately show "\<not> lt ((at(j := y)) i) ((at(j := y)) (j div 2))" by simp
next
  fix i assume "2 \<le> i" "i \<le> n - 1" "i \<notin> insert j {i. i div 2 = j}"
  then show "\<not> lt ((at(j := y)) i) ((at(j := y)) (i div 2))" using ordered_butD [OF assms, of i] by auto
qed


lemma irrefl: "\<not> lt a a"
  using asym by blast

lemma root_minimal:
  "ordered_but lt at n {} \<Longrightarrow> 1 \<le> i \<Longrightarrow> i \<le> n \<Longrightarrow> \<not> lt (at i) (at 1)"
proof (induction i rule: less_induct)
  case (less i)
  show ?case
  proof (cases "i = 1")
    case False
    then have "\<not> lt (at (i div 2)) (at 1)" using less.IH [of "i div 2"] less.prems by auto
    moreover have "\<not> lt (at i) (at (i div 2))" using ordered_butD [OF less.prems(1)] less.prems False by auto
    ultimately show ?thesis using negtrans by blast
  qed (simp add: irrefl)
qed

lemma heap_min_ok:
  assumes "heap_ok lt m S"
  shows "S = {} \<and> heap_min m = None \<or> (\<exists>x \<in> S. heap_min m = Some x \<and> (\<forall>y \<in> S. \<not> lt y x))"
proof -
  from assms obtain at n where r: "heap_rep m at n" "ordered_but lt at n {}" "at ` {1..n} = S"
    by (auto simp: heap_ok_def)
  show ?thesis
  proof (cases "n = 0")
    case True
    then have "S = {}" using r(3) by auto
    with True heap_rep_root [OF r(1)] show ?thesis by (simp add: heap_min_def)
  next
    case False
    then have "heap_min m = Some (at 1)" "at 1 \<in> S" using heap_rep_root [OF r(1)] r(3) by (auto simp: heap_min_def)
    moreover have "\<forall>y \<in> S. \<not> lt y (at 1)" using root_minimal [OF r(2)] r(3) by auto
    ultimately show ?thesis by blast
  qed
qed

lemma heap_insert_ok:
  assumes "heap_ok lt m S" "x \<notin> S" "Suc (card S) < 2 ^ 32"
  shows "\<exists>m'. heap_insert lt m x = Some (Inr m') \<and> heap_ok lt m' (insert x S)"
proof -
  from assms(1) obtain at n where r: "heap_rep m at n" "ordered_but lt at n {}" "at ` {1..n} = S"
    by (auto simp: heap_ok_def)
  have n: "Suc n < 2 ^ 32" using heap_rep_card [OF r(1)] r(3) assms(3) by simp
  let ?m0 = "m\<lparr>left := (left m)(x := None), right := (right m)(x := None), parent := (parent m)(x := None)\<rparr>"
  let ?at = "at(Suc n := x)" and ?m3 = "link_last m at n x"
  have xn: "at i \<noteq> x" if "1 \<le> i" "i \<le> n" for i using assms(2) r(3) that by force
  have lk: "links ?m0 at n" using heap_rep_links [OF r(1)] xn by (simp add: links_def)
  have N: "unat (1 + nelts ?m0) = Suc n"
  proof -
    have "unat (nelts m) = n" using r(1) unfolding heap_rep_def by blast
    then show ?thesis using n by (simp add: unat_word_ariths)
  qed
  obtain path k where pk: "heap_path 0 0 (1 + nelts ?m0) = (path, k)" by force
  have w: "heap_walk ?m0 Min_slot Min_slot path k = Inr (slot_of at (Suc n div 2), slot_of at (Suc n))"
    using walk_to [OF lk _ _ pk] N by simp
  have par: "read_slot ?m0 (slot_of at (Suc n div 2)) = node_at at n (Suc n div 2)"
  proof (cases "n = 0")
    case True
    then show ?thesis using lk by (simp add: links_def slot_of_def)
  next
    case False
    then show ?thesis using read_slot_of [OF lk, of "Suc n div 2"] by simp
  qed
  have "heap_insert lt m x = map_option Inr (heap_up lt ?m3 (?at (Suc n)))"
    unfolding heap_insert_def Let_def pk prod.case w sum.case par
    by (cases "slot_of at (Suc n)") (simp_all add: link_last_def Let_def)
  moreover have "heap_rep ?m3 ?at (Suc n)" using link_last_rep [OF r(1) _ n] assms(2) r(3) by simp
  moreover have "ordered_but lt ?at (Suc n) {Suc n}" "bridged lt ?at (Suc n) (Suc n)"
    using r(2) by (auto simp: ordered_but_def bridged_def)
  moreover have "?at ` {1..Suc n} = insert x S"
    using r(3) by (auto simp: atLeastAtMostSuc_conv)
  ultimately show ?thesis using heap_up_ok [of ?m3 ?at "Suc n" "Suc n"] by (fastforce simp: heap_ok_def)
qed

lemma heap_rep_last: "heap_rep m at n \<Longrightarrow> 1 \<le> n \<Longrightarrow> at n \<notin> at ` {1..n - 1}"
proof
  assume rep: "heap_rep m at n" and n: "1 \<le> n" and "at n \<in> at ` {1..n - 1}"
  then obtain i where "at n = at i" "1 \<le> i" "i \<le> n - 1" by auto
  moreover from this have "i \<le> n" "i \<noteq> n" using n by auto
  ultimately show False using at_eq [OF rep, of n i] n by simp
qed

text \<open>The removal of \<open>x\<close>: the last node is unlinked and, unless it is \<open>x\<close>, takes its place and sinks or rises.\<close>

lemma heap_remove_eq:
  assumes rep: "heap_rep m at n" and n: "1 \<le> n"
  shows "heap_remove lt m x =
    (let m2 = write_slot (m\<lparr>nelts := nelts m - 1\<rparr>) (slot_of at n) None
     in if at n = x then Some (Inr (if heap_root m2 = Some (at n) then m2\<lparr>heap_root := None\<rparr> else m2))
        else Option.bind (heap_down lt (heap_replace m2 x (at n)) (at n)) (\<lambda>m3. map_option Inr (heap_up lt m3 (at n))))"
proof -
  have u: "unat (nelts m) = n" using rep unfolding heap_rep_def by blast
  then have nz: "nelts m \<noteq> 0" using n by auto
  note lk = heap_rep_links [OF rep]
  obtain path k where pk: "heap_path 0 0 (nelts m) = (path, k)" by force
  have w: "heap_walk m Min_slot Min_slot path k = Inr (slot_of at (n div 2), slot_of at n)"
    using walk_to [OF lk _ _ pk] u n by simp
  let ?m1 = "m\<lparr>nelts := nelts m - 1\<rparr>"
  have "links ?m1 at n" using lk by (simp add: links_def)
  from read_slot_of [OF this n] n have "read_slot ?m1 (slot_of at n) = Some (at n)" by simp
  then show ?thesis using nz unfolding heap_remove_def pk by (simp add: w)
qed

lemma heap_remove_ok:
  assumes "heap_ok lt m S" "x \<in> S"
  shows "\<exists>m'. heap_remove lt m x = Some (Inr m') \<and> heap_ok lt m' (S - {x})"
proof -
  from assms(1) obtain at n where r: "heap_rep m at n" "ordered_but lt at n {}" "at ` {1..n} = S"
    by (auto simp: heap_ok_def)
  from assms(2) r(3) obtain j where j: "x = at j" "1 \<le> j" "j \<le> n" by auto
  then have n: "1 \<le> n" by simp
  let ?m2 = "write_slot (m\<lparr>nelts := nelts m - 1\<rparr>) (slot_of at n) None"
  have rep2: "heap_rep ?m2 at (n - 1)" by (rule unlink_rep [OF r(1) n])
  have last: "at n \<notin> at ` {1..n - 1}" by (rule heap_rep_last [OF r(1) n])
  have S: "S = insert (at n) (at ` {1..n - 1})"
  proof -
    have "{1..n} = insert n {1..n - 1}" using n by auto
    then show ?thesis using r(3) by auto
  qed
  note eq = heap_remove_eq [OF r(1) n, of x]
  show ?thesis
  proof (cases "j = n")
    case True
    have "heap_root ?m2 \<noteq> Some (at n)"
      using heap_rep_root [OF rep2] at_eq [OF r(1), of n 1] n by (auto simp: node_at_def)
    then have "heap_remove lt m x = Some (Inr ?m2)" using eq True j by simp
    moreover have "ordered_but lt at (n - 1) {}" using r(2) by (simp add: ordered_but_def)
    moreover have "at ` {1..n - 1} = S - {x}" using S last True j by auto
    ultimately show ?thesis using rep2 unfolding heap_ok_def by blast
  next
    case False
    then have j': "j \<le> n - 1" using j by simp
    let ?m3 = "heap_replace ?m2 (at j) (at n)" and ?at = "at(j := at n)"
    have rep3: "heap_rep ?m3 ?at (n - 1)" by (rule replace_rep [OF rep2 j(2) j' last])
    have "loose ?at (n - 1) j" by (rule loose_replaced [OF r(2)])
    from heap_down_ok [OF rep3 j(2) j' this] obtain m4 at4 j4
      where d: "heap_down lt ?m3 (at n) = Some m4" "heap_rep m4 at4 (n - 1)" "at4 j4 = at n" "1 \<le> j4" "j4 \<le> n - 1"
        "ordered_but lt at4 (n - 1) {j4}" "bridged lt at4 (n - 1) j4" "at4 ` {1..n - 1} = ?at ` {1..n - 1}"
      by auto
    from heap_up_ok [OF d(2,4,5,6,7)] d(3) obtain m5 at5
      where "heap_up lt m4 (at n) = Some m5" "heap_rep m5 at5 (n - 1)" "ordered_but lt at5 (n - 1) {}"
        "at5 ` {1..n - 1} = at4 ` {1..n - 1}" by auto
    moreover have "at n \<noteq> x" using at_eq [OF r(1), of n j] j False n by auto
    moreover have "?at ` {1..n - 1} = S - {x}"
      unfolding S j(1) by (rule image_replaced [OF heap_rep_inj [OF rep2] _ last]) (use j j' in auto)
    ultimately show ?thesis using eq d j unfolding heap_ok_def by auto
  qed
qed

end

end
