(* ===== verification/Uv_Handle.thy ===== *)
theory Uv_Handle
  imports Uv_Queue Uv_Heap
begin

text \<open>
  The event loop structure of libuv and the handle macros of
  src/third-party/libuv-1.11.0/src/uv-common.h.  A handle is a number; the fields of the handles are
  functions of it.  The intrusive queues live in one memory whose addresses are the list heads of
  the loop and the nodes inside the handles, requests and watchers.  Callbacks are numbers; what a
  callback does is a parameter of the definitions that call it.
\<close>

section \<open>State\<close>

datatype handle_type =
    UV_ASYNC | UV_CHECK | UV_FS_EVENT | UV_FS_POLL | UV_IDLE | UV_NAMED_PIPE | UV_POLL | UV_PREPARE
  | UV_PROCESS | UV_TCP | UV_TIMER | UV_TTY | UV_UDP | UV_SIGNAL | UV_UNKNOWN_HANDLE

datatype qaddr =
    Handle_queue | Active_reqs | Prepare_handles | Check_handles | Idle_handles | Pending_queue | Local_queue
  | Handle_node nat | Req_node nat | Watcher_node nat | Pending_node nat

type_synonym cb = nat

text \<open>A call of a user callback: which callback, on which handle.\<close>

datatype event =
    Timer_cb cb nat
  | Watcher_cb cb nat
  | Close_cb cb nat
  | Io_cb cb nat

record uv_loop =
  h_type :: "nat \<Rightarrow> handle_type"
  h_flags :: "nat \<Rightarrow> u32"
  h_close_cb :: "nat \<Rightarrow> cb option"
  next_closing :: "nat \<Rightarrow> nat option"
  timer_cb :: "nat \<Rightarrow> cb option"
  timer_timeout :: "nat \<Rightarrow> u64"
  timer_repeat :: "nat \<Rightarrow> u64"
  timer_start_id :: "nat \<Rightarrow> u64"
  watcher_cb :: "nat \<Rightarrow> cb option"
  io_cb :: "nat \<Rightarrow> cb"
  queues :: "qaddr qmem"
  active_handles :: u32
  closing_handles :: "nat option"
  timer_heap :: "nat heap"
  timer_counter :: u64
  loop_time :: u64
  stop_flag :: bool
  calls :: "event list"

section \<open>Flags\<close>

definition UV_CLOSING :: u32 where "UV_CLOSING = 0x01"
definition UV_CLOSED :: u32 where "UV_CLOSED = 0x02"
definition UV__HANDLE_INTERNAL :: u32 where "UV__HANDLE_INTERNAL = 0x8000"
definition UV__HANDLE_ACTIVE :: u32 where "UV__HANDLE_ACTIVE = 0x4000"
definition UV__HANDLE_REF :: u32 where "UV__HANDLE_REF = 0x2000"

definition set_flag :: "nat \<Rightarrow> u32 \<Rightarrow> uv_loop \<Rightarrow> uv_loop" where
  "set_flag h b l = l\<lparr>h_flags := (h_flags l)(h := h_flags l h OR b)\<rparr>"

definition clear_flag :: "nat \<Rightarrow> u32 \<Rightarrow> uv_loop \<Rightarrow> uv_loop" where
  "clear_flag h b l = l\<lparr>h_flags := (h_flags l)(h := h_flags l h AND NOT b)\<rparr>"

definition has_flag :: "uv_loop \<Rightarrow> nat \<Rightarrow> u32 \<Rightarrow> bool" where
  "has_flag l h b \<longleftrightarrow> h_flags l h AND b \<noteq> 0"

definition uv__is_active :: "uv_loop \<Rightarrow> nat \<Rightarrow> bool" where
  "uv__is_active l h \<longleftrightarrow> has_flag l h UV__HANDLE_ACTIVE"

definition uv__is_closing :: "uv_loop \<Rightarrow> nat \<Rightarrow> bool" where
  "uv__is_closing l h \<longleftrightarrow> has_flag l h (UV_CLOSING OR UV_CLOSED)"

definition uv__has_ref :: "uv_loop \<Rightarrow> nat \<Rightarrow> bool" where
  "uv__has_ref l h \<longleftrightarrow> has_flag l h UV__HANDLE_REF"

section \<open>Handles and requests\<close>

definition uv__has_active_handles :: "uv_loop \<Rightarrow> bool" where
  "uv__has_active_handles l \<longleftrightarrow> active_handles l > 0"

definition uv__has_active_reqs :: "uv_loop \<Rightarrow> bool" where
  "uv__has_active_reqs l \<longleftrightarrow> \<not> QUEUE_EMPTY (queues l) Active_reqs"

definition uv__active_handle_add :: "uv_loop \<Rightarrow> uv_loop" where
  "uv__active_handle_add l = l\<lparr>active_handles := active_handles l + 1\<rparr>"

definition uv__active_handle_rm :: "uv_loop \<Rightarrow> uv_loop" where
  "uv__active_handle_rm l = l\<lparr>active_handles := active_handles l - 1\<rparr>"

text \<open>On unix \<open>UV__HANDLE_CLOSING\<close> is zero, so the assertions and tests on it have no effect.\<close>

definition uv__handle_start :: "nat \<Rightarrow> uv_loop \<Rightarrow> uv_loop" where
  "uv__handle_start h l =
     (if uv__is_active l h then l
      else let l1 = set_flag h UV__HANDLE_ACTIVE l
           in if uv__has_ref l1 h then uv__active_handle_add l1 else l1)"

definition uv__handle_stop :: "nat \<Rightarrow> uv_loop \<Rightarrow> uv_loop" where
  "uv__handle_stop h l =
     (if \<not> uv__is_active l h then l
      else let l1 = clear_flag h UV__HANDLE_ACTIVE l
           in if uv__has_ref l1 h then uv__active_handle_rm l1 else l1)"

definition uv__handle_ref :: "nat \<Rightarrow> uv_loop \<Rightarrow> uv_loop" where
  "uv__handle_ref h l =
     (if uv__has_ref l h then l
      else let l1 = set_flag h UV__HANDLE_REF l
           in if uv__is_active l1 h then uv__active_handle_add l1 else l1)"

definition uv__handle_unref :: "nat \<Rightarrow> uv_loop \<Rightarrow> uv_loop" where
  "uv__handle_unref h l =
     (if \<not> uv__has_ref l h then l
      else let l1 = clear_flag h UV__HANDLE_REF l
           in if uv__is_active l1 h then uv__active_handle_rm l1 else l1)"

definition uv__handle_init :: "nat \<Rightarrow> handle_type \<Rightarrow> uv_loop \<Rightarrow> uv_loop" where
  "uv__handle_init h ty l =
     l\<lparr>h_type := (h_type l)(h := ty), h_flags := (h_flags l)(h := UV__HANDLE_REF),
       queues := QUEUE_INSERT_TAIL (queues l) Handle_queue (Handle_node h),
       next_closing := (next_closing l)(h := None)\<rparr>"

definition uv__req_register :: "nat \<Rightarrow> uv_loop \<Rightarrow> uv_loop" where
  "uv__req_register r l = l\<lparr>queues := QUEUE_INSERT_TAIL (queues l) Active_reqs (Req_node r)\<rparr>"

text \<open>\<open>None\<close>: the assertion that there is an active request fails.\<close>

definition uv__req_unregister :: "nat \<Rightarrow> uv_loop \<Rightarrow> uv_loop option" where
  "uv__req_unregister r l =
     (if \<not> uv__has_active_reqs l then None
      else Some (l\<lparr>queues := QUEUE_REMOVE (queues l) (Req_node r)\<rparr>))"

section \<open>Flag arithmetic\<close>

text \<open>Each flag is one bit; setting and clearing it leaves the other bits alone.\<close>

lemma flag_bits:
  "UV_CLOSING = push_bit 0 1" "UV_CLOSED = push_bit 1 1" "UV__HANDLE_INTERNAL = push_bit 15 1"
  "UV__HANDLE_ACTIVE = push_bit 14 1" "UV__HANDLE_REF = push_bit 13 1"
  by (simp_all add: UV_CLOSING_def UV_CLOSED_def UV__HANDLE_INTERNAL_def UV__HANDLE_ACTIVE_def UV__HANDLE_REF_def)

lemma and_push_bit: "n < 32 \<Longrightarrow> (w AND push_bit n 1 \<noteq> (0 :: u32)) \<longleftrightarrow> bit w n"
proof -
  assume n: "n < 32"
  have "(w AND push_bit n 1 = (0 :: u32)) \<longleftrightarrow> \<not> bit w n"
  proof
    assume "w AND push_bit n 1 = 0"
    then have "bit (w AND push_bit n 1) n = bit (0 :: u32) n" by (rule arg_cong)
    then show "\<not> bit w n" using n by (simp add: bit_and_iff bit_push_bit_iff bit_1_iff bit_exp_iff)
  next
    assume "\<not> bit w n"
    then show "w AND push_bit n 1 = 0"
      by (intro bit_eqI) (auto simp: bit_and_iff bit_push_bit_iff bit_1_iff bit_exp_iff)
  qed
  then show ?thesis by blast
qed

lemma flag_tests:
  "uv__is_active l h \<longleftrightarrow> bit (h_flags l h) 14" "uv__has_ref l h \<longleftrightarrow> bit (h_flags l h) 13"
  unfolding uv__is_active_def uv__has_ref_def has_flag_def flag_bits by (simp_all only: and_push_bit)

lemma bit_or_flag: "n < 32 \<Longrightarrow> bit ((w :: u32) OR push_bit n 1) i \<longleftrightarrow> bit w i \<or> i = n"
  by (auto simp: bit_or_iff bit_push_bit_iff bit_1_iff bit_exp_iff)

lemma bit_and_not_flag: "n < 32 \<Longrightarrow> bit ((w :: u32) AND NOT (push_bit n 1)) i \<longleftrightarrow> bit w i \<and> i \<noteq> n"
  using bit_imp_le_length [of w i] by (auto simp: bit_and_iff bit_not_iff bit_push_bit_iff bit_1_iff bit_exp_iff)

lemma is_closing_bits: "uv__is_closing l h \<longleftrightarrow> bit (h_flags l h) 0 \<or> bit (h_flags l h) 1"
proof -
  have "h_flags l h AND (UV_CLOSING OR UV_CLOSED)
      = (h_flags l h AND UV_CLOSING) OR (h_flags l h AND UV_CLOSED)" by (simp add: bit.conj_disj_distrib)
  then show ?thesis
    unfolding uv__is_closing_def has_flag_def
    using and_push_bit [of 0 "h_flags l h"] and_push_bit [of 1 "h_flags l h"] by (simp add: flag_bits or_eq_0_iff)
qed

section \<open>The count of active handles\<close>

definition referenced :: "uv_loop \<Rightarrow> nat set" where
  "referenced l = {h. uv__is_active l h \<and> uv__has_ref l h}"

definition counted :: "uv_loop \<Rightarrow> bool" where
  "counted l \<longleftrightarrow> finite (referenced l) \<and> active_handles l = of_nat (card (referenced l))"

lemma set_flag_bits:
  "n < 32 \<Longrightarrow> bit (h_flags (set_flag h (push_bit n 1) l) k) i \<longleftrightarrow> bit (h_flags l k) i \<or> k = h \<and> i = n"
  using bit_or_flag [of n "h_flags l h" i] by (cases "k = h") (simp_all add: set_flag_def)

lemma clear_flag_bits:
  "n < 32 \<Longrightarrow> bit (h_flags (clear_flag h (push_bit n 1) l) k) i \<longleftrightarrow> bit (h_flags l k) i \<and> \<not> (k = h \<and> i = n)"
  using bit_and_not_flag [of n "h_flags l h" i] by (cases "k = h") (simp_all add: clear_flag_def)

lemma flag_sel [simp]:
  "active_handles (set_flag h b l) = active_handles l" "active_handles (clear_flag h b l) = active_handles l"
  "queues (set_flag h b l) = queues l" "queues (clear_flag h b l) = queues l"
  "timer_heap (set_flag h b l) = timer_heap l" "timer_heap (clear_flag h b l) = timer_heap l"
  "h_flags (uv__active_handle_add l) = h_flags l" "h_flags (uv__active_handle_rm l) = h_flags l"
  by (simp_all add: set_flag_def clear_flag_def uv__active_handle_add_def uv__active_handle_rm_def)

text \<open>How each macro changes the flags of the handles.\<close>

lemma handle_start_bits:
  "bit (h_flags (uv__handle_start h l) k) i \<longleftrightarrow> bit (h_flags l k) i \<or> k = h \<and> i = 14"
proof -
  have "bit (h_flags (set_flag h UV__HANDLE_ACTIVE l) k) i \<longleftrightarrow> bit (h_flags l k) i \<or> k = h \<and> i = 14"
    unfolding flag_bits by (rule set_flag_bits) simp
  then show ?thesis by (auto simp: uv__handle_start_def Let_def flag_tests)
qed

lemma handle_stop_bits:
  "bit (h_flags (uv__handle_stop h l) k) i \<longleftrightarrow> bit (h_flags l k) i \<and> \<not> (k = h \<and> i = 14)"
proof -
  have "bit (h_flags (clear_flag h UV__HANDLE_ACTIVE l) k) i \<longleftrightarrow> bit (h_flags l k) i \<and> \<not> (k = h \<and> i = 14)"
    unfolding flag_bits by (rule clear_flag_bits) simp
  then show ?thesis by (auto simp: uv__handle_stop_def Let_def flag_tests)
qed

lemma handle_ref_bits:
  "bit (h_flags (uv__handle_ref h l) k) i \<longleftrightarrow> bit (h_flags l k) i \<or> k = h \<and> i = 13"
proof -
  have "bit (h_flags (set_flag h UV__HANDLE_REF l) k) i \<longleftrightarrow> bit (h_flags l k) i \<or> k = h \<and> i = 13"
    unfolding flag_bits by (rule set_flag_bits) simp
  then show ?thesis by (auto simp: uv__handle_ref_def Let_def flag_tests)
qed

lemma handle_unref_bits:
  "bit (h_flags (uv__handle_unref h l) k) i \<longleftrightarrow> bit (h_flags l k) i \<and> \<not> (k = h \<and> i = 13)"
proof -
  have "bit (h_flags (clear_flag h UV__HANDLE_REF l) k) i \<longleftrightarrow> bit (h_flags l k) i \<and> \<not> (k = h \<and> i = 13)"
    unfolding flag_bits by (rule clear_flag_bits) simp
  then show ?thesis by (auto simp: uv__handle_unref_def Let_def flag_tests)
qed

lemmas handle_bits = handle_start_bits handle_stop_bits handle_ref_bits handle_unref_bits

text \<open>And the count.\<close>

lemma set_active_test: "uv__has_ref (set_flag h UV__HANDLE_ACTIVE l) h \<longleftrightarrow> uv__has_ref l h"
  unfolding flag_bits flag_tests by (subst set_flag_bits) simp_all

lemma clear_active_test: "uv__has_ref (clear_flag h UV__HANDLE_ACTIVE l) h \<longleftrightarrow> uv__has_ref l h"
  unfolding flag_bits flag_tests by (subst clear_flag_bits) simp_all

lemma set_ref_test: "uv__is_active (set_flag h UV__HANDLE_REF l) h \<longleftrightarrow> uv__is_active l h"
  unfolding flag_bits flag_tests by (subst set_flag_bits) simp_all

lemma clear_ref_test: "uv__is_active (clear_flag h UV__HANDLE_REF l) h \<longleftrightarrow> uv__is_active l h"
  unfolding flag_bits flag_tests by (subst clear_flag_bits) simp_all

lemmas flag_test_simps = set_active_test clear_active_test set_ref_test clear_ref_test

lemma referenced_simps:
  "referenced (uv__handle_start h l) = (if uv__has_ref l h then insert h (referenced l) else referenced l)"
  "referenced (uv__handle_stop h l) = referenced l - {h}"
  "referenced (uv__handle_ref h l) = (if uv__is_active l h then insert h (referenced l) else referenced l)"
  "referenced (uv__handle_unref h l) = referenced l - {h}"
  by (auto simp: referenced_def flag_tests handle_bits)

lemma active_handles_simps:
  "active_handles (uv__handle_start h l)
     = (if \<not> uv__is_active l h \<and> uv__has_ref l h then active_handles l + 1 else active_handles l)"
  "active_handles (uv__handle_stop h l)
     = (if uv__is_active l h \<and> uv__has_ref l h then active_handles l - 1 else active_handles l)"
  "active_handles (uv__handle_ref h l)
     = (if uv__is_active l h \<and> \<not> uv__has_ref l h then active_handles l + 1 else active_handles l)"
  "active_handles (uv__handle_unref h l)
     = (if uv__is_active l h \<and> uv__has_ref l h then active_handles l - 1 else active_handles l)"
  by (auto simp: uv__handle_start_def uv__handle_stop_def uv__handle_ref_def uv__handle_unref_def Let_def
      flag_test_simps uv__active_handle_add_def uv__active_handle_rm_def)

lemma card_remove_u32:
  "finite A \<Longrightarrow> x \<in> A \<Longrightarrow> (of_nat (card A) :: u32) - 1 = of_nat (card (A - {x}))"
  using arg_cong [OF card_Suc_Diff1 [of A x], of "of_nat :: nat \<Rightarrow> u32"] by (simp del: card_Diff_singleton add: algebra_simps)

lemma counted_start: "counted l \<Longrightarrow> counted (uv__handle_start h l)"
  by (cases "h \<in> referenced l")
    (auto simp: counted_def referenced_simps active_handles_simps insert_absorb, auto simp: referenced_def)

lemma counted_stop: "counted l \<Longrightarrow> counted (uv__handle_stop h l)"
  by (cases "h \<in> referenced l")
    (auto simp: counted_def referenced_simps active_handles_simps card_remove_u32, auto simp: referenced_def)

lemma counted_ref: "counted l \<Longrightarrow> counted (uv__handle_ref h l)"
  by (cases "h \<in> referenced l")
    (auto simp: counted_def referenced_simps active_handles_simps insert_absorb, auto simp: referenced_def)

lemma counted_unref: "counted l \<Longrightarrow> counted (uv__handle_unref h l)"
  by (cases "h \<in> referenced l")
    (auto simp: counted_def referenced_simps active_handles_simps card_remove_u32, auto simp: referenced_def)

end
