(* ===== verification/Uv_Timer.thy ===== *)
theory Uv_Timer
  imports Uv_Handle
begin

text \<open>
  The timers of libuv (src/third-party/libuv-1.11.0/src/unix/timer.c): the loop keeps the active
  timers in the heap, ordered by due time and, for equal due times, by the order of their starts.
  \<open>user\<close> is what the user's callbacks do to the loop.
\<close>

section \<open>The code\<close>

definition EINVAL :: int where
  "EINVAL = 22"

definition timer_less_than :: "uv_loop \<Rightarrow> nat \<Rightarrow> nat \<Rightarrow> bool" where
  "timer_less_than l a b =
     (if timer_timeout l a < timer_timeout l b then True
      else if timer_timeout l b < timer_timeout l a then False
      else if timer_start_id l a < timer_start_id l b then True
      else if timer_start_id l b < timer_start_id l a then False
      else False)"

definition uv_timer_init :: "nat \<Rightarrow> uv_loop \<Rightarrow> uv_loop \<times> int" where
  "uv_timer_init h l =
     (let l1 = uv__handle_init h UV_TIMER l
      in (l1\<lparr>timer_cb := (timer_cb l1)(h := None), timer_repeat := (timer_repeat l1)(h := 0)\<rparr>, 0))"

definition uv_timer_stop :: "nat \<Rightarrow> uv_loop \<Rightarrow> (uv_loop \<times> int) run" where
  "uv_timer_stop h l =
     (if \<not> uv__is_active l h then ret (l, 0)
      else run_bind (heap_remove (timer_less_than l) (timer_heap l) h) (\<lambda>hp.
             ret (uv__handle_stop h (l\<lparr>timer_heap := hp\<rparr>), 0)))"

definition uv_timer_start :: "nat \<Rightarrow> cb option \<Rightarrow> u64 \<Rightarrow> u64 \<Rightarrow> uv_loop \<Rightarrow> (uv_loop \<times> int) run" where
  "uv_timer_start h cb timeout rpt l =
     (if cb = None then ret (l, - EINVAL)
      else
        run_bind (if uv__is_active l h then uv_timer_stop h l else ret (l, 0)) (\<lambda>(l1, _).
          let sum = loop_time l1 + timeout;
              clamped_timeout = (if sum < timeout then - 1 else sum);
              l2 = l1\<lparr>timer_cb := (timer_cb l1)(h := cb),
                      timer_timeout := (timer_timeout l1)(h := clamped_timeout),
                      timer_repeat := (timer_repeat l1)(h := rpt),
                      timer_start_id := (timer_start_id l1)(h := timer_counter l1),
                      timer_counter := timer_counter l1 + 1\<rparr>
          in run_bind (heap_insert (timer_less_than l2) (timer_heap l2) h) (\<lambda>hp.
               ret (uv__handle_start h (l2\<lparr>timer_heap := hp\<rparr>), 0))))"

definition uv_timer_again :: "nat \<Rightarrow> uv_loop \<Rightarrow> (uv_loop \<times> int) run" where
  "uv_timer_again h l =
     (if timer_cb l h = None then ret (l, - EINVAL)
      else if timer_repeat l h \<noteq> 0 then
        run_bind (uv_timer_stop h l) (\<lambda>(l1, _).
        run_bind (uv_timer_start h (timer_cb l1 h) (timer_repeat l1 h) (timer_repeat l1 h) l1) (\<lambda>(l2, _).
          ret (l2, 0)))
      else ret (l, 0))"

definition uv_timer_set_repeat :: "nat \<Rightarrow> u64 \<Rightarrow> uv_loop \<Rightarrow> uv_loop" where
  "uv_timer_set_repeat h rpt l = l\<lparr>timer_repeat := (timer_repeat l)(h := rpt)\<rparr>"

definition uv_timer_get_repeat :: "nat \<Rightarrow> uv_loop \<Rightarrow> u64" where
  "uv_timer_get_repeat h l = timer_repeat l h"

definition INT_MAX :: u64 where
  "INT_MAX = 2 ^ 31 - 1"

definition uv__next_timeout :: "uv_loop \<Rightarrow> int" where
  "uv__next_timeout l =
     (case heap_min (timer_heap l) of
        None \<Rightarrow> - 1
      | Some h \<Rightarrow>
          if timer_timeout l h \<le> loop_time l then 0
          else let diff = timer_timeout l h - loop_time l
               in uint (if diff > INT_MAX then INT_MAX else diff))"

definition log_call :: "event \<Rightarrow> uv_loop \<Rightarrow> uv_loop" where
  "log_call e l = l\<lparr>calls := calls l @ [e]\<rparr>"

text \<open>The body of the loop of \<open>uv__run_timers\<close> for the due timer \<open>h\<close>, up to the callback.\<close>

definition fire_timer :: "(cb \<Rightarrow> nat \<Rightarrow> uv_loop \<Rightarrow> uv_loop) \<Rightarrow> nat \<Rightarrow> uv_loop \<Rightarrow> uv_loop run" where
  "fire_timer user h l =
     run_bind (uv_timer_stop h l) (\<lambda>(l1, _).
     run_bind (uv_timer_again h l1) (\<lambda>(l2, _).
       case timer_cb l2 h of
         None \<Rightarrow> Some (Inl Null_dereference)
       | Some cb \<Rightarrow> ret (user cb h (log_call (Timer_cb cb h) l2))))"

partial_function (option) uv__run_timers :: "(cb \<Rightarrow> nat \<Rightarrow> uv_loop \<Rightarrow> uv_loop) \<Rightarrow> uv_loop \<Rightarrow> uv_loop run" where
  "uv__run_timers user l =
     (case heap_min (timer_heap l) of
        None \<Rightarrow> Some (Inr l)
      | Some h \<Rightarrow>
          if timer_timeout l h > loop_time l then Some (Inr l)
          else Option.bind (fire_timer user h l) (\<lambda>r.
                 case r of Inl u \<Rightarrow> Some (Inl u) | Inr l1 \<Rightarrow> uv__run_timers user l1))"

definition uv__timer_close :: "nat \<Rightarrow> uv_loop \<Rightarrow> uv_loop run" where
  "uv__timer_close h l = run_bind (uv_timer_stop h l) (\<lambda>(l1, _). ret l1)"

section \<open>The order of timers\<close>

lemma timer_less_iff:
  "timer_less_than l a b \<longleftrightarrow>
     timer_timeout l a < timer_timeout l b \<or>
     timer_timeout l a = timer_timeout l b \<and> timer_start_id l a < timer_start_id l b"
  by (auto simp: timer_less_than_def)

interpretation timer_order: heap_compare "timer_less_than l" for l
  by unfold_locales (auto simp: timer_less_iff)

section \<open>The set of active timers\<close>

definition timers_ok :: "uv_loop \<Rightarrow> nat set \<Rightarrow> bool" where
  "timers_ok l T \<longleftrightarrow> heap_ok (timer_less_than l) (timer_heap l) T \<and>
     T = {h. h_type l h = UV_TIMER \<and> uv__is_active l h} \<and> (\<forall>h \<in> T. timer_cb l h \<noteq> None)"

lemma handle_start_sel [simp]:
  "h_type (uv__handle_start h l) = h_type l" "timer_cb (uv__handle_start h l) = timer_cb l"
  "timer_timeout (uv__handle_start h l) = timer_timeout l" "timer_repeat (uv__handle_start h l) = timer_repeat l"
  "timer_start_id (uv__handle_start h l) = timer_start_id l" "timer_counter (uv__handle_start h l) = timer_counter l"
  "loop_time (uv__handle_start h l) = loop_time l" "calls (uv__handle_start h l) = calls l"
  "timer_heap (uv__handle_start h l) = timer_heap l" "queues (uv__handle_start h l) = queues l"
  "watcher_cb (uv__handle_start h l) = watcher_cb l" "closing_handles (uv__handle_start h l) = closing_handles l"
  by (simp_all add: uv__handle_start_def uv__active_handle_add_def set_flag_def Let_def)

lemma handle_stop_sel [simp]:
  "h_type (uv__handle_stop h l) = h_type l" "timer_cb (uv__handle_stop h l) = timer_cb l"
  "timer_timeout (uv__handle_stop h l) = timer_timeout l" "timer_repeat (uv__handle_stop h l) = timer_repeat l"
  "timer_start_id (uv__handle_stop h l) = timer_start_id l" "timer_counter (uv__handle_stop h l) = timer_counter l"
  "loop_time (uv__handle_stop h l) = loop_time l" "calls (uv__handle_stop h l) = calls l"
  "timer_heap (uv__handle_stop h l) = timer_heap l" "queues (uv__handle_stop h l) = queues l"
  "watcher_cb (uv__handle_stop h l) = watcher_cb l" "closing_handles (uv__handle_stop h l) = closing_handles l"
  by (simp_all add: uv__handle_stop_def uv__active_handle_rm_def clear_flag_def Let_def)

lemma is_active_start [simp]: "uv__is_active (uv__handle_start h l) k \<longleftrightarrow> uv__is_active l k \<or> k = h"
  by (auto simp: flag_tests handle_bits)

lemma is_active_stop [simp]: "uv__is_active (uv__handle_stop h l) k \<longleftrightarrow> uv__is_active l k \<and> k \<noteq> h"
  by (auto simp: flag_tests handle_bits)

lemma is_active_cong: "h_flags l' h = h_flags l h \<Longrightarrow> uv__is_active l' h = uv__is_active l h"
  by (simp add: uv__is_active_def has_flag_def)

lemma timer_less_cong:
  "timer_timeout l' a = timer_timeout l a \<Longrightarrow> timer_timeout l' b = timer_timeout l b \<Longrightarrow>
   timer_start_id l' a = timer_start_id l a \<Longrightarrow> timer_start_id l' b = timer_start_id l b \<Longrightarrow>
   timer_less_than l' a b = timer_less_than l a b"
  by (simp add: timer_less_iff)

text \<open>The fields a stop leaves alone.\<close>

definition same_fields :: "uv_loop \<Rightarrow> uv_loop \<Rightarrow> bool" where
  "same_fields l l' \<longleftrightarrow> timer_cb l' = timer_cb l \<and> timer_timeout l' = timer_timeout l \<and>
     timer_repeat l' = timer_repeat l \<and> timer_start_id l' = timer_start_id l \<and> h_type l' = h_type l \<and>
     loop_time l' = loop_time l \<and> timer_counter l' = timer_counter l \<and> calls l' = calls l"

lemma timer_stop_ok:
  assumes "timers_ok l T" "h_type l h = UV_TIMER"
  shows "\<exists>l'. uv_timer_stop h l = ret (l', 0) \<and> timers_ok l' (T - {h}) \<and> same_fields l l'"
proof (cases "uv__is_active l h")
  case True
  with assms have hT: "h \<in> T" and hp: "heap_ok (timer_less_than l) (timer_heap l) T" by (auto simp: timers_ok_def)
  from timer_order.heap_remove_ok [OF hp hT] obtain hp' where hp':
    "heap_remove (timer_less_than l) (timer_heap l) h = ret hp'" "heap_ok (timer_less_than l) hp' (T - {h})"
    by (auto simp: ret_def)
  let ?l = "uv__handle_stop h (l\<lparr>timer_heap := hp'\<rparr>)"
  have "timer_less_than ?l = timer_less_than l" by (intro ext timer_less_cong) simp_all
  moreover have "uv__is_active (l\<lparr>timer_heap := hp'\<rparr>) k = uv__is_active l k" for k by (rule is_active_cong) simp
  ultimately have "timers_ok ?l (T - {h})" using assms(1) hp'(2) by (auto simp: timers_ok_def)
  moreover have "same_fields l ?l" by (simp add: same_fields_def)
  moreover have "uv_timer_stop h l = ret (?l, 0)" using True hp'(1) by (simp add: uv_timer_stop_def)
  ultimately show ?thesis by blast
next
  case False
  with assms have "T - {h} = T" by (auto simp: timers_ok_def)
  with False assms(1) show ?thesis by (auto simp: uv_timer_stop_def same_fields_def)
qed

definition clamp :: "u64 \<Rightarrow> u64 \<Rightarrow> u64" where
  "clamp now timeout = (if now + timeout < timeout then - 1 else now + timeout)"

text \<open>The fields \<open>uv_timer_start\<close> writes before the timer enters the heap.\<close>

definition armed :: "nat \<Rightarrow> cb \<Rightarrow> u64 \<Rightarrow> u64 \<Rightarrow> uv_loop \<Rightarrow> uv_loop" where
  "armed h cb timeout rpt l = l\<lparr>timer_cb := (timer_cb l)(h := Some cb),
      timer_timeout := (timer_timeout l)(h := clamp (loop_time l) timeout),
      timer_repeat := (timer_repeat l)(h := rpt), timer_start_id := (timer_start_id l)(h := timer_counter l),
      timer_counter := timer_counter l + 1\<rparr>"

lemma armed_enters:
  assumes ok: "timers_ok l T" and h: "h_type l h = UV_TIMER" "h \<notin> T" and n: "Suc (card T) < 2 ^ 32"
    and l2_def: "l2 = armed h cb timeout rpt l"
  shows "\<exists>hp. heap_insert (timer_less_than l2) (timer_heap l2) h = ret hp \<and>
    timers_ok (uv__handle_start h (l2\<lparr>timer_heap := hp\<rparr>)) (insert h T)"
proof -
  have "heap_ok (timer_less_than l) (timer_heap l) T" "timer_heap l2 = timer_heap l"
    using ok unfolding timers_ok_def by (blast, simp add: l2_def armed_def)
  then have "heap_ok (timer_less_than l) (timer_heap l2) T" by simp
  then have "heap_ok (timer_less_than l2) (timer_heap l2) T"
    by (rule heap_ok_cong) (use h(2) in \<open>auto simp: l2_def armed_def timer_less_iff\<close>)
  from timer_order.heap_insert_ok [OF this h(2) n] obtain hp where hp: "heap_insert (timer_less_than l2) (timer_heap l2) h = ret hp"
    "heap_ok (timer_less_than l2) hp (insert h T)" by (auto simp: ret_def)
  let ?l = "uv__handle_start h (l2\<lparr>timer_heap := hp\<rparr>)"
  have less: "timer_less_than ?l = timer_less_than l2" by (intro ext timer_less_cong) simp_all
  have act: "uv__is_active ?l k \<longleftrightarrow> uv__is_active l k \<or> k = h" for k
    using is_active_cong [of "l2\<lparr>timer_heap := hp\<rparr>" k l] by (simp add: l2_def armed_def)
  have "insert h T = {k. h_type ?l k = UV_TIMER \<and> uv__is_active ?l k}"
  proof (rule set_eqI)
    fix k
    have "k \<in> T \<longleftrightarrow> h_type l k = UV_TIMER \<and> uv__is_active l k" using ok unfolding timers_ok_def by blast
    then show "k \<in> insert h T \<longleftrightarrow> k \<in> {k. h_type ?l k = UV_TIMER \<and> uv__is_active ?l k}"
      using h(1) unfolding mem_Collect_eq act by (auto simp: l2_def armed_def)
  qed
  moreover have "\<forall>k \<in> insert h T. timer_cb ?l k \<noteq> None" using ok unfolding timers_ok_def by (auto simp: l2_def armed_def)
  moreover have "heap_ok (timer_less_than ?l) (timer_heap ?l) (insert h T)" using hp(2) unfolding less by simp
  ultimately have "timers_ok ?l (insert h T)" unfolding timers_ok_def by blast
  with hp(1) show ?thesis by blast
qed

lemma timer_start_ok:
  assumes "timers_ok l T" "h_type l h = UV_TIMER" "Suc (card T) < 2 ^ 32"
  shows "\<exists>l'. uv_timer_start h (Some cb) timeout rpt l = ret (l', 0) \<and> timers_ok l' (insert h T) \<and>
    timer_cb l' = (timer_cb l)(h := Some cb) \<and> timer_timeout l' = (timer_timeout l)(h := clamp (loop_time l) timeout) \<and>
    timer_repeat l' = (timer_repeat l)(h := rpt) \<and> timer_start_id l' = (timer_start_id l)(h := timer_counter l) \<and>
    timer_counter l' = timer_counter l + 1 \<and> loop_time l' = loop_time l \<and> h_type l' = h_type l \<and> calls l' = calls l"
proof -
  obtain l1 where l1: "(if uv__is_active l h then uv_timer_stop h l else ret (l, 0)) = ret (l1, 0)"
    "timers_ok l1 (T - {h})" "same_fields l l1"
  proof (cases "uv__is_active l h")
    case True
    then show ?thesis using timer_stop_ok [OF assms(1,2)] that by auto
  next
    case False
    then have "T - {h} = T" using assms(1,2) by (auto simp: timers_ok_def)
    then show ?thesis using False assms(1) that by (auto simp: same_fields_def)
  qed
  note sf = l1(3) [unfolded same_fields_def]
  let ?l2 = "armed h cb timeout rpt l1"
  have "h_type l1 h = UV_TIMER" "h \<notin> T - {h}" "Suc (card (T - {h})) < 2 ^ 32" "insert h (T - {h}) = insert h T"
    using assms(2,3) sf card_Diff1_le [of T h] by auto
  with armed_enters [OF l1(2), of h ?l2 cb timeout rpt] obtain hp where
    hp: "heap_insert (timer_less_than ?l2) (timer_heap ?l2) h = ret hp"
      "timers_ok (uv__handle_start h (?l2\<lparr>timer_heap := hp\<rparr>)) (insert h T)" by metis
  have "uv_timer_start h (Some cb) timeout rpt l
      = run_bind (heap_insert (timer_less_than ?l2) (timer_heap ?l2) h) (\<lambda>hp. ret (uv__handle_start h (?l2\<lparr>timer_heap := hp\<rparr>), 0))"
    unfolding uv_timer_start_def Let_def l1(1) by (simp add: armed_def clamp_def)
  then show ?thesis using hp sf
    by (intro exI [of _ "uv__handle_start h (?l2\<lparr>timer_heap := hp\<rparr>)"]) (simp add: armed_def)
qed

section \<open>Running the timers\<close>

text \<open>Callbacks that leave the timers and the clock alone; they may do anything else to the loop.\<close>

definition timer_view :: "uv_loop \<Rightarrow> nat heap \<times> (nat \<Rightarrow> u32) \<times> (nat \<Rightarrow> handle_type) \<times> (nat \<Rightarrow> cb option) \<times>
    (nat \<Rightarrow> u64) \<times> (nat \<Rightarrow> u64) \<times> (nat \<Rightarrow> u64) \<times> u64 \<times> u64 \<times> event list" where
  "timer_view l = (timer_heap l, h_flags l, h_type l, timer_cb l, timer_timeout l, timer_repeat l, timer_start_id l,
     timer_counter l, loop_time l, calls l)"

definition keeps_timers :: "(cb \<Rightarrow> nat \<Rightarrow> uv_loop \<Rightarrow> uv_loop) \<Rightarrow> bool" where
  "keeps_timers user \<longleftrightarrow> (\<forall>cb h l. timer_view (user cb h l) = timer_view l)"

lemma timers_ok_view:
  assumes "timer_view l' = timer_view l" "timers_ok l T"
  shows "timers_ok l' T"
proof -
  have v: "timer_heap l' = timer_heap l" "h_flags l' = h_flags l" "h_type l' = h_type l" "timer_cb l' = timer_cb l"
    "timer_timeout l' = timer_timeout l" "timer_start_id l' = timer_start_id l"
    using assms(1) by (simp_all add: timer_view_def)
  then have less: "timer_less_than l' = timer_less_than l" by (intro ext timer_less_cong) simp_all
  have act: "uv__is_active l' h = uv__is_active l h" for h by (rule is_active_cong) (simp add: v)
  show ?thesis using assms(2) unfolding timers_ok_def v less act .
qed

lemma clamp_later: "0 < rpt \<Longrightarrow> now < - 1 \<Longrightarrow> now < clamp now rpt"
proof -
  assume r: "0 < rpt" and n: "now < - 1"
  show ?thesis
  proof (cases "now + rpt < rpt")
    case True
    with n show ?thesis by (simp add: clamp_def)
  next
    case False
    then have "\<not> unat now + unat rpt \<ge> 2 ^ 64"
      using r unsigned_less [of now, where ?'a = nat] by (auto simp: word_less_nat_alt unat_plus_if_size word_size)
    then have "unat (now + rpt) = unat now + unat rpt" by (simp add: unat_plus_if_size word_size)
    with r False show ?thesis by (simp add: clamp_def word_less_nat_alt)
  qed
qed

lemma timers_ok_log: "timers_ok (log_call e l) T = timers_ok l T"
proof -
  have "timer_less_than (log_call e l) = timer_less_than l"
    by (intro ext timer_less_cong) (simp_all add: log_call_def)
  moreover have "uv__is_active (log_call e l) h = uv__is_active l h" for h
    by (rule is_active_cong) (simp add: log_call_def)
  ultimately show ?thesis by (simp add: timers_ok_def log_call_def)
qed

lemma callback_keeps:
  assumes "keeps_timers user" "timers_ok l T" "l' = user cb h (log_call e l)"
  shows "timers_ok l' T" "calls l' = calls l @ [e]" "loop_time l' = loop_time l" "timer_timeout l' = timer_timeout l"
    "timer_start_id l' = timer_start_id l" "timer_cb l' = timer_cb l" "timer_repeat l' = timer_repeat l"
    "h_type l' = h_type l" "timer_counter l' = timer_counter l"
proof -
  have v: "timer_view l' = timer_view (log_call e l)" using assms(1,3) by (simp add: keeps_timers_def)
  then show "calls l' = calls l @ [e]" "loop_time l' = loop_time l" "timer_timeout l' = timer_timeout l"
    "timer_start_id l' = timer_start_id l" "timer_cb l' = timer_cb l" "timer_repeat l' = timer_repeat l"
    "h_type l' = h_type l" "timer_counter l' = timer_counter l"
    by (simp_all add: timer_view_def log_call_def)
  show "timers_ok l' T" using timers_ok_view [OF v] assms(2) by (simp add: timers_ok_log)
qed

text \<open>Firing the due timer \<open>h\<close>: it stays active only when it repeats, and then it is due later.\<close>

lemma fire_timer_ok:
  assumes ok: "timers_ok l T" and h: "h \<in> T" and user: "keeps_timers user" and n: "Suc (card T) < 2 ^ 32"
    and now: "loop_time l < - 1"
  shows "\<exists>l' cb. fire_timer user h l = ret l' \<and> timer_cb l h = Some cb \<and> calls l' = calls l @ [Timer_cb cb h] \<and>
    timers_ok l' (if timer_repeat l h = 0 then T - {h} else T) \<and> loop_time l' = loop_time l \<and>
    (\<forall>k. k \<noteq> h \<longrightarrow> timer_timeout l' k = timer_timeout l k \<and> timer_start_id l' k = timer_start_id l k) \<and>
    timer_cb l' = timer_cb l \<and> timer_repeat l' = timer_repeat l \<and>
    (timer_repeat l h \<noteq> 0 \<longrightarrow> loop_time l < timer_timeout l' h)"
proof -
  from ok h have ty: "h_type l h = UV_TIMER" and cbn: "timer_cb l h \<noteq> None" by (auto simp: timers_ok_def)
  then obtain cb where cb: "timer_cb l h = Some cb" by auto
  from timer_stop_ok [OF ok ty] obtain l1 where l1: "uv_timer_stop h l = ret (l1, 0)" "timers_ok l1 (T - {h})"
    "same_fields l l1" by blast
  note sf = l1(3) [unfolded same_fields_def]
  show ?thesis
  proof (cases "timer_repeat l h = 0")
    case True
    then have "uv_timer_again h l1 = ret (l1, 0)" using sf cb by (simp add: uv_timer_again_def)
    then have "fire_timer user h l = ret (user cb h (log_call (Timer_cb cb h) l1))"
      using l1(1) sf cb by (simp add: fire_timer_def)
    moreover note callback_keeps [OF user l1(2) refl, of cb h "Timer_cb cb h"]
    ultimately show ?thesis using True sf cb
      by (intro exI [of _ "user cb h (log_call (Timer_cb cb h) l1)"] exI [of _ cb]) simp
  next
    case False
    let ?r = "timer_repeat l h"
    have h1: "h_type l1 h = UV_TIMER" "Suc (card (T - {h})) < 2 ^ 32" "T - {h} - {h} = T - {h}"
      using ty sf n card_Diff1_le [of T h] by auto
    from timer_stop_ok [OF l1(2) h1(1)] obtain l2 where l2: "uv_timer_stop h l1 = ret (l2, 0)"
      "timers_ok l2 (T - {h})" "same_fields l1 l2" unfolding h1(3) by blast
    note sf2 = l2(3) [unfolded same_fields_def]
    have h2: "h_type l2 h = UV_TIMER" using h1 sf2 by simp
    from timer_start_ok [OF l2(2) h2 h1(2), of cb ?r ?r] obtain l3 where
      l3: "uv_timer_start h (Some cb) ?r ?r l2 = ret (l3, 0)" "timers_ok l3 (insert h (T - {h}))"
        "timer_cb l3 = (timer_cb l2)(h := Some cb)" "timer_timeout l3 = (timer_timeout l2)(h := clamp (loop_time l2) ?r)"
        "timer_repeat l3 = (timer_repeat l2)(h := ?r)" "timer_start_id l3 = (timer_start_id l2)(h := timer_counter l2)"
        "loop_time l3 = loop_time l2" "calls l3 = calls l2" by blast
    have "uv_timer_again h l1 = ret (l3, 0)"
      using False sf sf2 cb l2(1) l3(1) by (simp add: uv_timer_again_def)
    then have "fire_timer user h l = ret (user cb h (log_call (Timer_cb cb h) l3))"
      using l1(1) l3(3) by (simp add: fire_timer_def)
    moreover have "insert h (T - {h}) = T" using h by auto
    moreover have "loop_time l < clamp (loop_time l) ?r"
      using False now by (intro clamp_later) (auto simp: word_neq_0_conv)
    moreover have "(timer_cb l)(h := Some cb) = timer_cb l" "(timer_repeat l)(h := ?r) = timer_repeat l"
      using cb by auto
    moreover note callback_keeps [OF user l3(2) refl, of cb h "Timer_cb cb h"]
    ultimately show ?thesis using False sf sf2 l3(3-8) cb
      by (intro exI [of _ "user cb h (log_call (Timer_cb cb h) l3)"] exI [of _ cb]) simp
  qed
qed

text \<open>The timers that are due, and the calls of their callbacks.\<close>

definition due :: "uv_loop \<Rightarrow> nat set \<Rightarrow> nat set" where
  "due l T = {h \<in> T. timer_timeout l h \<le> loop_time l}"

definition timer_call :: "uv_loop \<Rightarrow> nat \<Rightarrow> event" where
  "timer_call l h = Timer_cb (the (timer_cb l h)) h"

definition rearmed :: "uv_loop \<Rightarrow> nat set \<Rightarrow> nat set" where
  "rearmed l T = {h \<in> T. h \<notin> due l T \<or> timer_repeat l h \<noteq> 0}"

lemma no_due_returns:
  assumes "timers_ok l T" "due l T = {}"
  shows "uv__run_timers user l = ret l"
proof -
  have "heap_ok (timer_less_than l) (timer_heap l) T" using assms(1) unfolding timers_ok_def by blast
  from timer_order.heap_min_ok [OF this] assms(2) show ?thesis
    by (subst uv__run_timers.simps) (fastforce simp: due_def ret_def)
qed

lemma due_min:
  assumes "timers_ok l T" "due l T \<noteq> {}"
  obtains h where "heap_min (timer_heap l) = Some h" "h \<in> due l T" "\<forall>k \<in> T. \<not> timer_less_than l k h"
proof -
  have "heap_ok (timer_less_than l) (timer_heap l) T" using assms(1) unfolding timers_ok_def by blast
  from timer_order.heap_min_ok [OF this] assms(2) obtain h where
    h: "h \<in> T" "heap_min (timer_heap l) = Some h" "\<forall>k \<in> T. \<not> timer_less_than l k h" by (auto simp: due_def)
  from assms(2) obtain k where "k \<in> T" "timer_timeout l k \<le> loop_time l" by (auto simp: due_def)
  with h(3) have "timer_timeout l h \<le> loop_time l" by (fastforce simp: timer_less_iff)
  with h that show ?thesis by (auto simp: due_def)
qed

text \<open>The loop fires the due timers one after the other; the induction is on their number.\<close>

lemma run_timers_due:
  assumes "timers_ok l T" "keeps_timers user" "Suc (card T) < 2 ^ 32" "loop_time l < - 1"
  shows "\<exists>l' hs. uv__run_timers user l = ret l' \<and> calls l' = calls l @ map (timer_call l) hs \<and>
    distinct hs \<and> set hs = due l T \<and> sorted_wrt (\<lambda>a b. \<not> timer_less_than l b a) hs \<and> timers_ok l' (rearmed l T)"
  using assms
proof (induction "card (due l T)" arbitrary: l T)
  case 0
  have fin: "finite T" using 0(2) heap_ok_nelts unfolding timers_ok_def by blast
  then have d: "due l T = {}" using 0(1) by (simp add: due_def)
  then have "rearmed l T = T" by (auto simp: rearmed_def)
  then show ?case using no_due_returns [OF 0(2) d, of user] 0(2) d by (intro exI [of _ l] exI [of _ "[]"]) simp
next
  case (Suc n)
  have fin: "finite T" using Suc.prems(1) heap_ok_nelts unfolding timers_ok_def by blast
  have "due l T \<noteq> {}" using Suc(2) by auto
  from due_min [OF Suc.prems(1) this] obtain h where
    h: "heap_min (timer_heap l) = Some h" "h \<in> due l T" "\<forall>k \<in> T. \<not> timer_less_than l k h" by blast
  then have hT: "h \<in> T" "\<not> timer_timeout l h > loop_time l" by (auto simp: due_def)
  let ?T = "if timer_repeat l h = 0 then T - {h} else T"
  from fire_timer_ok [OF Suc.prems(1) hT(1) Suc.prems(2,3,4)] obtain l1 cb where
    l1: "fire_timer user h l = ret l1" "timer_cb l h = Some cb" "calls l1 = calls l @ [Timer_cb cb h]" "timers_ok l1 ?T"
      "loop_time l1 = loop_time l" "\<forall>k. k \<noteq> h \<longrightarrow> timer_timeout l1 k = timer_timeout l k \<and> timer_start_id l1 k = timer_start_id l k"
      "timer_cb l1 = timer_cb l" "timer_repeat l1 = timer_repeat l" "timer_repeat l h \<noteq> 0 \<longrightarrow> loop_time l < timer_timeout l1 h" by blast
  have d1: "due l1 ?T = due l T - {h}"
  proof (rule set_eqI)
    show "x \<in> due l1 ?T \<longleftrightarrow> x \<in> due l T - {h}" for x
      using l1(5,6,9) by (cases "x = h") (auto simp: due_def)
  qed
  have "n = card (due l1 ?T)" using Suc(2) h(2) fin unfolding d1 by (simp add: due_def)
  moreover have "Suc (card ?T) < 2 ^ 32" using Suc.prems(3) card_Diff1_le [of T h] by auto
  moreover have "loop_time l1 < - 1" using Suc.prems(4) l1(5) by simp
  ultimately obtain l' hs where IH: "uv__run_timers user l1 = ret l'" "calls l' = calls l1 @ map (timer_call l1) hs" "distinct hs"
    "set hs = due l1 ?T" "sorted_wrt (\<lambda>a b. \<not> timer_less_than l1 b a) hs" "timers_ok l' (rearmed l1 ?T)"
    using Suc(1) [OF _ l1(4) Suc.prems(2)] by blast
  have "uv__run_timers user l = ret l'"
    by (subst uv__run_timers.simps) (use h(1) hT(2) l1(1) IH(1) in \<open>simp add: ret_def\<close>)
  moreover have "calls l' = calls l @ map (timer_call l) (h # hs)"
    using IH(2) l1(2,3,7) by (simp add: timer_call_def fun_eq_iff)
  moreover have "distinct (h # hs)" "set (h # hs) = due l T" using IH(3,4) d1 h(2) by auto
  moreover have "sorted_wrt (\<lambda>a b. \<not> timer_less_than l b a) (h # hs)"
  proof -
    have hs: "set hs \<subseteq> T - {h}" using IH(4) d1 by (auto simp: due_def)
    then have "\<forall>k \<in> set hs. timer_timeout l1 k = timer_timeout l k \<and> timer_start_id l1 k = timer_start_id l k"
      using l1(6) by auto
    then have "sorted_wrt (\<lambda>a b. \<not> timer_less_than l b a) hs"
      by (intro sorted_wrt_mono_rel [OF _ IH(5)]) (simp add: timer_less_iff)
    then show ?thesis using hs h(3) by auto
  qed
  moreover have "rearmed l1 ?T = rearmed l T"
    using d1 h(2) l1(8) by (auto simp: rearmed_def due_def)
  ultimately show ?case using IH(6) by metis
qed

section \<open>Properties\<close>

text \<open>
  C38: One round of the timers always returns: it calls the callback of every timer that is due exactly once, in the order
  of the deadlines (the earlier started first among equals), calls no other, and leaves in the heap the timers that are not
  due and the due ones that repeat.  The callbacks may do anything that leaves the timers and the clock alone, and the clock
  has not reached its last value.
\<close>

theorem run_timers_fires_due:
  assumes "timers_ok l T" "keeps_timers user" "Suc (card T) < 2 ^ 32" "loop_time l < - 1"
  shows "\<exists>l' hs. uv__run_timers user l = ret l' \<and> calls l' = calls l @ map (timer_call l) hs \<and>
    distinct hs \<and> set hs = {h \<in> T. timer_timeout l h \<le> loop_time l} \<and>
    sorted_wrt (\<lambda>a b. \<not> timer_less_than l b a) hs \<and>
    timers_ok l' {h \<in> T. timer_timeout l h > loop_time l \<or> timer_repeat l h \<noteq> 0}"
proof -
  have "rearmed l T = {h \<in> T. timer_timeout l h > loop_time l \<or> timer_repeat l h \<noteq> 0}"
    by (auto simp: rearmed_def due_def)
  then show ?thesis using run_timers_due [OF assms] unfolding due_def by simp
qed

text \<open>A loop whose handles 1 and 2 are timers that were not started.\<close>

definition idle_loop :: uv_loop where
  "idle_loop = \<lparr>h_type = (\<lambda>_. UV_TIMER), h_flags = (\<lambda>_. 0), h_close_cb = (\<lambda>_. None), next_closing = (\<lambda>_. None),
     timer_cb = (\<lambda>_. None), timer_timeout = (\<lambda>_. 0), timer_repeat = (\<lambda>_. 0), timer_start_id = (\<lambda>_. 0),
     watcher_cb = (\<lambda>_. None), io_cb = (\<lambda>_. 0), queues = undefined, active_handles = 0, closing_handles = None,
     timer_heap = heap_init undefined, timer_counter = 0, loop_time = 10, stop_flag = False, calls = []\<rparr>"

theorem run_timers_fires_due_witness:
  "\<exists>l1 l2 l3. uv_timer_start 1 (Some 7) 0 0 idle_loop = ret (l1, 0) \<and> uv_timer_start 2 (Some 8) 50 0 l1 = ret (l2, 0) \<and>
     uv__run_timers (\<lambda>_ _ l. l) l2 = ret l3 \<and> calls l3 = [Timer_cb 7 1] \<and> timers_ok l3 {2}"
proof -
  have "timers_ok idle_loop {}"
    by (simp add: timers_ok_def idle_loop_def heap_ok_init uv__is_active_def has_flag_def)
  from timer_start_ok [OF this, of 1 7 0 0] obtain l1 where
    l1: "uv_timer_start 1 (Some 7) 0 0 idle_loop = ret (l1, 0)" "timers_ok l1 {1}" "timer_cb l1 1 = Some 7" "timer_timeout l1 1 = 10"
      "timer_repeat l1 1 = 0" "loop_time l1 = 10" "calls l1 = []" "h_type l1 = h_type idle_loop"
    by (auto simp: idle_loop_def clamp_def)
  from timer_start_ok [OF l1(2), of 2 8 50 0] obtain l2 where
    l2: "uv_timer_start 2 (Some 8) 50 0 l1 = ret (l2, 0)" "timers_ok l2 {2, 1}" "timer_cb l2 = (timer_cb l1)(2 := Some 8)"
      "timer_timeout l2 = (timer_timeout l1)(2 := 60)" "timer_repeat l2 = (timer_repeat l1)(2 := 0)" "loop_time l2 = 10" "calls l2 = []"
    using l1(6-8) by (auto simp: idle_loop_def clamp_def)
  have "{h \<in> {2, 1}. timer_timeout l2 h \<le> loop_time l2} = {1}"
    "{h \<in> {2, 1}. timer_timeout l2 h > loop_time l2 \<or> timer_repeat l2 h \<noteq> 0} = {2}"
    using l1(4,5) l2(4-6) by auto
  moreover have "keeps_timers (\<lambda>_ _ l. l)" by (simp add: keeps_timers_def)
  ultimately obtain l3 hs where l3: "uv__run_timers (\<lambda>_ _ l. l) l2 = ret l3" "calls l3 = calls l2 @ map (timer_call l2) hs"
    "distinct hs" "set hs = {1}" "timers_ok l3 {2}"
    using run_timers_fires_due [OF l2(2), of "\<lambda>_ _ l. l"] l2(6) by auto
  then have "hs = [1]" by (cases hs; cases "tl hs") auto
  then show ?thesis using l1(1,3) l2(1,3,7) l3(1,2,5) by (auto simp: timer_call_def)
qed

end
