(* ===== verification/Shared_Mutex.thy ===== *)
theory Shared_Mutex
  imports Prelude
begin

unbundle bit_operations_syntax

text \<open>
  The reader/writer lock of \<open>materials/09-advanced-synchronization/code/shared_mutex.{h,cpp}\<close> as a transition
  system.  A critical section on \<open>mut_\<close> is one step; it ends when the function returns or when it waits on a
  condition variable, which gives \<open>mut_\<close> up.  A condition variable is the list of the threads that wait on it:
  \<open>notify_all\<close> empties it, \<open>notify_one\<close> takes out one thread of the scheduler's choice, and a spurious wake-up takes
  out any thread.  A thread that is no longer in the list goes round its loop again.  \<open>unlock\<close> notifies after it gave
  \<open>mut_\<close> up, so it is two steps, and other threads may come in between.
\<close>

section \<open>State\<close>

definition write_entered :: u32 where
  "write_entered = push_bit 31 1"

definition n_readers :: u32 where
  "n_readers = NOT write_entered"

text \<open>
  Where a thread stands: in one of the three waiting loops, or as an owner of the lock, or outside, or in \<open>unlock\<close> with the
  notification still to come.
\<close>

datatype lock_pos = Outside | In_gate1 | In_gate2 | In_shared | Exclusive | Shared | Releasing

record shared_mutex =
  sstate :: u32
  gate1 :: "nat list"
  gate2 :: "nat list"
  pos_of :: "nat \<Rightarrow> lock_pos"

definition new_shared_mutex :: shared_mutex where
  "new_shared_mutex = \<lparr>sstate = 0, gate1 = [], gate2 = [], pos_of = (\<lambda>_. Outside)\<rparr>"

definition move :: "nat \<Rightarrow> lock_pos \<Rightarrow> shared_mutex \<Rightarrow> shared_mutex" where
  "move t p m = m\<lparr>pos_of := (pos_of m)(t := p)\<rparr>"

definition notify_one :: "nat \<Rightarrow> nat list \<Rightarrow> nat list" where
  "notify_one i ws = (let i = i mod length ws in take i ws @ drop (Suc i) ws)"

section \<open>Exclusive ownership\<close>

definition lock_gate2 :: "nat \<Rightarrow> shared_mutex \<Rightarrow> shared_mutex" where
  "lock_gate2 t m = (if sstate m AND n_readers \<noteq> 0 then move t In_gate2 (m\<lparr>gate2 := gate2 m @ [t]\<rparr>)
     else move t Exclusive m)"

definition lock :: "nat \<Rightarrow> shared_mutex \<Rightarrow> shared_mutex" where
  "lock t m = (if sstate m AND write_entered \<noteq> 0 then move t In_gate1 (m\<lparr>gate1 := gate1 m @ [t]\<rparr>)
     else lock_gate2 t (m\<lparr>sstate := sstate m OR write_entered\<rparr>))"

text \<open>\<open>owns\<close> tells whether the attempt to take \<open>mut_\<close> succeeded.\<close>

definition try_lock :: "bool \<Rightarrow> nat \<Rightarrow> shared_mutex \<Rightarrow> shared_mutex \<times> bool" where
  "try_lock owns t m = (if owns \<and> sstate m = 0 then (move t Exclusive (m\<lparr>sstate := write_entered\<rparr>), True)
     else (m, False))"

definition unlock :: "nat \<Rightarrow> shared_mutex \<Rightarrow> shared_mutex" where
  "unlock t m = move t Releasing (m\<lparr>sstate := 0\<rparr>)"

definition unlock_notify :: "nat \<Rightarrow> shared_mutex \<Rightarrow> shared_mutex" where
  "unlock_notify t m = move t Outside (m\<lparr>gate1 := []\<rparr>)"

section \<open>Shared ownership\<close>

definition set_readers :: "u32 \<Rightarrow> shared_mutex \<Rightarrow> shared_mutex" where
  "set_readers n m = m\<lparr>sstate := sstate m AND NOT n_readers OR n\<rparr>"

definition lock_shared :: "nat \<Rightarrow> shared_mutex \<Rightarrow> shared_mutex" where
  "lock_shared t m =
    (if sstate m AND write_entered \<noteq> 0 \<or> sstate m AND n_readers = n_readers
     then move t In_shared (m\<lparr>gate1 := gate1 m @ [t]\<rparr>)
     else move t Shared (set_readers ((sstate m AND n_readers) + 1) m))"

definition try_lock_shared :: "bool \<Rightarrow> nat \<Rightarrow> shared_mutex \<Rightarrow> shared_mutex \<times> bool" where
  "try_lock_shared owns t m =
    (let num_readers = sstate m AND n_readers
     in if owns \<and> \<not> (sstate m AND write_entered \<noteq> 0) \<and> num_readers \<noteq> n_readers
        then (move t Shared (set_readers (num_readers + 1) m), True)
        else (m, False))"

text \<open>\<open>i\<close> is the choice of the scheduler for \<open>notify_one\<close>.\<close>

definition unlock_shared :: "nat \<Rightarrow> nat \<Rightarrow> shared_mutex \<Rightarrow> shared_mutex" where
  "unlock_shared i t m =
    (let num_readers = (sstate m AND n_readers) - 1;
         m = move t Outside (set_readers num_readers m)
     in if sstate m AND write_entered \<noteq> 0
        then if num_readers = 0 then m\<lparr>gate2 := notify_one i (gate2 m)\<rparr> else m
        else if num_readers = n_readers - 1 then m\<lparr>gate1 := notify_one i (gate1 m)\<rparr> else m)"

section \<open>Steps\<close>

text \<open>The steps of the threads of \<open>T\<close>; who owns the lock is the only one to release it.\<close>

inductive sm_step :: "nat set \<Rightarrow> shared_mutex \<Rightarrow> shared_mutex \<Rightarrow> bool" for T where
  Lock: "t \<in> T \<Longrightarrow> pos_of m t = Outside \<Longrightarrow> sm_step T m (lock t m)"
| Lock_again: "t \<in> T \<Longrightarrow> pos_of m t = In_gate1 \<Longrightarrow> t \<notin> set (gate1 m) \<Longrightarrow> sm_step T m (lock t m)"
| Lock_gate2: "t \<in> T \<Longrightarrow> pos_of m t = In_gate2 \<Longrightarrow> t \<notin> set (gate2 m) \<Longrightarrow> sm_step T m (lock_gate2 t m)"
| Try_lock: "t \<in> T \<Longrightarrow> pos_of m t = Outside \<Longrightarrow> sm_step T m (fst (try_lock owns t m))"
| Unlock: "t \<in> T \<Longrightarrow> pos_of m t = Exclusive \<Longrightarrow> sm_step T m (unlock t m)"
| Unlock_notify: "t \<in> T \<Longrightarrow> pos_of m t = Releasing \<Longrightarrow> sm_step T m (unlock_notify t m)"
| Lock_shared: "t \<in> T \<Longrightarrow> pos_of m t = Outside \<Longrightarrow> sm_step T m (lock_shared t m)"
| Lock_shared_again: "t \<in> T \<Longrightarrow> pos_of m t = In_shared \<Longrightarrow> t \<notin> set (gate1 m) \<Longrightarrow> sm_step T m (lock_shared t m)"
| Try_lock_shared: "t \<in> T \<Longrightarrow> pos_of m t = Outside \<Longrightarrow> sm_step T m (fst (try_lock_shared owns t m))"
| Unlock_shared: "t \<in> T \<Longrightarrow> pos_of m t = Shared \<Longrightarrow> sm_step T m (unlock_shared i t m)"
| Spurious1: "sm_step T m (m\<lparr>gate1 := notify_one i (gate1 m)\<rparr>)"
| Spurious2: "sm_step T m (m\<lparr>gate2 := notify_one i (gate2 m)\<rparr>)"

inductive sm_reach :: "nat set \<Rightarrow> shared_mutex \<Rightarrow> bool" for T where
  start: "sm_reach T new_shared_mutex"
| step: "sm_reach T m \<Longrightarrow> sm_step T m m' \<Longrightarrow> sm_reach T m'"

section \<open>The encoding of the state word\<close>

definition enc :: "bool \<Rightarrow> nat \<Rightarrow> u32" where
  "enc w n = (if w then write_entered else 0) OR of_nat n"

definition max_readers :: nat where
  "max_readers = 2 ^ 31 - 1"

lemma bit_write_entered: "bit write_entered i \<longleftrightarrow> i = 31"
  unfolding write_entered_def by (subst bit_push_bit_iff) (auto simp: bit_1_iff)

lemma small_count: "n \<le> max_readers \<Longrightarrow> m \<ge> 31 \<Longrightarrow> take_bit m n = n"
proof -
  assume "n \<le> max_readers" and m: "m \<ge> 31"
  then have "n < 2 ^ 31" by (simp add: max_readers_def)
  also have "(2::nat) ^ 31 \<le> 2 ^ m" using m by (rule power_increasing) simp
  finally show ?thesis by (rule take_bit_nat_eq_self)
qed

lemma bit_31: "n \<le> max_readers \<Longrightarrow> \<not> bit n 31"
  using small_count [of n 31] bit_take_bit_iff [of 31 n 31] by simp

lemma enc_write: "n \<le> max_readers \<Longrightarrow> enc w n AND write_entered \<noteq> 0 \<longleftrightarrow> w"
proof -
  assume n: "n \<le> max_readers"
  have "enc w n AND write_entered = (if w then write_entered else 0)"
    by (rule bit_eqI) (auto simp: enc_def bit_simps bit_write_entered bit_31 [OF n])
  moreover have "write_entered \<noteq> 0" by (simp add: write_entered_def)
  ultimately show ?thesis by simp
qed

lemma enc_readers: "n \<le> max_readers \<Longrightarrow> enc w n AND n_readers = of_nat n"
  by (rule bit_eqI) (auto simp: enc_def n_readers_def bit_simps bit_write_entered bit_31)

lemma enc_set_readers: "n \<le> max_readers \<Longrightarrow> k \<le> max_readers \<Longrightarrow> enc w n AND NOT n_readers OR of_nat k = enc w k"
  by (rule bit_eqI) (auto simp: enc_def n_readers_def bit_simps bit_write_entered bit_31)

lemma enc_or_write: "enc w n OR write_entered = enc True n"
  by (rule bit_eqI) (auto simp: enc_def bit_simps)

lemma of_nat_count: "n \<le> max_readers \<Longrightarrow> k \<le> max_readers \<Longrightarrow> (of_nat n :: u32) = of_nat k \<longleftrightarrow> n = k"
  by (simp add: word_of_nat_eq_iff small_count)

lemma n_readers_max: "n_readers = of_nat max_readers"
  by (simp add: n_readers_def write_entered_def max_readers_def)

lemma enc_0: "n \<le> max_readers \<Longrightarrow> enc w n = 0 \<longleftrightarrow> \<not> w \<and> n = 0"
  using enc_write [of n w] enc_readers [of n w] of_nat_count [of n 0]
  by (auto simp: enc_def max_readers_def)

section \<open>The invariant\<close>

definition readers :: "shared_mutex \<Rightarrow> nat set" where
  "readers m = {t. pos_of m t = Shared}"

definition entered :: "shared_mutex \<Rightarrow> nat set" where
  "entered m = {t. pos_of m t = In_gate2 \<or> pos_of m t = Exclusive}"

definition encoded :: "shared_mutex \<Rightarrow> bool" where
  "encoded m \<longleftrightarrow> finite (readers m) \<and> card (readers m) \<le> max_readers \<and>
     sstate m = enc (entered m \<noteq> {}) (card (readers m))"

definition exclusive_ok :: "shared_mutex \<Rightarrow> bool" where
  "exclusive_ok m \<longleftrightarrow> (\<forall>t u. t \<in> entered m \<and> u \<in> entered m \<longrightarrow> t = u) \<and>
     (\<forall>t. pos_of m t = Exclusive \<longrightarrow> readers m = {})"

definition gates_ok :: "shared_mutex \<Rightarrow> bool" where
  "gates_ok m \<longleftrightarrow> (\<forall>t \<in> set (gate1 m). pos_of m t = In_gate1 \<or> pos_of m t = In_shared) \<and>
     (\<forall>t \<in> set (gate2 m). pos_of m t = In_gate2) \<and> length (gate2 m) \<le> 1 \<and> (gate2 m \<noteq> [] \<longrightarrow> readers m \<noteq> {})"

definition lock_inv :: "shared_mutex \<Rightarrow> bool" where
  "lock_inv m \<longleftrightarrow> encoded m \<and> exclusive_ok m \<and> gates_ok m"

lemma move_sel [simp]:
  "pos_of (move t p m) = (pos_of m)(t := p)" "sstate (move t p m) = sstate m"
  "gate1 (move t p m) = gate1 m" "gate2 (move t p m) = gate2 m"
  by (simp_all add: move_def)

lemma readers_move: "readers (move t p m) = (if p = Shared then insert t (readers m) else readers m - {t})"
  by (auto simp: readers_def)

lemma entered_move:
  "entered (move t p m) = (if p = In_gate2 \<or> p = Exclusive then insert t (entered m) else entered m - {t})"
  by (auto simp: entered_def)

lemma sets_upd [simp]:
  "readers (m\<lparr>sstate := s\<rparr>) = readers m" "readers (m\<lparr>gate1 := g\<rparr>) = readers m" "readers (m\<lparr>gate2 := g\<rparr>) = readers m"
  "entered (m\<lparr>sstate := s\<rparr>) = entered m" "entered (m\<lparr>gate1 := g\<rparr>) = entered m" "entered (m\<lparr>gate2 := g\<rparr>) = entered m"
  by (simp_all add: readers_def entered_def)

lemma set_notify_one: "set (notify_one i ws) \<subseteq> set ws"
  by (auto simp: notify_one_def Let_def dest: in_set_takeD in_set_dropD)

lemma notify_one_single: "length ws \<le> 1 \<Longrightarrow> notify_one i ws = []"
  by (cases ws) (auto simp: notify_one_def)

lemma tests:
  assumes "encoded m"
  shows "sstate m AND write_entered \<noteq> 0 \<longleftrightarrow> entered m \<noteq> {}" "sstate m AND n_readers = of_nat (card (readers m))"
    "sstate m AND n_readers \<noteq> 0 \<longleftrightarrow> readers m \<noteq> {}" "sstate m = 0 \<longleftrightarrow> entered m = {} \<and> readers m = {}"
    "sstate m AND n_readers = n_readers \<longleftrightarrow> card (readers m) = max_readers"
proof -
  note e = assms [unfolded encoded_def]
  show r: "sstate m AND n_readers = of_nat (card (readers m))" using e by (simp add: enc_readers)
  show "sstate m AND write_entered \<noteq> 0 \<longleftrightarrow> entered m \<noteq> {}" using e enc_write by simp
  show "sstate m AND n_readers \<noteq> 0 \<longleftrightarrow> readers m \<noteq> {}"
    unfolding r using e of_nat_count [of "card (readers m)" 0] by simp
  show "sstate m = 0 \<longleftrightarrow> entered m = {} \<and> readers m = {}" using e by (simp add: enc_0)
  show "sstate m AND n_readers = n_readers \<longleftrightarrow> card (readers m) = max_readers"
    unfolding r unfolding n_readers_max using e of_nat_count [of "card (readers m)" max_readers] by simp
qed

text \<open>A thread that has set the bit becomes the owner, or the only thread that waits for the readers to leave.\<close>

lemma lock_gate2_inv:
  assumes "finite (readers m)" "card (readers m) \<le> max_readers" "sstate m = enc True (card (readers m))"
    and "entered m \<subseteq> {t}" "t \<notin> readers m" "gate2 m = []" "t \<notin> set (gate1 m)" "gates_ok m"
  shows "lock_inv (lock_gate2 t m)"
proof -
  have r: "sstate m AND n_readers \<noteq> 0 \<longleftrightarrow> readers m \<noteq> {}"
    using assms(1-3) of_nat_count [of "card (readers m)" 0] by (simp add: enc_readers)
  show ?thesis
  proof (cases "readers m = {}")
    case True
    then have "lock_gate2 t m = move t Exclusive m" by (simp add: lock_gate2_def r)
    then show ?thesis using assms True
      by (auto simp: lock_inv_def encoded_def exclusive_ok_def gates_ok_def readers_move entered_move)
  next
    case False
    then have "lock_gate2 t m = move t In_gate2 (m\<lparr>gate2 := [t]\<rparr>)" by (simp add: lock_gate2_def r assms(6))
    moreover have "pos_of m u = Exclusive \<Longrightarrow> u = t" "u \<in> entered m \<Longrightarrow> u = t" for u
      using assms(4) by (auto simp: entered_def)
    ultimately show ?thesis using assms False
      by (auto simp: lock_inv_def encoded_def exclusive_ok_def gates_ok_def readers_move entered_move)
  qed
qed

lemma lock_inv_lock:
  assumes "lock_inv m" "t \<notin> set (gate1 m)" "pos_of m t = Outside \<or> pos_of m t = In_gate1"
  shows "lock_inv (lock t m)"
proof (cases "entered m = {}")
  case True
  then have "lock t m = lock_gate2 t (m\<lparr>sstate := enc True (card (readers m))\<rparr>)"
    using assms(1) tests(1) [of m] by (simp add: lock_inv_def lock_def) (simp add: encoded_def enc_or_write)
  moreover have "gate2 m = []"
    using assms(1) True by (cases "gate2 m") (auto simp: lock_inv_def gates_ok_def entered_def)
  moreover have "t \<notin> readers m" using assms(3) by (auto simp: readers_def)
  moreover have "gates_ok (m\<lparr>sstate := enc True (card (readers m))\<rparr>)"
    using assms(1) by (simp add: lock_inv_def gates_ok_def)
  ultimately show ?thesis
    using assms(1,2) True by (simp only:, intro lock_gate2_inv) (simp_all add: lock_inv_def encoded_def)
next
  case False
  then have "lock t m = move t In_gate1 (m\<lparr>gate1 := gate1 m @ [t]\<rparr>)"
    using assms(1) tests(1) [of m] by (simp add: lock_inv_def lock_def)
  moreover have "t \<notin> readers m" "t \<notin> entered m" using assms(3) by (auto simp: readers_def entered_def)
  ultimately show ?thesis using assms
    by (auto simp: lock_inv_def encoded_def exclusive_ok_def gates_ok_def readers_move entered_move)
qed

lemma lock_inv_gate2:
  assumes "lock_inv m" "pos_of m t = In_gate2" "t \<notin> set (gate2 m)"
  shows "lock_inv (lock_gate2 t m)"
proof (rule lock_gate2_inv)
  have t: "t \<in> entered m" using assms(2) by (simp add: entered_def)
  then show e: "entered m \<subseteq> {t}" using assms(1) by (auto simp: lock_inv_def exclusive_ok_def)
  show "gate2 m = []"
    using assms(1,3) e by (cases "gate2 m") (auto simp: lock_inv_def gates_ok_def entered_def)
  show "t \<notin> set (gate1 m)" using assms(1,2) by (auto simp: lock_inv_def gates_ok_def)
  have "(entered m \<noteq> {}) = True" using t by auto
  then show "sstate m = enc True (card (readers m))" using assms(1) by (simp add: lock_inv_def encoded_def)
qed (use assms in \<open>auto simp: lock_inv_def encoded_def readers_def\<close>)

lemma lock_inv_unlock:
  assumes "lock_inv m" "pos_of m t = Exclusive"
  shows "lock_inv (unlock t m)"
proof -
  have r: "readers m = {}" using assms by (auto simp: lock_inv_def exclusive_ok_def)
  have "entered m = {t}" using assms by (auto simp: lock_inv_def exclusive_ok_def entered_def)
  then have "entered m - {t} = {}" by simp
  moreover have "gate2 m = []" using assms(1) r by (auto simp: lock_inv_def gates_ok_def)
  moreover have "pos_of m u = Exclusive \<Longrightarrow> u = t" for u using assms by (auto simp: lock_inv_def exclusive_ok_def entered_def)
  moreover have "\<forall>u \<in> set (gate1 m). (pos_of m u = In_gate1 \<or> pos_of m u = In_shared) \<and> u \<noteq> t"
    using assms by (auto simp: lock_inv_def gates_ok_def)
  ultimately show ?thesis using r
    by (auto simp: lock_inv_def encoded_def exclusive_ok_def gates_ok_def unlock_def readers_move entered_move enc_def)
qed

lemma lock_inv_unlock_notify:
  assumes "lock_inv m" "pos_of m t = Releasing"
  shows "lock_inv (unlock_notify t m)"
proof -
  have "t \<notin> readers m" "t \<notin> entered m" using assms(2) by (auto simp: readers_def entered_def)
  then show ?thesis using assms
    by (auto simp: lock_inv_def encoded_def exclusive_ok_def gates_ok_def unlock_notify_def readers_move entered_move)
qed

lemma lock_inv_wait_shared:
  assumes "lock_inv m" "t \<notin> readers m" "t \<notin> entered m" "t \<notin> set (gate2 m)"
  shows "lock_inv (move t In_shared (m\<lparr>gate1 := gate1 m @ [t]\<rparr>))"
  using assms by (auto simp: lock_inv_def encoded_def exclusive_ok_def gates_ok_def readers_move entered_move)

lemma lock_inv_enter_shared:
  assumes "lock_inv m" "pos_of m t = Outside \<or> pos_of m t = In_shared" "t \<notin> set (gate1 m)"
    and "entered m = {}" "card (readers m) \<noteq> max_readers"
  shows "lock_inv (move t Shared (set_readers ((sstate m AND n_readers) + 1) m))"
proof -
  have e: "encoded m" and g: "gates_ok m" using assms(1) by (auto simp: lock_inv_def)
  have c: "Suc (card (readers m)) \<le> max_readers" using e assms(5) by (auto simp: encoded_def)
  have t: "t \<notin> readers m" using assms(2) by (auto simp: readers_def)
  have "(sstate m AND n_readers) + 1 = of_nat (Suc (card (readers m)))" using tests(2) [OF e] by simp
  then have "sstate m AND NOT n_readers OR (sstate m AND n_readers) + 1 = enc False (Suc (card (readers m)))"
    using e c assms(4) enc_set_readers by (simp only: encoded_def simp_thms)
  moreover have "pos_of m u \<noteq> Exclusive" "pos_of m u \<noteq> In_gate2" for u using assms(4) by (auto simp: entered_def)
  ultimately show ?thesis using e g c t assms(3,4)
    by (simp add: lock_inv_def exclusive_ok_def set_readers_def readers_move entered_move)
       (auto simp: encoded_def gates_ok_def readers_move entered_move)
qed

lemma lock_inv_lock_shared:
  assumes "lock_inv m" "pos_of m t = Outside \<or> pos_of m t = In_shared" "t \<notin> set (gate1 m)"
  shows "lock_inv (lock_shared t m)"
proof -
  have e: "encoded m" using assms(1) by (simp add: lock_inv_def)
  have t: "t \<notin> readers m" "t \<notin> entered m" using assms(2) by (auto simp: readers_def entered_def)
  have "t \<notin> set (gate2 m)" using assms(1,2) by (auto simp: lock_inv_def gates_ok_def)
  with t show ?thesis
    using lock_inv_wait_shared [OF assms(1)] lock_inv_enter_shared [OF assms]
    by (auto simp: lock_shared_def tests(1,5) [OF e])
qed

lemma lock_inv_try_lock:
  assumes "lock_inv m" "pos_of m t = Outside"
  shows "lock_inv (fst (try_lock owns t m))"
proof -
  have e: "encoded m" and g: "gates_ok m" using assms(1) by (auto simp: lock_inv_def)
  have "lock_inv (move t Exclusive (m\<lparr>sstate := write_entered\<rparr>))" if z: "entered m = {}" "readers m = {}"
  proof -
    have "pos_of m u \<noteq> Exclusive" for u using z by (auto simp: entered_def)
    then show ?thesis using g z assms(2)
      by (auto simp: lock_inv_def exclusive_ok_def encoded_def gates_ok_def readers_move entered_move enc_def)
  qed
  then show ?thesis using assms(1) by (auto simp: try_lock_def tests(4) [OF e])
qed

lemma lock_inv_try_lock_shared:
  assumes "lock_inv m" "pos_of m t = Outside"
  shows "lock_inv (fst (try_lock_shared owns t m))"
proof -
  have e: "encoded m" using assms(1) by (simp add: lock_inv_def)
  have "t \<notin> set (gate1 m)" using assms by (auto simp: lock_inv_def gates_ok_def)
  then show ?thesis
    using assms lock_inv_enter_shared [OF assms(1)] tests(1,5) [OF e] by (auto simp: try_lock_shared_def Let_def)
qed

lemma gates_ok_fewer:
  assumes "gates_ok m"
  shows "gates_ok (m\<lparr>gate1 := notify_one i (gate1 m)\<rparr>)" "gates_ok (m\<lparr>gate2 := notify_one i (gate2 m)\<rparr>)"
  using assms set_notify_one [of i "gate1 m"] notify_one_single [of "gate2 m" i] by (auto simp: gates_ok_def)

lemma lock_inv_unlock_shared:
  assumes "lock_inv m" "pos_of m t = Shared"
  shows "lock_inv (unlock_shared i t m)"
proof -
  have e: "encoded m" and g: "gates_ok m" and x: "exclusive_ok m" using assms(1) by (auto simp: lock_inv_def)
  have t: "t \<in> readers m" using assms(2) by (simp add: readers_def)
  have nex: "pos_of m u \<noteq> Exclusive" for u using x t by (auto simp: exclusive_ok_def)
  define k where "k = card (readers m - {t})"
  have ck: "card (readers m) = Suc k" and km: "Suc k \<le> max_readers" "k \<le> max_readers"
    using e t card_Suc_Diff1 [of "readers m" t] by (auto simp: k_def encoded_def)
  have nr: "(sstate m AND n_readers) - 1 = of_nat k" using tests(2) [OF e] ck by simp
  let ?m = "move t Outside (set_readers (of_nat k) m)"
  have sets: "readers ?m = readers m - {t}" "entered ?m = entered m"
    using assms(2) by (auto simp: readers_move entered_move set_readers_def entered_def)
  have e': "encoded ?m"
    using e sets km ck enc_set_readers [of "Suc k" k] by (simp add: encoded_def k_def [symmetric]) (simp add: set_readers_def)
  then have z: "of_nat k = (0::u32) \<longleftrightarrow> readers m - {t} = {}"
    using of_nat_count [of k 0] km sets by (simp add: encoded_def k_def [symmetric] card_eq_0_iff) (auto simp: k_def)
  have x': "exclusive_ok ?m" using x sets nex by (auto simp: exclusive_ok_def set_readers_def)
  have g': "gates_ok (?m\<lparr>gate2 := g2\<rparr>)" if "g2 = gate2 m \<and> of_nat k \<noteq> (0::u32) \<or> g2 = []" for g2
    using g that z sets assms(2) by (auto simp: gates_ok_def set_readers_def)
  have upd: "lock_inv (m'\<lparr>gate1 := notify_one i (gate1 m')\<rparr>)" if "lock_inv m'" for m'
    using that gates_ok_fewer by (auto simp: lock_inv_def encoded_def exclusive_ok_def)
  have w: "sstate ?m AND write_entered \<noteq> 0 \<longleftrightarrow> entered m \<noteq> {}" using tests(1) [OF e'] sets by simp
  have full: "lock_inv (?m\<lparr>gate2 := g2\<rparr>)" if "g2 = gate2 m \<and> of_nat k \<noteq> (0::u32) \<or> g2 = []" for g2
    using g' [OF that] e' x' by (simp add: lock_inv_def encoded_def exclusive_ok_def)
  have same: "?m\<lparr>gate2 := gate2 m\<rparr> = ?m" by (simp add: move_def set_readers_def)
  have none: "gate2 m = []" if "entered m = {}"
    using g that by (cases "gate2 m") (auto simp: gates_ok_def entered_def)
  have free: "lock_inv ?m" if "entered m = {} \<or> of_nat k \<noteq> (0::u32)"
    using full [of "gate2 m"] none that unfolding same by auto
  have last: "lock_inv (?m\<lparr>gate2 := notify_one i (gate2 ?m)\<rparr>)"
    using full [of "[]"] notify_one_single [of "gate2 m" i] g by (simp add: gates_ok_def set_readers_def)
  show ?thesis
    using free last upd [of ?m] w by (auto simp: unlock_shared_def Let_def nr)
qed

lemma lock_inv_step: "sm_step T m m' \<Longrightarrow> lock_inv m \<Longrightarrow> lock_inv m'"
proof (induction rule: sm_step.induct)
  case (Lock t m)
  then show ?case by (intro lock_inv_lock) (auto simp: lock_inv_def gates_ok_def)
next
  case (Lock_again t m)
  then show ?case by (intro lock_inv_lock) auto
next
  case (Lock_shared t m)
  then show ?case by (intro lock_inv_lock_shared) (auto simp: lock_inv_def gates_ok_def)
next
  case (Lock_shared_again t m)
  then show ?case by (intro lock_inv_lock_shared) auto
next
  case (Spurious1 m i)
  then show ?case using gates_ok_fewer by (auto simp: lock_inv_def encoded_def exclusive_ok_def)
next
  case (Spurious2 m i)
  then show ?case using gates_ok_fewer by (auto simp: lock_inv_def encoded_def exclusive_ok_def)
qed (auto intro: lock_inv_gate2 lock_inv_try_lock lock_inv_unlock lock_inv_unlock_notify lock_inv_try_lock_shared lock_inv_unlock_shared)

lemma lock_inv_reach: "sm_reach T m \<Longrightarrow> lock_inv m"
proof (induction rule: sm_reach.induct)
  case start
  show ?case
    by (simp add: lock_inv_def encoded_def exclusive_ok_def gates_ok_def new_shared_mutex_def readers_def entered_def enc_def)
qed (rule lock_inv_step)

section \<open>Nobody sleeps for ever\<close>

text \<open>
  With fewer threads than reader slots, somebody who sleeps at the first gate has a writer to wait for, or a thread that
  is about to notify.
\<close>

definition releasing :: "shared_mutex \<Rightarrow> nat set" where
  "releasing m = {t. pos_of m t = Releasing}"

definition awake_inv :: "nat set \<Rightarrow> shared_mutex \<Rightarrow> bool" where
  "awake_inv T m \<longleftrightarrow> (\<forall>t. pos_of m t \<noteq> Outside \<longrightarrow> t \<in> T) \<and> (gate1 m \<noteq> [] \<longrightarrow> entered m \<noteq> {} \<or> releasing m \<noteq> {})"

lemma releasing_move: "releasing (move t p m) = (if p = Releasing then insert t (releasing m) else releasing m - {t})"
  by (auto simp: releasing_def)

lemma releasing_upd [simp]:
  "releasing (m\<lparr>sstate := s\<rparr>) = releasing m" "releasing (m\<lparr>gate1 := g\<rparr>) = releasing m" "releasing (m\<lparr>gate2 := g\<rparr>) = releasing m"
  by (simp_all add: releasing_def)

lemma notify_one_Nil [simp]: "notify_one i [] = []"
  by (simp add: notify_one_def)

lemma not_full:
  assumes "awake_inv T m" "finite T" "card T < max_readers"
  shows "card (readers m) \<noteq> max_readers"
proof -
  have "readers m \<subseteq> T" using assms(1) by (auto simp: awake_inv_def readers_def)
  then have "card (readers m) \<le> card T" using assms(2) by (rule card_mono [rotated])
  then show ?thesis using assms(3) by simp
qed

lemma unlock_shared_fields:
  "pos_of (unlock_shared i t m) = (pos_of m)(t := Outside)"
  "gate1 (unlock_shared i t m) = gate1 m \<or> gate1 (unlock_shared i t m) = notify_one i (gate1 m)"
  by (auto simp: unlock_shared_def Let_def set_readers_def)

lemma entered_unlock_shared: "pos_of m t = Shared \<Longrightarrow> entered (unlock_shared i t m) = entered m"
  by (auto simp: entered_def unlock_shared_fields)

lemma releasing_unlock_shared: "pos_of m t = Shared \<Longrightarrow> releasing (unlock_shared i t m) = releasing m"
  by (auto simp: releasing_def unlock_shared_fields)

lemma awake_lock_gate2:
  "t \<in> T \<Longrightarrow> (\<And>u. pos_of m u \<noteq> Outside \<Longrightarrow> u \<in> T) \<Longrightarrow> awake_inv T (lock_gate2 t m)"
  by (simp add: lock_gate2_def awake_inv_def entered_move)

lemma awake_lock:
  assumes "encoded m" "awake_inv T m" "t \<in> T" "t \<notin> entered m"
  shows "awake_inv T (lock t m)"
proof (cases "entered m = {}")
  case True
  then show ?thesis using assms tests(1) [OF assms(1)] 
    by (simp add: lock_def, intro awake_lock_gate2) (auto simp: awake_inv_def)
next
  case False
  then show ?thesis using assms tests(1) [OF assms(1)] by (simp add: lock_def awake_inv_def entered_move)
qed

lemma awake_share:
  assumes "awake_inv T m" "t \<in> T" "t \<notin> entered m" "t \<notin> releasing m"
  shows "awake_inv T (move t Shared (set_readers n m))"
  using assms by (simp add: awake_inv_def entered_move releasing_move set_readers_def)

lemma awake_lock_shared:
  assumes "encoded m" "awake_inv T m" "t \<in> T" "t \<notin> entered m" "t \<notin> releasing m" "card (readers m) \<noteq> max_readers"
  shows "awake_inv T (lock_shared t m)"
proof (cases "entered m = {}")
  case True
  then show ?thesis using assms awake_share tests(1,5) [OF assms(1)] by (simp add: lock_shared_def)
next
  case False
  then show ?thesis using assms tests(1) [OF assms(1)] by (simp add: lock_shared_def awake_inv_def entered_move)
qed

lemma awake_step:
  assumes "sm_step T m m'" "lock_inv m" "awake_inv T m" "finite T" "card T < max_readers"
  shows "awake_inv T m'"
proof -
  have e: "encoded m" using assms(2) by (simp add: lock_inv_def)
  note nf = not_full [OF assms(3-5)]
  have out: "t \<notin> entered m" "t \<notin> releasing m" if "pos_of m t \<in> {Outside, In_gate1, In_shared}" for t
    using that by (auto simp: entered_def releasing_def)
  have pos: "u \<in> T" if "pos_of m u \<noteq> Outside" for u using assms(3) that by (auto simp: awake_inv_def)
  from assms(1) show ?thesis
  proof cases
    case (Unlock_shared t i)
    then show ?thesis using assms(3) entered_unlock_shared [of m t i] releasing_unlock_shared [of m t i]
        unlock_shared_fields [of i t m]
      by (auto simp: awake_inv_def)
  next
    case (Try_lock t owns)
    then show ?thesis using assms(3) by (simp add: try_lock_def) (simp add: awake_inv_def entered_move)
  next
    case (Try_lock_shared t owns)
    then show ?thesis using assms(3) awake_share [OF assms(3)] out by (simp add: try_lock_shared_def Let_def)
  next
    case (Unlock t)
    then show ?thesis using assms(3) by (simp add: unlock_def awake_inv_def releasing_move)
  next
    case (Unlock_notify t)
    then show ?thesis using assms(3) by (simp add: unlock_notify_def awake_inv_def)
  next
    case (Spurious1 i)
    then show ?thesis using assms(3) by (auto simp: awake_inv_def)
  next
    case (Spurious2 i)
    then show ?thesis using assms(3) by (simp add: awake_inv_def)
  qed (use pos out awake_lock [OF e assms(3)] awake_lock_shared [OF e assms(3) _ _ _ nf] awake_lock_gate2 in simp_all)
qed

lemma awake_reach:
  assumes "sm_reach T m" "finite T" "card T < max_readers"
  shows "awake_inv T m"
  using assms(1)
proof (induction rule: sm_reach.induct)
  case (step m m')
  then show ?case using awake_step [OF step(2) lock_inv_reach [OF step(1)]] assms(2,3) by blast
qed (simp add: awake_inv_def new_shared_mutex_def)

section \<open>Properties\<close>

text \<open>
  C27: in every reachable state the holder of the exclusive lock excludes every other thread, whether it holds the
  lock exclusively or shared, and the lower 31 bits of \<open>state_\<close> are exactly the number of the threads that share the
  lock, whatever the threads do, including failed attempts and spurious wake-ups.
\<close>

theorem shared_mutex_exclusion:
  assumes "sm_reach T m"
  shows "(pos_of m t = Exclusive \<and> u \<noteq> t \<longrightarrow> pos_of m u \<noteq> Exclusive \<and> pos_of m u \<noteq> Shared) \<and>
    unat (sstate m AND n_readers) = card {u. pos_of m u = Shared}"
proof -
  have lock: "lock_inv m" using assms by (rule lock_inv_reach)
  then have e: "encoded m" by (simp add: lock_inv_def)
  have "card (readers m) < 2 ^ 32" using e by (simp add: encoded_def max_readers_def)
  then have "unat (of_nat (card (readers m)) :: u32) = card (readers m)" by (simp add: unat_of_nat)
  then have "unat (sstate m AND n_readers) = card (readers m)" using tests(2) [OF e] by simp
  then show ?thesis using lock
    by (auto simp: lock_inv_def exclusive_ok_def readers_def entered_def)
qed

text \<open>Thread 0 holds the lock, thread 1 sleeps in front of it.\<close>

definition two_writers :: shared_mutex where
  "two_writers = lock 1 (lock 0 new_shared_mutex)"

lemma two_writers_reach: "sm_reach {0, 1} two_writers"
proof -
  have "sm_reach {0, 1} (lock 0 new_shared_mutex)"
    by (intro sm_reach.step [OF sm_reach.start] Lock) (simp_all add: new_shared_mutex_def)
  then show ?thesis
    unfolding two_writers_def
    by (rule sm_reach.step) (rule Lock, simp_all add: new_shared_mutex_def lock_def lock_gate2_def)
qed

lemma two_writers_pos: "pos_of two_writers 0 = Exclusive" "pos_of two_writers 1 = In_gate1"
  by (simp_all add: two_writers_def new_shared_mutex_def lock_def lock_gate2_def n_readers_def write_entered_def)

theorem shared_mutex_exclusion_witness:
  "pos_of two_writers 0 = Exclusive \<and> pos_of two_writers 1 \<noteq> Exclusive \<and> pos_of two_writers 1 \<noteq> Shared"
  using shared_mutex_exclusion [OF two_writers_reach, of 0 1] two_writers_pos by simp

text \<open>
  C28: with fewer than 2^31 - 1 threads it never happens that everybody sleeps: whenever some thread has called one of
  the lock functions or holds the lock, some thread holds the lock, or has been woken and goes on, or has given the lock up
  and is about to wake everybody at the first gate.
\<close>

theorem shared_mutex_never_all_asleep:
  assumes "sm_reach T m" "finite T" "card T < 2 ^ 31 - 1" "pos_of m t \<noteq> Outside"
  shows "\<exists>u \<in> T. pos_of m u = Exclusive \<or> pos_of m u = Shared \<or> pos_of m u = Releasing \<or>
    (pos_of m u \<in> {In_gate1, In_shared} \<and> u \<notin> set (gate1 m)) \<or> (pos_of m u = In_gate2 \<and> u \<notin> set (gate2 m))"
proof -
  have awake: "awake_inv T m" using awake_reach [OF assms(1,2)] assms(3) by (simp add: max_readers_def)
  have T: "u \<in> T" if "pos_of m u \<noteq> Outside" for u using awake that by (auto simp: awake_inv_def)
  have g: "gates_ok m" using lock_inv_reach [OF assms(1)] by (simp add: lock_inv_def)
  show ?thesis
  proof (cases "entered m = {}")
    case True
    then have none: "pos_of m u \<noteq> In_gate2" for u by (auto simp: entered_def)
    show ?thesis
    proof (cases "gate1 m = []")
      case True
      then show ?thesis using assms(4) T none by (cases "pos_of m t") force+
    next
      case False
      then show ?thesis using awake T \<open>entered m = {}\<close> by (auto simp: awake_inv_def releasing_def)
    qed
  next
    case False
    then obtain u where u: "pos_of m u = In_gate2 \<or> pos_of m u = Exclusive" by (auto simp: entered_def)
    show ?thesis
    proof (cases "u \<in> set (gate2 m)")
      case True
      then obtain r where "pos_of m r = Shared" using g by (auto simp: gates_ok_def readers_def)
      then show ?thesis using T [of r] by auto
    next
      case False
      then show ?thesis using T [of u] u by auto
    qed
  qed
qed

theorem shared_mutex_never_all_asleep_witness:
  "\<exists>u \<in> {0, 1}. pos_of two_writers u = Exclusive \<or> pos_of two_writers u = Shared \<or> pos_of two_writers u = Releasing \<or>
    (pos_of two_writers u \<in> {In_gate1, In_shared} \<and> u \<notin> set (gate1 two_writers)) \<or>
    (pos_of two_writers u = In_gate2 \<and> u \<notin> set (gate2 two_writers))"
  using shared_mutex_never_all_asleep [OF two_writers_reach, of 1] two_writers_pos by simp

end
