(* ===== verification/Safe_Counter.thy ===== *)
theory Safe_Counter
  imports Shared_Mutex
begin

text \<open>
  The class \<open>ThreadSafeCounter\<close> of src/materials/09-advanced-synchronization/code/shared_mutex_demo.cpp on the model of the
  reader/writer lock.  The counter is read and written in separate steps, so that the lock has something to protect.
  \<open>counted t\<close> is the number of increments thread \<open>t\<close> has made since the counter was last reset; the program does not keep it.
\<close>

section \<open>Steps\<close>

datatype counter_pos = Idle
  | Inc_lock | Inc_store u32 | Inc_unlock
  | Get_lock | Get_unlock u32
  | Reset_lock | Reset_unlock
  | Notify

record counter =
  counter_mutex :: shared_mutex
  counter_value :: u32
  at :: "nat \<Rightarrow> counter_pos"
  counted :: "nat \<Rightarrow> nat"

definition ThreadSafeCounter :: counter where
  "ThreadSafeCounter = \<lparr>counter_mutex = new_shared_mutex, counter_value = 0, at = (\<lambda>_. Idle), counted = (\<lambda>_. 0)\<rparr>"

definition goto :: "nat \<Rightarrow> counter_pos \<Rightarrow> counter \<Rightarrow> counter" where
  "goto t p c = c\<lparr>at := (at c)(t := p)\<rparr>"

text \<open>
  \<open>get\<close>, \<open>increment\<close> and \<open>reset\<close> of thread \<open>t\<close>: the call of the lock function in the constructor, the access once the lock is
  held, and the release in the destructor, which for an exclusive owner ends with the notification.  The load and the store of the increment are two steps.
\<close>

inductive counter_step :: "nat set \<Rightarrow> counter \<Rightarrow> counter \<Rightarrow> bool" for T where
  Inc_call: "t \<in> T \<Longrightarrow> at c t = Idle \<Longrightarrow> counter_step T c (goto t Inc_lock (c\<lparr>counter_mutex := lock t (counter_mutex c)\<rparr>))"
| Inc_load: "t \<in> T \<Longrightarrow> at c t = Inc_lock \<Longrightarrow> pos_of (counter_mutex c) t = Exclusive \<Longrightarrow> counter_step T c (goto t (Inc_store (counter_value c)) c)"
| Inc_write: "t \<in> T \<Longrightarrow> at c t = Inc_store v \<Longrightarrow>
    counter_step T c (goto t Inc_unlock (c\<lparr>counter_value := v + 1, counted := (counted c)(t := Suc (counted c t))\<rparr>))"
| Inc_release: "t \<in> T \<Longrightarrow> at c t = Inc_unlock \<Longrightarrow> counter_step T c (goto t Notify (c\<lparr>counter_mutex := unlock t (counter_mutex c)\<rparr>))"
| Get_call: "t \<in> T \<Longrightarrow> at c t = Idle \<Longrightarrow> counter_step T c (goto t Get_lock (c\<lparr>counter_mutex := lock_shared t (counter_mutex c)\<rparr>))"
| Get_load: "t \<in> T \<Longrightarrow> at c t = Get_lock \<Longrightarrow> pos_of (counter_mutex c) t = Shared \<Longrightarrow> counter_step T c (goto t (Get_unlock (counter_value c)) c)"
| Get_release: "t \<in> T \<Longrightarrow> at c t = Get_unlock v \<Longrightarrow> counter_step T c (goto t Idle (c\<lparr>counter_mutex := unlock_shared i t (counter_mutex c)\<rparr>))"
| Reset_call: "t \<in> T \<Longrightarrow> at c t = Idle \<Longrightarrow> counter_step T c (goto t Reset_lock (c\<lparr>counter_mutex := lock t (counter_mutex c)\<rparr>))"
| Reset_write: "t \<in> T \<Longrightarrow> at c t = Reset_lock \<Longrightarrow> pos_of (counter_mutex c) t = Exclusive \<Longrightarrow>
    counter_step T c (goto t Reset_unlock (c\<lparr>counter_value := 0, counted := (\<lambda>_. 0)\<rparr>))"
| Reset_release: "t \<in> T \<Longrightarrow> at c t = Reset_unlock \<Longrightarrow> counter_step T c (goto t Notify (c\<lparr>counter_mutex := unlock t (counter_mutex c)\<rparr>))"
| Notify_waiters: "t \<in> T \<Longrightarrow> at c t = Notify \<Longrightarrow> counter_step T c (goto t Idle (c\<lparr>counter_mutex := unlock_notify t (counter_mutex c)\<rparr>))"
| Woken1: "t \<in> T \<Longrightarrow> pos_of (counter_mutex c) t = In_gate1 \<Longrightarrow> t \<notin> set (gate1 (counter_mutex c)) \<Longrightarrow>
    counter_step T c (c\<lparr>counter_mutex := lock t (counter_mutex c)\<rparr>)"
| Woken2: "t \<in> T \<Longrightarrow> pos_of (counter_mutex c) t = In_gate2 \<Longrightarrow> t \<notin> set (gate2 (counter_mutex c)) \<Longrightarrow>
    counter_step T c (c\<lparr>counter_mutex := lock_gate2 t (counter_mutex c)\<rparr>)"
| Woken_shared: "t \<in> T \<Longrightarrow> pos_of (counter_mutex c) t = In_shared \<Longrightarrow> t \<notin> set (gate1 (counter_mutex c)) \<Longrightarrow>
    counter_step T c (c\<lparr>counter_mutex := lock_shared t (counter_mutex c)\<rparr>)"
| Wakes1: "counter_step T c (c\<lparr>counter_mutex := counter_mutex c\<lparr>gate1 := notify_one i (gate1 (counter_mutex c))\<rparr>\<rparr>)"
| Wakes2: "counter_step T c (c\<lparr>counter_mutex := counter_mutex c\<lparr>gate2 := notify_one i (gate2 (counter_mutex c))\<rparr>\<rparr>)"

inductive counter_reach :: "nat set \<Rightarrow> counter \<Rightarrow> bool" for T where
  counter_start: "counter_reach T ThreadSafeCounter"
| counter_next: "counter_reach T c \<Longrightarrow> counter_step T c c' \<Longrightarrow> counter_reach T c'"

section \<open>The lock does what the counter needs\<close>

lemma goto_sel [simp]:
  "counter_mutex (goto t p c) = counter_mutex c" "counter_value (goto t p c) = counter_value c" "counted (goto t p c) = counted c"
  "at (goto t p c) = (at c)(t := p)"
  by (simp_all add: goto_def)

text \<open>Where a thread may stand in the lock, by its position in the counter.\<close>

fun lock_at :: "counter_pos \<Rightarrow> lock_pos set" where
  "lock_at Idle = {Outside}"
| "lock_at Inc_lock = {In_gate1, In_gate2, Exclusive}" | "lock_at (Inc_store v) = {Exclusive}" | "lock_at Inc_unlock = {Exclusive}"
| "lock_at Get_lock = {In_shared, Shared}" | "lock_at (Get_unlock v) = {Shared}"
| "lock_at Reset_lock = {In_gate1, In_gate2, Exclusive}" | "lock_at Reset_unlock = {Exclusive}" | "lock_at Notify = {Releasing}"

lemma pos_other:
  "u \<noteq> t \<Longrightarrow> pos_of (lock t m) u = pos_of m u" "u \<noteq> t \<Longrightarrow> pos_of (lock_gate2 t m) u = pos_of m u"
  "u \<noteq> t \<Longrightarrow> pos_of (lock_shared t m) u = pos_of m u" "u \<noteq> t \<Longrightarrow> pos_of (unlock t m) u = pos_of m u"
  "u \<noteq> t \<Longrightarrow> pos_of (unlock_shared i t m) u = pos_of m u" "u \<noteq> t \<Longrightarrow> pos_of (unlock_notify t m) u = pos_of m u"
  by (auto simp: lock_def lock_gate2_def lock_shared_def unlock_def unlock_notify_def unlock_shared_def set_readers_def Let_def)

lemma pos_self:
  "pos_of (lock t m) t \<in> {In_gate1, In_gate2, Exclusive}" "pos_of (lock_gate2 t m) t \<in> {In_gate2, Exclusive}"
  "pos_of (lock_shared t m) t \<in> {In_shared, Shared}" "pos_of (unlock t m) t = Releasing" "pos_of (unlock_shared i t m) t = Outside"
  "pos_of (unlock_notify t m) t = Outside"
  by (auto simp: lock_def lock_gate2_def lock_shared_def unlock_def unlock_notify_def unlock_shared_def Let_def)

definition counter_inv :: "nat set \<Rightarrow> counter \<Rightarrow> bool" where
  "counter_inv T c \<longleftrightarrow> sm_reach T (counter_mutex c) \<and> (\<forall>t. pos_of (counter_mutex c) t \<in> lock_at (at c t)) \<and>
     (\<forall>t v. at c t = Inc_store v \<or> at c t = Get_unlock v \<longrightarrow> v = counter_value c) \<and>
     counter_value c = of_nat (\<Sum>t \<in> T. counted c t)"

text \<open>An exclusive owner is alone among those who hold a value of the counter.\<close>

lemma writer_alone:
  assumes "counter_inv T c" "pos_of (counter_mutex c) t = Exclusive" "u \<noteq> t"
  shows "at c u \<noteq> Inc_store v" "at c u \<noteq> Get_unlock v"
proof -
  have "lock_inv (counter_mutex c)" using assms(1) lock_inv_reach by (auto simp: counter_inv_def)
  then have "pos_of (counter_mutex c) u \<noteq> Exclusive" "pos_of (counter_mutex c) u \<noteq> Shared"
    using assms(2,3) by (auto simp: lock_inv_def exclusive_ok_def entered_def readers_def)
  moreover have "pos_of (counter_mutex c) u \<in> lock_at (at c u)" using assms(1) by (simp add: counter_inv_def)
  ultimately show "at c u \<noteq> Inc_store v" "at c u \<noteq> Get_unlock v" by auto
qed

lemma counter_inv_lock:
  assumes "counter_inv T c" "sm_step T (counter_mutex c) m" "\<And>u. u \<noteq> t \<Longrightarrow> pos_of m u = pos_of (counter_mutex c) u"
    and "pos_of m t \<in> lock_at p" "\<And>v. p \<noteq> Inc_store v \<and> p \<noteq> Get_unlock v"
  shows "counter_inv T (goto t p (c\<lparr>counter_mutex := m\<rparr>))"
proof -
  have "sm_reach T m" using assms(1,2) by (auto simp: counter_inv_def intro: sm_reach.step)
  moreover have "pos_of m u \<in> lock_at (((at c)(t := p)) u)" for u using assms(1,3,4) by (simp add: counter_inv_def)
  ultimately show ?thesis using assms(1,5) by (auto simp: counter_inv_def)
qed

text \<open>A thread that is woken up stays where it is in the counter.\<close>

lemma counter_inv_woken:
  assumes "counter_inv T c" "sm_step T (counter_mutex c) m" "\<And>u. u \<noteq> t \<Longrightarrow> pos_of m u = pos_of (counter_mutex c) u"
    and "pos_of (counter_mutex c) t \<in> {In_gate1, In_gate2, In_shared}"
    and "pos_of (counter_mutex c) t \<in> {In_gate1, In_gate2} \<Longrightarrow> pos_of m t \<in> {In_gate1, In_gate2, Exclusive}"
    and "pos_of (counter_mutex c) t = In_shared \<Longrightarrow> pos_of m t \<in> {In_shared, Shared}"
  shows "counter_inv T (c\<lparr>counter_mutex := m\<rparr>)"
proof -
  have at: "pos_of (counter_mutex c) t \<in> lock_at (at c t)" using assms(1) by (simp add: counter_inv_def)
  have "counter_inv T (goto t (at c t) (c\<lparr>counter_mutex := m\<rparr>))"
  proof (rule counter_inv_lock [OF assms(1-3)])
    show "pos_of m t \<in> lock_at (at c t)" using at assms(4-6) by (cases "at c t") auto
    show "at c t \<noteq> Inc_store v \<and> at c t \<noteq> Get_unlock v" for v using at assms(4) by (cases "at c t") auto
  qed
  then show ?thesis by (simp add: goto_def)
qed

lemma counter_inv_gates:
  assumes "counter_inv T c" "sm_step T (counter_mutex c) m" "pos_of m = pos_of (counter_mutex c)"
  shows "counter_inv T (c\<lparr>counter_mutex := m\<rparr>)"
  using assms by (auto simp: counter_inv_def intro: sm_reach.step)

text \<open>The accesses: a load puts the present value in the thread's hand, a store happens while nobody else holds one.\<close>

lemma counter_inv_load:
  assumes "counter_inv T c" "pos_of (counter_mutex c) t \<in> lock_at p" "p = Inc_store (counter_value c) \<or> p = Get_unlock (counter_value c)"
  shows "counter_inv T (goto t p c)"
  using assms by (auto simp: counter_inv_def)

lemma counter_inv_increment:
  assumes "counter_inv T c" "t \<in> T" "finite T" "at c t = Inc_store v"
  shows "counter_inv T (goto t Inc_unlock (c\<lparr>counter_value := v + 1, counted := (counted c)(t := Suc (counted c t))\<rparr>))"
proof -
  have ex: "pos_of (counter_mutex c) t = Exclusive" and v: "v = counter_value c"
    using assms(1,4) by (auto simp: counter_inv_def dest: spec [of _ t])
  have "(\<Sum>u \<in> T. ((counted c)(t := Suc (counted c t))) u) = Suc (\<Sum>u \<in> T. counted c u)"
    using assms(2,3) by (simp add: sum.remove [of T t])
  then have "v + 1 = of_nat (\<Sum>u \<in> T. ((counted c)(t := Suc (counted c t))) u)"
    using assms(1) v by (simp only: counter_inv_def) simp
  then show ?thesis using assms(1) ex writer_alone [OF assms(1) ex] by (auto simp: counter_inv_def)
qed

lemma counter_inv_reset:
  assumes "counter_inv T c" "pos_of (counter_mutex c) t = Exclusive"
  shows "counter_inv T (goto t Reset_unlock (c\<lparr>counter_value := 0, counted := (\<lambda>_. 0)\<rparr>))"
  using assms(1) writer_alone [OF assms] assms(2) by (auto simp: counter_inv_def)

lemma counter_step_inv:
  assumes step: "counter_step T c c'" and inv: "counter_inv T c" and fin: "finite T"
  shows "counter_inv T c'"
proof -
  have at: "pos_of (counter_mutex c) t \<in> lock_at (at c t)" for t using inv by (simp add: counter_inv_def)
  from step show ?thesis
  proof cases
    case (Inc_call t)
    then show ?thesis using at [of t] pos_self(1) [of t "counter_mutex c"] pos_other(1)
      by (auto intro!: counter_inv_lock [OF inv sm_step.Lock])
  next
    case (Reset_call t)
    then show ?thesis using at [of t] pos_self(1) [of t "counter_mutex c"] pos_other(1)
      by (auto intro!: counter_inv_lock [OF inv sm_step.Lock])
  next
    case (Get_call t)
    then show ?thesis using at [of t] pos_self(3) [of t "counter_mutex c"] pos_other(3)
      by (auto intro!: counter_inv_lock [OF inv sm_step.Lock_shared])
  next
    case (Inc_release t)
    then show ?thesis using at [of t] pos_self(4) pos_other(4) by (auto intro!: counter_inv_lock [OF inv sm_step.Unlock])
  next
    case (Reset_release t)
    then show ?thesis using at [of t] pos_self(4) pos_other(4) by (auto intro!: counter_inv_lock [OF inv sm_step.Unlock])
  next
    case (Notify_waiters t)
    then show ?thesis using at [of t] pos_self(6) pos_other(6) by (auto intro!: counter_inv_lock [OF inv sm_step.Unlock_notify])
  next
    case (Get_release t v i)
    then show ?thesis using at [of t] pos_self(5) pos_other(5) by (auto intro!: counter_inv_lock [OF inv sm_step.Unlock_shared])
  next
    case (Woken1 t)
    then show ?thesis using pos_self(1) [of t "counter_mutex c"] pos_other(1)
      by (auto intro!: counter_inv_woken [OF inv sm_step.Lock_again])
  next
    case (Woken2 t)
    then show ?thesis using pos_self(2) [of t "counter_mutex c"] pos_other(2)
      by (auto intro!: counter_inv_woken [OF inv sm_step.Lock_gate2])
  next
    case (Woken_shared t)
    then show ?thesis using pos_self(3) [of t "counter_mutex c"] pos_other(3)
      by (auto intro!: counter_inv_woken [OF inv sm_step.Lock_shared_again])
  next
    case (Wakes1 i)
    then show ?thesis using counter_inv_gates [OF inv sm_step.Spurious1] by simp
  next
    case (Wakes2 i)
    then show ?thesis using counter_inv_gates [OF inv sm_step.Spurious2] by simp
  next
    case (Inc_write t v)
    then show ?thesis using counter_inv_increment [OF inv _ fin] by simp
  qed (use inv in \<open>auto intro!: counter_inv_load counter_inv_reset\<close>)
qed

lemma counter_reach_inv: "counter_reach T c \<Longrightarrow> finite T \<Longrightarrow> counter_inv T c"
proof (induction rule: counter_reach.induct)
  case counter_start
  show ?case by (simp add: counter_inv_def ThreadSafeCounter_def sm_reach.start) (simp add: new_shared_mutex_def)
qed (auto dest: counter_step_inv)

section \<open>Property\<close>

text \<open>
  C29: The counter on the reader/writer lock loses no increment.  In every reachable state, for any set of threads, the value
  is the number of increments since the last reset, modulo \<open>2 ^ 32\<close>; and a thread that has read the value, to return it or
  to store its successor, holds the present one: no other thread can have changed it in between.
\<close>

theorem counter_exact:
  assumes "counter_reach T c" "finite T"
  shows "counter_value c = of_nat (\<Sum>t \<in> T. counted c t) \<and>
    (\<forall>t v. at c t = Inc_store v \<or> at c t = Get_unlock v \<longrightarrow> v = counter_value c)"
  using counter_reach_inv [OF assms] unfolding counter_inv_def by blast

lemma one_increment_reach:
  "counter_reach {1} (goto 1 (Inc_store 0) (goto 1 Inc_lock (ThreadSafeCounter\<lparr>counter_mutex := lock 1 new_shared_mutex\<rparr>)))"
proof -
  have "counter_reach {1} (goto 1 Inc_lock (ThreadSafeCounter\<lparr>counter_mutex := lock 1 (counter_mutex ThreadSafeCounter)\<rparr>))"
    by (rule counter_next [OF counter_start Inc_call]) (simp_all add: ThreadSafeCounter_def)
  then have "counter_reach {1} (goto 1 Inc_lock (ThreadSafeCounter\<lparr>counter_mutex := lock 1 new_shared_mutex\<rparr>))" (is "counter_reach _ ?c")
    by (simp add: ThreadSafeCounter_def)
  then have "counter_reach {1} (goto 1 (Inc_store (counter_value ?c)) ?c)"
    by (rule counter_next [OF _ Inc_load])
      (simp_all add: lock_def lock_gate2_def new_shared_mutex_def write_entered_def n_readers_def)
  then show ?thesis by (simp add: ThreadSafeCounter_def)
qed

theorem counter_exact_witness:
  "\<exists>c. counter_reach {1} c \<and> counter_value c = 1 \<and> counted c 1 = 1"
proof -
  let ?c = "goto 1 (Inc_store 0) (goto 1 Inc_lock (ThreadSafeCounter\<lparr>counter_mutex := lock 1 new_shared_mutex\<rparr>))"
  let ?c' = "goto 1 Inc_unlock (?c\<lparr>counter_value := 0 + 1, counted := (counted ?c)(1 := Suc (counted ?c 1))\<rparr>)"
  have "counter_reach {1} ?c'" by (rule counter_next [OF one_increment_reach Inc_write]) simp_all
  with counter_exact [OF this] show ?thesis by (intro exI [of _ ?c']) (simp add: ThreadSafeCounter_def)
qed

end
