(* ===== verification/Socket_Io.thy ===== *)
theory Socket_Io
  imports Requests
begin

text \<open>
  What the blocking and the epoll server do with one client socket.  The two functions
  \<open>Blocking::ServerImpl::RunConnection\<close> (src/src/network/blocking/ServerImpl.cpp) and
  \<open>NonBlocking::Worker::ConnectionWork\<close> (src/src/network/nonblocking/Worker.cpp) share the text of their loop body;
  \<open>handle_input\<close> is that text, with the one difference as a parameter.

  The system is a parameter: \<open>client_env\<close> gives the result of every \<open>read\<close>, of every \<open>send\<close> (of so many bytes) and of
  every test of the flag \<open>running\<close>, which another thread may clear at any time.  \<open>send\<close> may take fewer bytes than it was
  given; the log has the bytes it took.  The state of a connection counts how many of them were
  made and keeps the calls that are visible outside, in order.  Console output is left out.
\<close>

section \<open>The system calls of a connection\<close>

abbreviation nul :: char where "nul \<equiv> CHR 0x00"

datatype read_result = Got string | Eof | Failed

record client_env =
  e_running :: "nat \<Rightarrow> bool"
  e_read :: "nat \<Rightarrow> read_result"
  e_send :: "nat \<Rightarrow> nat \<Rightarrow> int"

datatype client_call = Sys_send string | Sys_close

record 's conn =
  k_storage :: 's
  k_parser :: parser
  k_command :: string
  k_buf :: string
  k_tests :: nat
  k_reads :: nat
  k_sends :: nat
  k_log :: "client_call list"

definition buf_size :: nat where
  "buf_size = 256"

definition new_conn :: "'s \<Rightarrow> bool \<Rightarrow> 's conn" where
  "new_conn s neg = \<lparr>k_storage = s, k_parser = new_Parser neg, k_command = [], k_buf = replicate buf_size nul,
     k_tests = 0, k_reads = 0, k_sends = 0, k_log = []\<rparr>"

definition load_running :: "client_env \<Rightarrow> 's conn \<Rightarrow> bool \<times> 's conn" where
  "load_running env k = (e_running env (k_tests k), k\<lparr>k_tests := Suc (k_tests k)\<rparr>)"

text \<open>\<open>read(client_socket, buf, buf_size)\<close> overwrites the first bytes of the buffer only.\<close>

definition sys_read :: "client_env \<Rightarrow> 's conn \<Rightarrow> int \<times> 's conn" where
  "sys_read env k =
     (let k1 = k\<lparr>k_reads := Suc (k_reads k)\<rparr>
      in case e_read env (k_reads k) of
           Got cs \<Rightarrow> (int (length cs), k1\<lparr>k_buf := cs @ drop (length cs) (k_buf k)\<rparr>)
         | Eof \<Rightarrow> (0, k1)
         | Failed \<Rightarrow> (- 1, k1))"

text \<open>\<open>send(client_socket, cs.c_str(), cs.size(), 0)\<close>: what it returns, and the bytes that leave.\<close>

definition taken :: "client_env \<Rightarrow> nat \<Rightarrow> string \<Rightarrow> string" where
  "taken env i cs = take (nat (e_send env i (length cs))) cs"

definition sys_send :: "client_env \<Rightarrow> string \<Rightarrow> 's conn \<Rightarrow> int \<times> 's conn" where
  "sys_send env cs k =
     (e_send env (k_sends k) (length cs),
      k\<lparr>k_sends := Suc (k_sends k), k_log := k_log k @ [Sys_send (taken env (k_sends k) cs)]\<rparr>)"

definition sys_close :: "'s conn \<Rightarrow> 's conn" where
  "sys_close k = k\<lparr>k_log := k_log k @ [Sys_close]\<rparr>"

section \<open>The loop body\<close>

text \<open>
  How a pass ends: it goes round again, leaves the loop, throws a \<open>std::runtime_error\<close> out of the function, or is
  undefined.
\<close>

datatype 's io_outcome = Next "'s conn" | Leave "'s conn" | Raise string "'s conn" | Broken ub

text \<open>\<open>command += buf\<close> appends a C string: it reads up to the first null byte, which must be inside the buffer.\<close>

definition append_buf :: "'s conn \<Rightarrow> ub + 's conn" where
  "append_buf k =
     (if nul \<in> set (k_buf k) then Inr (k\<lparr>k_command := k_command k @ takeWhile (\<lambda>c. c \<noteq> nul) (k_buf k)\<rparr>)
      else Inl Index_out_of_range)"

text \<open>
  \<open>parser.Parse(command.c_str(), received, parsed)\<close>: the number of bytes received is passed as the length of
  \<open>command\<close>.  The text of \<open>command\<close> and the null byte behind it may be read, nothing else.
\<close>

definition parse_command :: "'s conn \<Rightarrow> int \<Rightarrow> (parse_error \<times> parser) + parser \<times> nat \<times> bool" where
  "parse_command k received =
     (let input = k_command k @ [nul]; sz = nat received
      in case Parse (k_parser k) input (min sz (length input)) of
           Inr (p, n, False) \<Rightarrow> if sz \<le> length input then Inr (p, n, False) else Inl (Undefined Index_out_of_range, p)
         | r \<Rightarrow> r)"

text \<open>The loop that reads the data block; \<open>body_size + 2\<close> is a 32-bit sum.\<close>

partial_function (option) read_body :: "client_env \<Rightarrow> u32 \<Rightarrow> 's conn \<Rightarrow> (ub + 's conn) option" where
  "read_body env body_size k =
     (if length (k_command k) < unat (body_size + 2) then
        (case append_buf (snd (sys_read env k)) of
           Inl u \<Rightarrow> Some (Inl u)
         | Inr k' \<Rightarrow> read_body env body_size k')
      else Some (Inr k))"

text \<open>
  The reply; only the blocking server closes the socket when it cannot be sent (\<open>closes\<close>).  The result of \<open>send\<close> is only
  compared with 0: bytes that were not taken are not sent again.
\<close>

definition send_reply :: "client_env \<Rightarrow> bool \<Rightarrow> string \<Rightarrow> 's conn \<Rightarrow> 's io_outcome" where
  "send_reply env closes result k =
     (let (sent, k1) = sys_send env result k
      in if sent \<le> 0 then Raise ''Socket send() failed'' (if closes then sys_close k1 else k1)
         else Next (k1\<lparr>k_buf := replicate buf_size nul\<rparr>))"

definition execute_command ::
  "'s storage_ops \<Rightarrow> client_env \<Rightarrow> bool \<Rightarrow> command option \<Rightarrow> string \<Rightarrow> 's conn \<Rightarrow> 's io_outcome" where
  "execute_command ops env closes com_ptr args k =
     (case com_ptr of
        None \<Rightarrow> Broken Null_dereference
      | Some cmd \<Rightarrow>
          (case Command_Execute ops cmd (k_storage k) args of
             Inl u \<Rightarrow> Broken u
           | Inr (s', result) \<Rightarrow> send_reply env closes (result @ crlf) (k\<lparr>k_command := [], k_storage := s'\<rparr>)))"

text \<open>A complete header: \<open>Build\<close> is called outside of every \<open>try\<close>.\<close>

definition run_command ::
  "'s storage_ops \<Rightarrow> client_env \<Rightarrow> bool \<Rightarrow> 's conn \<Rightarrow> 's io_outcome option" where
  "run_command ops env closes k =
     (case Build (k_parser k) 0 of
        Inl (Undefined u) \<Rightarrow> Some (Broken u)
      | Inl e \<Rightarrow> Some (Raise ''Unsupported command'' k)
      | Inr (com_ptr, body_size) \<Rightarrow>
          let k1 = k\<lparr>k_parser := Reset (k_parser k)\<rparr>
          in if body_size > 0 then
               (case read_body env body_size k1 of
                  None \<Rightarrow> None
                | Some (Inl u) \<Rightarrow> Some (Broken u)
                | Some (Inr k2) \<Rightarrow> Some (execute_command ops env closes com_ptr (take (unat body_size) (k_command k2)) k2))
             else Some (execute_command ops env closes com_ptr [] k1))"

definition handle_input ::
  "'s storage_ops \<Rightarrow> client_env \<Rightarrow> bool \<Rightarrow> int \<Rightarrow> 's conn \<Rightarrow> 's io_outcome option" where
  "handle_input ops env closes received k =
     (case append_buf k of
        Inl u \<Rightarrow> Some (Broken u)
      | Inr k1 \<Rightarrow>
          (case parse_command k1 received of
             Inl (Undefined u, p) \<Rightarrow> Some (Broken u)
           | Inl (e, p) \<Rightarrow>
               let (sent, k2) = sys_send env (''PARSE ERROR'' @ crlf) (k1\<lparr>k_parser := p\<rparr>)
               in Some (if sent \<le> 0 then Raise ''Socket send() failed'' (sys_close k2) else Leave k2)
           | Inr (p, parsed, parse_finished) \<Rightarrow>
               let k2 = k1\<lparr>k_parser := p, k_command := drop parsed (k_command k1)\<rparr>
               in if parse_finished then run_command ops env closes k2
                  else Some (Next (k2\<lparr>k_buf := replicate buf_size nul\<rparr>))))"

section \<open>One piece of input\<close>

text \<open>
  At the head of the loop nothing is left over from the previous pass.  A clean piece is what a client sends in one
  read when it sends text: not empty, no null byte, and shorter than the buffer.
\<close>

definition idle_conn :: "'s conn \<Rightarrow> bool" where
  "idle_conn k \<longleftrightarrow> k_command k = [] \<and> k_buf k = replicate buf_size nul"

definition clean :: "string \<Rightarrow> bool" where
  "clean cs \<longleftrightarrow> cs \<noteq> [] \<and> length cs < buf_size \<and> nul \<notin> set cs"

definition has_read :: "string \<Rightarrow> 's conn \<Rightarrow> 's conn" where
  "has_read cs k = k\<lparr>k_reads := Suc (k_reads k), k_buf := cs @ replicate (buf_size - length cs) nul\<rparr>"

lemma sys_read_clean:
  "idle_conn k \<Longrightarrow> e_read env (k_reads k) = Got cs \<Longrightarrow> sys_read env k = (int (length cs), has_read cs k)"
  by (simp add: sys_read_def has_read_def idle_conn_def)

lemma append_has_read:
  assumes "idle_conn k" "clean cs"
  shows "append_buf (has_read cs k) = Inr (has_read cs k\<lparr>k_command := cs\<rparr>)"
proof -
  have "takeWhile (\<lambda>c. c \<noteq> nul) (cs @ replicate n nul) = cs" for n
    using assms(2) by (induction cs) (auto simp: clean_def takeWhile_append)
  moreover have "0 < buf_size - length cs" using assms(2) by (simp add: clean_def)
  ultimately show ?thesis using assms(1) by (simp add: append_buf_def has_read_def idle_conn_def)
qed

lemma parse_command_full:
  "k_command k = cs \<Longrightarrow> parse_command k (int (length cs)) = Parse (k_parser k) cs (length cs)"
  by (auto simp: parse_command_def Let_def Parse_def split: sum.splits prod.splits bool.splits)

lemma handle_more:
  assumes "idle_conn k" "clean cs" "parse_loop (k_parser k) 0 cs = Inr (p, length cs)" "\<not> p_complete p"
  shows "handle_input ops env closes (int (length cs)) (has_read cs k) =
    Some (Next (k\<lparr>k_reads := Suc (k_reads k), k_parser := p\<rparr>))"
  using assms append_has_read [OF assms(1,2)]
  by (simp add: handle_input_def parse_command_full Parse_def has_read_def idle_conn_def)

lemma handle_header:
  assumes "idle_conn k" "clean cs" "parse_loop (k_parser k) 0 cs = Inr (p, n)" "p_complete p"
  shows "handle_input ops env closes (int (length cs)) (has_read cs k) =
    run_command ops env closes (has_read cs k\<lparr>k_parser := p, k_command := drop n cs\<rparr>)"
  using assms append_has_read [OF assms(1,2)]
  by (simp add: handle_input_def parse_command_full Parse_def) (simp add: has_read_def)

text \<open>The state after a command was executed and \<open>send\<close> took what it took of the reply.\<close>

definition served :: "client_env \<Rightarrow> 's \<Rightarrow> string \<Rightarrow> bool \<Rightarrow> 's conn \<Rightarrow> 's conn" where
  "served env s out neg k = k\<lparr>k_storage := s, k_parser := new_Parser neg, k_command := [], k_buf := replicate buf_size nul,
     k_sends := Suc (k_sends k), k_log := k_log k @ [Sys_send (taken env (k_sends k) (out @ crlf))]\<rparr>"

lemma unat_body_size:
  assumes "n + 2 < 2 ^ 32"
  shows "unat (of_nat n + 2 :: u32) = n + 2" "unat (of_nat n :: u32) = n"
proof -
  have "(of_nat n + 2 :: u32) = of_nat (n + 2)" by simp
  then show "unat (of_nat n + 2 :: u32) = n + 2" using assms by (simp only: unat_of_nat) simp
  show "unat (of_nat n :: u32) = n" using assms by (simp add: unat_of_nat)
qed

lemma run_command_whole:
  assumes "Build (k_parser k) 0 = Inr (Some cmd, of_nat (length b))" "length b + 2 < 2 ^ 32"
    and "b = [] \<or> k_command k = b @ crlf @ extra"
    and "Command_Execute ops cmd (k_storage k) b = Inr (s', out)" "e_send env (k_sends k) (length (out @ crlf)) > 0"
  shows "run_command ops env closes k = Some (Next (served env s' out (p_negative (k_parser k)) k))"
proof -
  note z = unat_body_size [OF assms(2)]
  have body: "read_body env (of_nat (length b)) k1 = Some (Inr k1)" if "k_command k1 = b @ crlf @ extra" for k1 :: "'a conn"
    using that by (subst read_body.simps) (simp add: z)
  have "(0 < (of_nat (length b) :: u32)) = (b \<noteq> [])" using z(2) by (simp add: word_less_nat_alt)
  then show ?thesis
    using assms body by (auto simp: run_command_def execute_command_def send_reply_def sys_send_def served_def Reset_new z(2))
qed

text \<open>
  When the client has gone, the loop that waits for the data block appends what the buffer holds from before.
\<close>

lemma read_body_stale:
  assumes "e_read env (k_reads k) \<in> {Eof, Failed}" "k_buf k = cs @ replicate (buf_size - length cs) nul" "clean cs"
    and "length (k_command k) < unat (bs + 2)" "unat (bs + 2) \<le> length (k_command k) + length cs"
  shows "read_body env bs k = Some (Inr (k\<lparr>k_reads := Suc (k_reads k), k_command := k_command k @ cs\<rparr>))"
proof -
  let ?k = "k\<lparr>k_reads := Suc (k_reads k)\<rparr>"
  have "snd (sys_read env k) = ?k" using assms(1) by (auto simp: sys_read_def Let_def)
  moreover have "takeWhile (\<lambda>c. c \<noteq> nul) (cs @ replicate n nul) = cs" for n
    using assms(3) by (induction cs) (auto simp: clean_def takeWhile_append)
  then have "append_buf ?k = Inr (?k\<lparr>k_command := k_command k @ cs\<rparr>)"
    using assms(2,3) by (simp add: append_buf_def clean_def)
  moreover have "read_body env bs (?k\<lparr>k_command := k_command k @ cs\<rparr>) = Some (Inr (?k\<lparr>k_command := k_command k @ cs\<rparr>))"
    using assms(5) by (subst read_body.simps) simp
  ultimately show ?thesis using assms(4) by (subst read_body.simps) simp
qed

section \<open>A session of requests\<close>

text \<open>
  How a client cuts a request into the pieces the server reads: clean pieces, the last of which completes the header
  and carries the whole data block.
\<close>

definition request_pieces :: "string \<Rightarrow> string \<Rightarrow> string list \<Rightarrow> bool" where
  "request_pieces h b css \<longleftrightarrow> css \<noteq> [] \<and> concat css = request_text h b \<and> (\<forall>cs \<in> set css. clean cs) \<and>
     length (concat (butlast css)) < length h"

text \<open>The environment delivers the pieces \<open>css\<close> next, and goes on running meanwhile.\<close>

definition delivers :: "client_env \<Rightarrow> nat \<Rightarrow> nat \<Rightarrow> string list \<Rightarrow> bool" where
  "delivers env r n css \<longleftrightarrow> (\<forall>i < length css. e_read env (r + i) = Got (css ! i) \<and> e_running env (n + i))"

lemma delivers_Nil [simp]: "delivers env r n []"
  by (simp add: delivers_def)

lemma delivers_Cons:
  "delivers env r n (cs # css) \<longleftrightarrow> e_read env r = Got cs \<and> e_running env n \<and> delivers env (Suc r) (Suc n) css"
  by (auto simp: delivers_def less_Suc_eq_0_disj)

lemma delivers_append:
  "delivers env r n (xs @ ys) \<longleftrightarrow> delivers env r n xs \<and> delivers env (r + length xs) (n + length xs) ys"
  by (induction xs arbitrary: r n) (auto simp: delivers_Cons)

text \<open>What the commands of a session answer, one after the other, and the storage they leave.\<close>

fun run_session :: "'s storage_ops \<Rightarrow> 's \<Rightarrow> (command \<times> string) list \<Rightarrow> ub + 's \<times> string list" where
  "run_session ops s [] = Inr (s, [])"
| "run_session ops s ((cmd, b) # cs) =
     res_bind (Command_Execute ops cmd s b) (\<lambda>(s', out).
     res_bind (run_session ops s' cs) (\<lambda>(s'', outs). Inr (s'', out # outs)))"

record client_request =
  q_header :: string
  q_body :: string
  q_cmd :: command
  q_pieces :: "string list"

definition request_ok :: "client_request \<Rightarrow> bool" where
  "request_ok q \<longleftrightarrow> (\<forall>neg. is_request (new_Parser neg) (q_header q) (q_body q) (q_cmd q)) \<and>
     request_pieces (q_header q) (q_body q) (q_pieces q) \<and> length (q_body q) + 2 < 2 ^ 32"

text \<open>
  What \<open>send\<close> takes of the replies, from its call number \<open>i\<close> on.  \<open>sends_some\<close>: none of the next \<open>n\<close> calls fails;
  \<open>sends_all\<close>: no call is short.
\<close>

fun taken_replies :: "client_env \<Rightarrow> nat \<Rightarrow> string list \<Rightarrow> client_call list" where
  "taken_replies env i [] = []"
| "taken_replies env i (out # outs) = Sys_send (taken env i (out @ crlf)) # taken_replies env (Suc i) outs"

definition sends_some :: "client_env \<Rightarrow> nat \<Rightarrow> nat \<Rightarrow> bool" where
  "sends_some env i n \<longleftrightarrow> (\<forall>j < n. \<forall>len > 0. e_send env (i + j) len > 0)"

definition sends_all :: "client_env \<Rightarrow> bool" where
  "sends_all env \<longleftrightarrow> (\<forall>i n. e_send env i n = int n)"

lemma sends_some_Suc:
  "sends_some env i (Suc n) \<longleftrightarrow> (\<forall>len > 0. e_send env i len > 0) \<and> sends_some env (Suc i) n"
  by (simp add: sends_some_def All_less_Suc2)

lemma sends_all_some: "sends_all env \<Longrightarrow> sends_some env i n"
  by (simp add: sends_all_def sends_some_def)

lemma taken_all: "sends_all env \<Longrightarrow> taken env i cs = cs"
  by (simp add: sends_all_def taken_def)

lemma taken_replies_all: "sends_all env \<Longrightarrow> taken_replies env i outs = map (\<lambda>out. Sys_send (out @ crlf)) outs"
  by (induction outs arbitrary: i) (simp_all add: taken_all)

text \<open>A short \<open>send\<close> loses the end of the reply, whatever the server does afterwards.\<close>

lemma taken_short: "cs \<noteq> [] \<Longrightarrow> e_send env i (length cs) < int (length cs) \<Longrightarrow> length (taken env i cs) < length cs"
  using zless_nat_conj [of "e_send env i (length cs)" "int (length cs)"] by (simp add: taken_def)

text \<open>
  The contract of a loop that serves a client: when the flag is set and some bytes were read, it handles them and goes
  on with what \<open>handle_input\<close> leaves.
\<close>

locale client_loop =
  fixes ops :: "'s storage_ops"
    and closes :: bool
    and loop :: "client_env \<Rightarrow> 's conn \<Rightarrow> 's io_outcome option"
  assumes loop_got: "e_running env (k_tests k) \<Longrightarrow> e_read env (k_reads k) = Got cs \<Longrightarrow> cs \<noteq> [] \<Longrightarrow> loop env k =
      (let k1 = snd (sys_read env (k\<lparr>k_tests := Suc (k_tests k)\<rparr>))
       in case handle_input ops env closes (int (length cs)) k1 of
            None \<Rightarrow> None
          | Some (Next k') \<Rightarrow> loop env k'
          | Some r \<Rightarrow> Some r)"
begin

lemma loop_clean:
  assumes "idle_conn k" "clean cs" "e_running env (k_tests k)" "e_read env (k_reads k) = Got cs"
    and "handle_input ops env closes (int (length cs)) (has_read cs (k\<lparr>k_tests := Suc (k_tests k)\<rparr>)) = Some (Next k')"
  shows "loop env k = loop env k'"
proof -
  have "idle_conn (k\<lparr>k_tests := Suc (k_tests k)\<rparr>)" using assms(1) by (simp add: idle_conn_def)
  then show ?thesis
    using loop_got [OF assms(3,4)] assms(2,4,5) by (simp add: sys_read_clean clean_def)
qed

lemma loop_header_piece:
  assumes "idle_conn k" "clean cs" "e_running env (k_tests k)" "e_read env (k_reads k) = Got cs"
    and "parse_loop (k_parser k) 0 cs = Inr (p, length cs)" "\<not> p_complete p"
  shows "loop env k = loop env (k\<lparr>k_tests := Suc (k_tests k), k_reads := Suc (k_reads k), k_parser := p\<rparr>)"
  using assms handle_more [of "k\<lparr>k_tests := Suc (k_tests k)\<rparr>" cs p ops env closes]
  by (intro loop_clean) (simp_all add: idle_conn_def)

lemma loop_last_piece:
  assumes "idle_conn k" "clean (x @ (if b = [] then [] else b @ crlf))" "e_running env (k_tests k)"
    and "e_read env (k_reads k) = Got (x @ (if b = [] then [] else b @ crlf))"
    and "parse_loop (k_parser k) 0 x = Inr (q, length x)" "p_complete q"
    and "Build q 0 = Inr (Some cmd, of_nat (length b))" "length b + 2 < 2 ^ 32"
    and "Command_Execute ops cmd (k_storage k) b = Inr (s', out)" "e_send env (k_sends k) (length (out @ crlf)) > 0"
  shows "loop env k = loop env (served env s' out (p_negative q) (k\<lparr>k_tests := Suc (k_tests k), k_reads := Suc (k_reads k)\<rparr>))"
proof -
  define cs where "cs = x @ (if b = [] then [] else b @ crlf)"
  let ?k = "k\<lparr>k_tests := Suc (k_tests k)\<rparr>"
  have "parse_loop (k_parser ?k) 0 cs = Inr (q, length x)"
    using assms(5,6) by (simp add: cs_def parse_loop_append parse_loop_complete)
  then have "handle_input ops env closes (int (length cs)) (has_read cs ?k)
      = run_command ops env closes (has_read cs ?k\<lparr>k_parser := q, k_command := drop (length x) cs\<rparr>)"
    using assms(1,2,6) unfolding cs_def by (intro handle_header) (simp_all add: idle_conn_def)
  also have "\<dots> = Some (Next (served env s' out (p_negative q) (has_read cs ?k\<lparr>k_parser := q, k_command := drop (length x) cs\<rparr>)))"
    using assms(7-10) by (subst run_command_whole [where cmd = cmd and b = b and extra = "[]"]) (auto simp: has_read_def cs_def)
  finally show ?thesis
    using assms(1-4) unfolding cs_def [symmetric] by (intro loop_clean) (simp_all add: served_def has_read_def)
qed

text \<open>A request is executed once and answered once, and leaves the loop where it was.\<close>

lemma loop_request_from:
  assumes r: "is_request p h b cmd" "length b + 2 < 2 ^ 32"
  shows "request_text h b = xs @ concat css \<Longrightarrow> css \<noteq> [] \<Longrightarrow> \<forall>cs \<in> set css. clean cs \<Longrightarrow>
    length (xs @ concat (butlast css)) < length h \<Longrightarrow> parse_loop p 0 xs = Inr (k_parser k, length xs) \<Longrightarrow>
    idle_conn k \<Longrightarrow> delivers env (k_reads k) (k_tests k) css \<Longrightarrow>
    Command_Execute ops cmd (k_storage k) b = Inr (s', out) \<Longrightarrow> e_send env (k_sends k) (length (out @ crlf)) > 0 \<Longrightarrow>
    \<exists>neg. loop env k = loop env (served env s' out neg (k\<lparr>k_tests := k_tests k + length css, k_reads := k_reads k + length css\<rparr>))"
proof (induction css arbitrary: xs k)
  case (Cons cs css)
  from r(1) obtain q where q: "parse_loop p 0 h = Inr (q, length h)" "p_complete q"
    "\<And>bs. Build q bs = Inr (Some cmd, of_nat (length b))" by (auto simp: is_request_def)
  note d = Cons.prems(7) [unfolded delivers_Cons]
  show ?case
  proof (cases "css = []")
    case True
    define x where "x = drop (length xs) h"
    have len: "length xs < length h" using Cons.prems(4) True by simp
    have "take (length xs) (request_text h b) = xs" using Cons.prems(1) by simp
    then have h: "h = xs @ x" using len by (simp add: x_def request_text_def) (metis append_take_drop_id)
    then have cs: "cs = x @ (if b = [] then [] else b @ crlf)"
      using Cons.prems(1) True by (simp add: request_text_def)
    have "parse_loop (k_parser k) 0 x = Inr (q, length x)"
      using parse_continue [OF Cons.prems(5)] q(1) h by simp
    then show ?thesis
      using loop_last_piece [of k x b env q cmd s' out] Cons.prems d q(2,3) r(2) True cs by auto
  next
    case False
    then have b: "butlast (cs # css) = cs # butlast css" by simp
    have "length (xs @ cs) < length h" using Cons.prems(4) unfolding b by simp
    then obtain zs where zs: "h = (xs @ cs) @ zs" "zs \<noteq> []"
    proof -
      assume l: "length (xs @ cs) < length h" and that: "\<And>zs. h = (xs @ cs) @ zs \<Longrightarrow> zs \<noteq> [] \<Longrightarrow> thesis"
      have "take (length (xs @ cs)) (request_text h b) = xs @ cs" using Cons.prems(1) by simp
      then have "take (length (xs @ cs)) h = xs @ cs" using l by (simp add: request_text_def)
      then show thesis using that [of "drop (length (xs @ cs)) h"] l by (metis append_take_drop_id drop_eq_Nil leD)
    qed
    from header_prefix [OF r(1) zs] obtain p1 where p1: "parse_loop p 0 (xs @ cs) = Inr (p1, length (xs @ cs))"
      "\<not> p_complete p1" by auto
    then have "parse_loop (k_parser k) 0 cs = Inr (p1, length cs)"
      using parse_continue [OF Cons.prems(5)] by simp
    then have "loop env k = loop env (k\<lparr>k_tests := Suc (k_tests k), k_reads := Suc (k_reads k), k_parser := p1\<rparr>)"
      using Cons.prems(3,6) d p1(2) by (intro loop_header_piece) auto
    moreover note Cons.IH [of "xs @ cs" "k\<lparr>k_tests := Suc (k_tests k), k_reads := Suc (k_reads k), k_parser := p1\<rparr>"]
    ultimately show ?thesis
      using Cons.prems d p1 False by (simp add: idle_conn_def served_def)
  qed
qed simp

lemma loop_request:
  assumes "request_ok q" "idle_conn k" "k_parser k = new_Parser neg" "delivers env (k_reads k) (k_tests k) (q_pieces q)"
    and "Command_Execute ops (q_cmd q) (k_storage k) (q_body q) = Inr (s', out)"
    and "e_send env (k_sends k) (length (out @ crlf)) > 0"
  shows "\<exists>neg. loop env k = loop env (served env s' out neg
    (k\<lparr>k_tests := k_tests k + length (q_pieces q), k_reads := k_reads k + length (q_pieces q)\<rparr>))"
  using assms
  by (intro loop_request_from [where p = "new_Parser neg" and xs = "[]" and h = "q_header q" and b = "q_body q" and cmd = "q_cmd q"])
     (simp_all add: request_ok_def request_pieces_def)

lemma loop_session:
  "run_session ops (k_storage k) (map (\<lambda>q. (q_cmd q, q_body q)) qs) = Inr (s', outs) \<Longrightarrow> \<forall>q \<in> set qs. request_ok q \<Longrightarrow>
   idle_conn k \<Longrightarrow> k_parser k = new_Parser neg \<Longrightarrow> delivers env (k_reads k) (k_tests k) (concat (map q_pieces qs)) \<Longrightarrow>
   sends_some env (k_sends k) (length qs) \<Longrightarrow>
   \<exists>k' neg'. loop env k = loop env k' \<and> idle_conn k' \<and> k_parser k' = new_Parser neg' \<and> k_storage k' = s' \<and>
     k_log k' = k_log k @ taken_replies env (k_sends k) outs \<and>
     k_tests k' = k_tests k + length (concat (map q_pieces qs)) \<and> k_reads k' = k_reads k + length (concat (map q_pieces qs)) \<and>
     k_sends k' = k_sends k + length qs"
proof (induction qs arbitrary: k neg outs)
  case Nil
  then show ?case by (intro exI [of _ k] exI [of _ neg]) simp
next
  case (Cons q qs)
  from Cons.prems(1) obtain s1 out outs' where
    ex: "Command_Execute ops (q_cmd q) (k_storage k) (q_body q) = Inr (s1, out)"
    and rest: "run_session ops s1 (map (\<lambda>q. (q_cmd q, q_body q)) qs) = Inr (s', outs')" and outs: "outs = out # outs'"
    by (auto simp: res_simps)
  have d: "delivers env (k_reads k) (k_tests k) (q_pieces q)"
    "delivers env (k_reads k + length (q_pieces q)) (k_tests k + length (q_pieces q)) (concat (map q_pieces qs))"
    using Cons.prems(5) by (simp_all add: delivers_append)
  have s: "e_send env (k_sends k) (length (out @ crlf)) > 0" "sends_some env (Suc (k_sends k)) (length qs)"
    using Cons.prems(6) by (simp_all add: sends_some_Suc)
  from loop_request [OF _ Cons.prems(3,4) d(1) ex s(1)] Cons.prems(2) obtain neg1 where
    step: "loop env k = loop env (served env s1 out neg1
      (k\<lparr>k_tests := k_tests k + length (q_pieces q), k_reads := k_reads k + length (q_pieces q)\<rparr>))" (is "_ = loop env ?k1")
    by auto
  have "\<exists>k' neg'. loop env ?k1 = loop env k' \<and> idle_conn k' \<and> k_parser k' = new_Parser neg' \<and> k_storage k' = s' \<and>
     k_log k' = k_log ?k1 @ taken_replies env (k_sends ?k1) outs' \<and>
     k_tests k' = k_tests ?k1 + length (concat (map q_pieces qs)) \<and> k_reads k' = k_reads ?k1 + length (concat (map q_pieces qs)) \<and>
     k_sends k' = k_sends ?k1 + length qs"
    by (rule Cons.IH) (use Cons.prems(2) rest d(2) s(2) in \<open>simp_all add: served_def idle_conn_def\<close>)
  then show ?case
    unfolding step [symmetric] by (auto simp: served_def outs)
qed

end

lemma idle_new_conn: "idle_conn (new_conn s neg)"
  by (simp add: idle_conn_def new_conn_def)

lemma new_conn_sel [simp]:
  "k_storage (new_conn s neg) = s" "k_parser (new_conn s neg) = new_Parser neg" "k_log (new_conn s neg) = []"
  "k_tests (new_conn s neg) = 0" "k_reads (new_conn s neg) = 0" "k_sends (new_conn s neg) = 0"
  "k_command (new_conn s neg) = []"
  by (simp_all add: new_conn_def)

section \<open>A client to run the servers with\<close>

text \<open>It stores two bytes, sending the request in two pieces, and asks for them.\<close>

definition set_k :: client_request where
  "set_k = \<lparr>q_header = store_header ''set'' ''k'' 0 (expr_time_text False ''0'') 2, q_body = ''hi'',
     q_cmd = new_Set ''k'' 0 0, q_pieces = [''set k'', '' 0 0 2'' @ crlf @ ''hi'' @ crlf]\<rparr>"

definition get_k :: client_request where
  "get_k = \<lparr>q_header = get_header [''k''], q_body = [], q_cmd = new_Get [''k''], q_pieces = [''get k'' @ crlf]\<rparr>"

definition script_env :: "read_result list \<Rightarrow> client_env" where
  "script_env rs = \<lparr>e_running = (\<lambda>_. True), e_read = (\<lambda>i. if i < length rs then rs ! i else Eof), e_send = (\<lambda>_ n. int n)\<rparr>"

lemma sends_all_script: "sends_all (script_env rs)"
  by (simp add: sends_all_def script_env_def)

lemma set_k_header: "q_header set_k = ''set k 0 0 2'' @ crlf"
  by code_simp

lemma request_ok_set_k: "request_ok set_k"
proof -
  have "is_request (new_Parser neg) (q_header set_k) (q_body set_k) (q_cmd set_k)" for neg
  proof -
    have two: "length ''hi'' = 2" by simp
    show ?thesis
      using is_request_set [of "''k''" 0 "''hi''" "''0''" neg False] unfolding two
      by (simp add: set_k_def is_digit_def signed_sum_def digit_sum_def digit_val_def)
  qed
  moreover have "request_pieces (q_header set_k) (q_body set_k) (q_pieces set_k)"
    unfolding set_k_header by (simp add: set_k_def request_pieces_def request_text_def clean_def buf_size_def)
  ultimately show ?thesis by (simp add: request_ok_def) (simp add: set_k_def)
qed

lemma request_ok_get_k: "request_ok get_k"
  using is_request_get [of "[''k'']"]
  by (simp add: request_ok_def get_k_def request_pieces_def request_text_def get_header_def clean_def buf_size_def)

lemma run_session_k:
  "map_sum id snd (run_session lru_ops (MapBasedGlobalLockImpl 8) (map (\<lambda>q. (q_cmd q, q_body q)) [set_k, get_k])) =
    Inr [''STORED'', ''VALUE k 0 2'' @ crlf @ ''hi'' @ crlf @ ''END'']"
  by code_simp

lemma map_sum_snd_Inr: "map_sum id snd r = Inr x \<Longrightarrow> \<exists>s. r = Inr (s, x)"
  by (cases r) auto

lemma pieces_k:
  "concat (map q_pieces [set_k, get_k]) = [''set k'', '' 0 0 2'' @ crlf @ ''hi'' @ crlf, ''get k'' @ crlf]"
  by (simp add: set_k_def get_k_def)

end
