(* ===== verification/Uv_Session.thy ===== *)
theory Uv_Session
  imports Uv_Worker Socket_Io
begin

text \<open>
  A client of the libuv worker (src/src/network/uv/Worker.cpp) that waits for each reply before its next request: the
  replies the worker writes and the storage it leaves are those of the commands executed one after the other.
\<close>

section \<open>A session with the libuv worker\<close>

text \<open>
  What libuv calls for one request of a client that waits for its reply: the reads, then \<open>OnExecutionDone\<close> for the async
  the worker has sent, then \<open>OnWriteDone\<close>.
\<close>

fun uv_session ::
  "'s storage_ops \<Rightarrow> uv_rc \<Rightarrow> nat \<Rightarrow> 's worker \<Rightarrow> string list list \<Rightarrow> (failure + 's worker) option" where
  "uv_session ops rc i w [] = Some (Inr w)"
| "uv_session ops rc i w (css # reqs) =
     (case deliver_all ops rc i w css of
        Some (Inr w1) \<Rightarrow>
          (case res_bind (OnExecutionDone rc w1 (w_next_task w)) (\<lambda>w2. OnWriteDone w2 (w_next_task w)) of
             Inl f \<Rightarrow> Some (Inl f)
           | Inr w3 \<Rightarrow> uv_session ops rc i w3 reqs)
      | r \<Rightarrow> r)"

text \<open>The replies written to connection \<open>i\<close>, in order.\<close>

fun written :: "nat \<Rightarrow> uv_call list \<Rightarrow> string list" where
  "written i [] = []"
| "written i (Call_write t j out # calls) = (if j = i then out # written i calls else written i calls)"
| "written i (call # calls) = written i calls"

lemma written_append [simp]: "written i (xs @ ys) = written i xs @ written i ys"
  by (induction i xs rule: written.induct) simp_all

text \<open>A request in pieces cut anywhere that fit the buffer.\<close>

definition uv_request :: "client_request \<Rightarrow> bool" where
  "uv_request q \<longleftrightarrow> (\<forall>neg. is_request (new_Parser neg) (q_header q) (q_body q) (q_cmd q)) \<and>
     concat (q_pieces q) = request_text (q_header q) (q_body q) \<and>
     (\<forall>cs \<in> set (q_pieces q). length cs \<le> ConnectionInputBufferSize)"

lemma request_ok_uv: "request_ok q \<Longrightarrow> uv_request q"
  by (auto simp: request_ok_def uv_request_def request_pieces_def clean_def buf_size_def ConnectionInputBufferSize_def)

text \<open>The worker, with an idle connection \<open>i\<close>, as a client finds it between two requests.\<close>

definition waiting :: "nat \<Rightarrow> 's worker \<Rightarrow> bool" where
  "waiting i w \<longleftrightarrow> (\<exists>c. w_conns w i = Some c \<and> idle c \<and> buffer_ok c \<and> c_runningTasks c = 0) \<and>
     (\<forall>t \<ge> w_next_task w. \<not> is_closing w (H_done t))"

definition answers_ok :: "uv_rc \<Rightarrow> bool" where
  "answers_ok rc \<longleftrightarrow> (\<forall>t. rc (Call_async_init (H_done t)) = 0) \<and> (\<forall>t i out. rc (Call_write t i out) = 0)"

lemma answer_task:
  assumes "t = w_next_task w" "\<not> is_closing w (H_done t)" "rc (Call_write t i (out @ crlf)) = 0"
    and "idle c" "c_runningTasks c = 1"
  shows "\<exists>w'. res_bind (OnExecutionDone rc (set_conn i c (task_done i cmd b out s' w)) t) (\<lambda>w2. OnWriteDone w2 t) = Inr w' \<and>
    w_conns w' = (w_conns w)(i \<mapsto> c\<lparr>c_runningTasks := 0\<rparr>) \<and> w_storage w' = s' \<and> w_next_task w' = Suc t \<and>
    w_uv w' = w_uv w @ [Call_async_init (H_done t), Call_async_send (H_done t), Call_close (H_done t) CB_OnHandleClosed,
      Call_write t i (out @ crlf)]"
  using assms
  by (simp add: OnExecutionDone_def OnWriteDone_def uv_close_def is_closing_def task_done_def uv_def Let_def idle_def)

lemma waiting_next:
  assumes "waiting i w" "w_conns w' i = Some c" "idle c" "buffer_ok c" "c_runningTasks c = 0"
    and "w_next_task w' = Suc (w_next_task w)" "t = w_next_task w"
    and "w_uv w' = w_uv w @ [Call_async_init (H_done t), Call_async_send (H_done t), Call_close (H_done t) CB_OnHandleClosed,
      Call_write t i out]"
  shows "waiting i w'"
  using assms by (auto simp: waiting_def is_closing_def)

lemma uv_request_served:
  assumes q: "uv_request q" "waiting i w" "answers_ok rc"
    and ex: "Command_Execute ops (q_cmd q) (w_storage w) (q_body q) = Inr (s1, out)"
  shows "\<exists>w1. uv_session ops rc i w (q_pieces q # reqs) = uv_session ops rc i w1 reqs \<and> waiting i w1 \<and>
    w_storage w1 = s1 \<and> written i (w_uv w1) = written i (w_uv w) @ [out @ crlf]"
proof -
  let ?t = "w_next_task w"
  from q(2) obtain c where c: "w_conns w i = Some c" "idle c" "buffer_ok c" "c_runningTasks c = 0"
    and cl: "\<not> is_closing w (H_done ?t)" by (auto simp: waiting_def)
  have rc: "rc (Call_async_init (H_done ?t)) = 0" "rc (Call_write ?t i (out @ crlf)) = 0"
    using q(3) by (simp_all add: answers_ok_def)
  have p: "c_parser c = new_Parser (p_negative (c_parser c))" using c(2) by (simp add: idle_def)
  have r: "is_request (c_parser c) (q_header q) (q_body q) (q_cmd q)"
    "concat (q_pieces q) = request_text (q_header q) (q_body q)"
    "\<forall>cs \<in> set (q_pieces q). length cs \<le> ConnectionInputBufferSize"
    by (subst p) (use q(1) in \<open>simp_all add: uv_request_def\<close>)
  obtain c' where c': "deliver_all ops rc i w (q_pieces q) = Some (Inr (set_conn i c' (task_done i (q_cmd q) (q_body q) out s1 w)))"
    "idle c'" "buffer_ok c'" "c_runningTasks c' = 1"
    using deliver_all_idle [where rc = rc, OF c(1-3) r(1) rc(1) ex r(2,3)] c(4) by auto
  from answer_task [where rc = rc and i = i and out = out, OF refl cl rc(2) c'(2,4), of "q_cmd q" "q_body q" s1] obtain w1 where
    w1: "res_bind (OnExecutionDone rc (set_conn i c' (task_done i (q_cmd q) (q_body q) out s1 w)) ?t) (\<lambda>w2. OnWriteDone w2 ?t) = Inr w1"
    "w_conns w1 = (w_conns w)(i \<mapsto> c'\<lparr>c_runningTasks := 0\<rparr>)" "w_storage w1 = s1" "w_next_task w1 = Suc ?t"
    "w_uv w1 = w_uv w @ [Call_async_init (H_done ?t), Call_async_send (H_done ?t), Call_close (H_done ?t) CB_OnHandleClosed,
      Call_write ?t i (out @ crlf)]" by blast
  have "waiting i w1"
    by (rule waiting_next [OF q(2), where c = "c'\<lparr>c_runningTasks := 0\<rparr>" and t = ?t and out = "out @ crlf"])
      (use c' w1 in \<open>simp_all add: idle_def buffer_ok_def\<close>)
  moreover have "uv_session ops rc i w (q_pieces q # reqs) = uv_session ops rc i w1 reqs" using c'(1) w1(1) by simp
  ultimately show ?thesis using w1(3,5) by auto
qed

lemma uv_session_replies:
  "run_session ops (w_storage w) (map (\<lambda>q. (q_cmd q, q_body q)) qs) = Inr (s', outs) \<Longrightarrow> \<forall>q \<in> set qs. uv_request q \<Longrightarrow>
   waiting i w \<Longrightarrow> answers_ok rc \<Longrightarrow>
   \<exists>w'. uv_session ops rc i w (map q_pieces qs) = Some (Inr w') \<and> waiting i w' \<and> w_storage w' = s' \<and>
     written i (w_uv w') = written i (w_uv w) @ map (\<lambda>out. out @ crlf) outs"
proof (induction qs arbitrary: w outs)
  case (Cons q qs)
  from Cons.prems(1) obtain s1 out outs' where
    ex: "Command_Execute ops (q_cmd q) (w_storage w) (q_body q) = Inr (s1, out)"
    and rest: "run_session ops s1 (map (\<lambda>q. (q_cmd q, q_body q)) qs) = Inr (s', outs')" and outs: "outs = out # outs'"
    by (auto simp: res_simps)
  have "uv_request q" using Cons.prems(2) by simp
  from uv_request_served [OF this Cons.prems(3,4) ex, of "map q_pieces qs"] obtain w1 where
    w1: "uv_session ops rc i w (map q_pieces (q # qs)) = uv_session ops rc i w1 (map q_pieces qs)" "waiting i w1"
      "w_storage w1 = s1" "written i (w_uv w1) = written i (w_uv w) @ [out @ crlf]" by auto
  with Cons.IH [of w1 outs'] rest Cons.prems(2,4) show ?case by (auto simp: outs)
qed auto

section \<open>A value stored and read back\<close>

lemma run_session_set_get:
  assumes wf: "wf_store s" "accounted s" and new: "lookup_store s key = None" and fits: "pair_size key v \<le> max_size s"
  shows "\<exists>s'. run_session lru_ops s [(new_Set key fl exptime, v), (new_Get [key], [])] =
      Inr (s', [''STORED'', value_item key v @ ''END'']) \<and> lookup_store s' key = Some v"
proof -
  have "cacheMap s key = None" using wf_index_None [OF wf(1)] new by (simp add: lookup_store_def)
  from fresh_store(1) [OF wf this, of v] fits obtain s1 where put: "Put s key v = Inr (s1, True)" and wf1: "wf_store s1" by auto
  have l: "lookup_store s1 key = Some v" using lru.put_stored [OF wf(1), of key v s1] put by simp
  from lru.Get_Execute_total [OF wf1, of "[key]" "[]"] obtain s2 where
    "Get_Execute lru_ops [key] s1 [] = Inr (s2, items_found (lookup_store s1) [key] @ ''END'')" "lookup_store s2 = lookup_store s1"
    by blast
  then show ?thesis
    using put l by (simp add: new_Set_def new_InsertCommand_def new_Get_def Set_Execute_def items_found_def)
qed

lemma waiting_new:
  assumes "w_conns w i = Some (new_Connection raw neg)" "length raw = ConnectionInputBufferSize" "w_uv w = []"
  shows "waiting i w"
  using assms by (simp add: waiting_def idle_new buffer_new new_Connection_tasks is_closing_def)

text \<open>
  The flags and the expiration time of a \<open>set\<close> are parsed and dropped: whatever flags \<open>fl\<close> and whatever expiration time
  (the digits \<open>ds\<close>, negated when \<open>ng\<close>) it has, the next \<open>get\<close> finds the item and shows the flags 0, also when the flags
  are not 0 and when the expiration time is negative (Parser.h documents that the flags are sent back and that an
  item with a negative expiration time is immediately expired).
\<close>

lemma set_drops_flags_and_exptime:
  assumes "waiting i w" "answers_ok rc" "wf_store (w_storage w)" "accounted (w_storage w)"
    and "lookup_store (w_storage w) key = None" "pair_size key v \<le> max_size (w_storage w)" "v \<noteq> []"
    and "sp \<notin> set key" "cr \<notin> set key" "fl < 2 ^ 32" "\<forall>c \<in> set ds. is_digit c" "ds \<noteq> []" "9 * length ds < 2 ^ 31"
    and "concat set_pieces = store_header ''set'' key fl (expr_time_text ng ds) (length v) @ v @ crlf"
    and "concat get_pieces = get_header [key]"
    and "\<forall>cs \<in> set (set_pieces @ get_pieces). length cs \<le> ConnectionInputBufferSize"
  shows "\<exists>w'. uv_session lru_ops rc i w [set_pieces, get_pieces] = Some (Inr w') \<and> waiting i w' \<and>
    lookup_store (w_storage w') key = Some v \<and>
    written i (w_uv w') = written i (w_uv w) @
      [''STORED'' @ crlf, ''VALUE '' @ key @ '' 0 '' @ show_nat (length v) @ crlf @ v @ crlf @ ''END'' @ crlf]"
proof -
  have len: "length v < 2 ^ 32" using assms(4,6) by (auto simp: accounted_def pair_size_def)
  let ?h = "store_header ''set'' key fl (expr_time_text ng ds) (length v)"
  let ?qs = "[\<lparr>q_header = ?h, q_body = v, q_cmd = new_Set key (of_nat fl) (signed_sum ng ds), q_pieces = set_pieces\<rparr>,
    \<lparr>q_header = get_header [key], q_body = [], q_cmd = new_Get [key], q_pieces = get_pieces\<rparr>]"
  obtain s' where s': "run_session lru_ops (w_storage w) (map (\<lambda>q. (q_cmd q, q_body q)) ?qs) =
      Inr (s', [''STORED'', value_item key v @ ''END''])" "lookup_store s' key = Some v"
    using run_session_set_get [OF assms(3-6), of "of_nat fl" "signed_sum ng ds"] by auto
  have "\<forall>q \<in> set ?qs. uv_request q"
    using is_request_set [OF assms(8,10) len assms(11-13)] is_request_get [of "[key]"] assms(7-9,14-16)
    by (auto simp: uv_request_def request_text_def)
  from uv_session_replies [OF s'(1) this assms(1,2)] s'(2) show ?thesis by (auto simp: value_item_def)
qed

text \<open>
  C24: From the wire to the storage and back.  A client of the libuv worker sends \<open>set\<close> with the flags 0, the expiration
  time 0 (the item never expires), a key that is not cached and data that is not empty and fits the cache, then \<open>get\<close> with
  the key, each request cut into pieces anywhere; the storage is well-formed and its size accounting exact.  The client
  receives \<open>STORED\<close> and then the item with the flags 0 and exactly the bytes it sent, with their length, and the connection is
  ready for the next request.
\<close>

theorem set_then_get_over_wire:
  assumes "waiting i w" "answers_ok rc" "wf_store (w_storage w)" "accounted (w_storage w)"
    and "lookup_store (w_storage w) key = None" "pair_size key v \<le> max_size (w_storage w)" "v \<noteq> []"
    and "sp \<notin> set key" "cr \<notin> set key"
    and "concat set_pieces = store_header ''set'' key 0 ''0'' (length v) @ v @ crlf"
    and "concat get_pieces = get_header [key]"
    and "\<forall>cs \<in> set (set_pieces @ get_pieces). length cs \<le> ConnectionInputBufferSize"
  shows "\<exists>w'. uv_session lru_ops rc i w [set_pieces, get_pieces] = Some (Inr w') \<and> waiting i w' \<and>
    lookup_store (w_storage w') key = Some v \<and>
    written i (w_uv w') = written i (w_uv w) @
      [''STORED'' @ crlf, ''VALUE '' @ key @ '' 0 '' @ show_nat (length v) @ crlf @ v @ crlf @ ''END'' @ crlf]"
  by (rule set_drops_flags_and_exptime [OF assms(1-9), where fl = 0 and ds = "''0''" and ng = False])
    (use assms(10-12) in \<open>simp_all add: is_digit_def expr_time_text_def\<close>)

theorem set_then_get_over_wire_witness:
  "\<exists>w'. uv_session lru_ops (\<lambda>_. 0) 0 one_client [[''set k 0 0 2'' @ crlf @ ''h'', ''i'' @ crlf], [''get k'' @ crlf]] = Some (Inr w') \<and>
    written 0 (w_uv w') = [''STORED'' @ crlf, ''VALUE k 0 2'' @ crlf @ ''hi'' @ crlf @ ''END'' @ crlf]"
proof -
  have h: "store_header ''set'' ''k'' 0 ''0'' (length ''hi'') = ''set k 0 0 2'' @ crlf" by code_simp
  have n: "show_nat (length ''hi'') = ''2''" by code_simp
  have "waiting 0 one_client" by (rule waiting_new [OF one_client_simps(1)]) simp_all
  then have "\<exists>w'. uv_session lru_ops (\<lambda>_. 0) 0 one_client [[''set k 0 0 2'' @ crlf @ ''h'', ''i'' @ crlf], [''get k'' @ crlf]] =
      Some (Inr w') \<and> waiting 0 w' \<and> lookup_store (w_storage w') ''k'' = Some ''hi'' \<and>
    written 0 (w_uv w') = written 0 (w_uv one_client) @ [''STORED'' @ crlf,
      ''VALUE '' @ ''k'' @ '' 0 '' @ show_nat (length ''hi'') @ crlf @ ''hi'' @ crlf @ ''END'' @ crlf]"
    by (rule set_then_get_over_wire)
      (simp_all only: h, simp_all add: answers_ok_def accounted_init, simp_all add: lookup_store_def MapBasedGlobalLockImpl_def pair_size_def
        is_digit_def get_header_def ConnectionInputBufferSize_def)
  then show ?thesis unfolding n by auto
qed

end
