(* ===== verification/Executor.thy ===== *)
theory Executor
  imports Prelude
begin

text \<open>
  The thread pool \<open>Afina::Executor\<close> (src/include/afina/Executor.h and
  src/src/network/blocking/Executor.cpp).  The fields are a record; a thread is a position in
  \<open>perform\<close>.  Everything a thread or a caller does while it holds the mutex is one function; the
  relation \<open>exec_step\<close> interleaves them.  A task is an opaque value.  \<open>wait_for\<close> on a condition
  variable may wake at any time (a notification or a spurious wake-up) or time out; in every case
  its result is the value of the predicate.
\<close>

section \<open>State\<close>

datatype pool_state = kRun | kStopping | kStopped

text \<open>
  Where a thread is in \<open>perform\<close>: before the lock at the top of the loop, inside \<open>wait_for\<close>,
  running a task outside the lock, or returned.
\<close>

datatype 'a position = At_top | Waiting | Running 'a | Returned

text \<open>
  Besides the fields of the class the record has the position of every thread ever started, the
  calls of \<open>Stop\<close> that have not returned (with their flag \<open>await\<close>), and the sequences of the tasks
  accepted by \<open>Execute\<close> and started by a thread.
\<close>

record 'a executor =
  low_watermark :: nat
  high_watermark :: nat
  max_queue_size :: nat
  num_working :: u64
  threads :: "nat list"
  tasks :: "'a list"
  ex_state :: pool_state
  positions :: "nat \<Rightarrow> 'a position"
  next_thread :: nat
  stop_calls :: "bool list"
  accepted :: "'a list"
  started :: "'a list"

section \<open>Operations\<close>

definition spawn :: "'a executor \<Rightarrow> 'a executor" where
  "spawn e = e\<lparr>threads := threads e @ [next_thread e],
     positions := (positions e)(next_thread e := At_top),
     next_thread := Suc (next_thread e)\<rparr>"

definition new_Executor :: "nat \<Rightarrow> nat \<Rightarrow> nat \<Rightarrow> 'a executor" where
  "new_Executor low high max_queue =
     (spawn ^^ low)
       \<lparr>low_watermark = low, high_watermark = high, max_queue_size = max_queue, num_working = 0,
        threads = [], tasks = [], ex_state = kRun, positions = (\<lambda>_. Returned), next_thread = 0,
        stop_calls = [], accepted = [], started = []\<rparr>"

definition Execute :: "'a executor \<Rightarrow> 'a \<Rightarrow> 'a executor \<times> bool" where
  "Execute e task =
     (if ex_state e \<noteq> kRun then (e, False)
      else if length (tasks e) = max_queue_size e then (e, False)
      else
        let e1 = (if num_working e = of_nat (length (threads e)) \<and> length (threads e) < high_watermark e
                  then spawn e else e)
        in (e1\<lparr>tasks := tasks e1 @ [task], accepted := accepted e1 @ [task]\<rparr>, True))"

text \<open>
  \<open>Stop\<close> up to the joins, and its last statement, after them.  The loop of \<open>Stop\<close> reads \<open>threads\<close> without the mutex while
  threads that leave the pool detach and erase themselves, and \<open>state\<close> is written without it too; these races are
  undefined in C++ and not followed here.  As long as no thread leaves the pool the loop visits every thread, and
  \<open>joined\<close> is when it ends; a loop that skipped a thread because another one was erased ends earlier, as a call of \<open>Stop\<close>
  that does not wait may, which is a step at any moment.
\<close>

definition Stop_signal :: "'a executor \<Rightarrow> bool \<Rightarrow> 'a executor" where
  "Stop_signal e await =
     e\<lparr>ex_state := (if ex_state e = kRun then kStopping else ex_state e),
       stop_calls := await # stop_calls e\<rparr>"

definition joined :: "'a executor \<Rightarrow> bool" where
  "joined e \<longleftrightarrow> (\<forall>t \<in> set (threads e). positions e t = Returned)"

definition Stop_finish :: "'a executor \<Rightarrow> bool \<Rightarrow> 'a executor" where
  "Stop_finish e await = e\<lparr>ex_state := kStopped, stop_calls := remove1 await (stop_calls e)\<rparr>"

text \<open>The predicate of \<open>wait_for\<close>.\<close>

definition wait_pred :: "'a executor \<Rightarrow> bool" where
  "wait_pred e \<longleftrightarrow> ex_state e = kStopping \<or> tasks e = []"

text \<open>
  The branch taken when \<open>wait_for\<close> answers true: a thread leaves the pool (it is detached and
  erased from the vector) or goes back to the top of the loop.
\<close>

definition wait_true :: "'a executor \<Rightarrow> nat \<Rightarrow> 'a executor" where
  "wait_true e t =
     (if low_watermark e < length (threads e) \<and> tasks e = [] \<or> ex_state e \<noteq> kRun \<and> tasks e = []
      then e\<lparr>threads := remove1 t (threads e), positions := (positions e)(t := Returned)\<rparr>
      else e\<lparr>positions := (positions e)(t := At_top)\<rparr>)"

text \<open>The rest of the body when it answers false.\<close>

definition wait_false :: "'a executor \<Rightarrow> nat \<Rightarrow> ub + 'a executor" where
  "wait_false e t =
     (if ex_state e = kStopped then Inr (e\<lparr>positions := (positions e)(t := Returned)\<rparr>)
      else case tasks e of
        [] \<Rightarrow> Inl Front_of_empty_list
      | task # rest \<Rightarrow>
          Inr (e\<lparr>num_working := num_working e + 1, tasks := rest,
                 positions := (positions e)(t := Running task), started := started e @ [task]\<rparr>))"

text \<open>
  The loop body up to the wait: \<open>wait_for\<close> tests its predicate before it blocks.
\<close>

definition perform_top :: "'a executor \<Rightarrow> nat \<Rightarrow> 'a executor" where
  "perform_top e t =
     (let e1 = e\<lparr>num_working := num_working e - 1\<rparr>
      in if wait_pred e1 then wait_true e1 t else e1\<lparr>positions := (positions e1)(t := Waiting)\<rparr>)"

definition perform_wake :: "'a executor \<Rightarrow> nat \<Rightarrow> 'a executor" where
  "perform_wake e t = (if wait_pred e then wait_true e t else e)"

definition perform_timeout :: "'a executor \<Rightarrow> nat \<Rightarrow> ub + 'a executor" where
  "perform_timeout e t = (if wait_pred e then Inr (wait_true e t) else wait_false e t)"

definition perform_done :: "'a executor \<Rightarrow> nat \<Rightarrow> 'a executor" where
  "perform_done e t = e\<lparr>positions := (positions e)(t := At_top)\<rparr>"

inductive exec_step :: "'a executor \<Rightarrow> 'a executor \<Rightarrow> bool" where
  execute: "Execute e task = (e', ok) \<Longrightarrow> exec_step e e'"
| stop_signal: "exec_step e (Stop_signal e await)"
| stop_finish: "await \<in> set (stop_calls e) \<Longrightarrow> (await \<Longrightarrow> joined e) \<Longrightarrow> exec_step e (Stop_finish e await)"
| top: "positions e t = At_top \<Longrightarrow> exec_step e (perform_top e t)"
| wake: "positions e t = Waiting \<Longrightarrow> exec_step e (perform_wake e t)"
| timeout: "positions e t = Waiting \<Longrightarrow> perform_timeout e t = Inr e' \<Longrightarrow> exec_step e e'"
| task_end: "positions e t = Running task \<Longrightarrow> exec_step e (perform_done e t)"

inductive exec_reach :: "'a executor \<Rightarrow> 'a executor \<Rightarrow> bool" for e0 where
  start: "exec_reach e0 e0"
| step: "exec_reach e0 e \<Longrightarrow> exec_step e e' \<Longrightarrow> exec_reach e0 e'"

section \<open>Invariants\<close>

definition pool_inv :: "'a executor \<Rightarrow> bool" where
  "pool_inv e \<longleftrightarrow>
     length (tasks e) \<le> max_queue_size e \<and>
     length (threads e) \<le> max (low_watermark e) (high_watermark e) \<and>
     accepted e = started e @ tasks e \<and>
     distinct (threads e) \<and> (\<forall>t. next_thread e \<le> t \<longrightarrow> positions e t = Returned) \<and>
     (\<forall>t \<in> set (threads e). t < next_thread e)"

definition limits :: "'a executor \<Rightarrow> nat \<times> nat \<times> nat" where
  "limits e = (low_watermark e, high_watermark e, max_queue_size e)"

lemma spawn_fields [simp]:
  "tasks (spawn e) = tasks e" "max_queue_size (spawn e) = max_queue_size e"
  "low_watermark (spawn e) = low_watermark e" "high_watermark (spawn e) = high_watermark e"
  "accepted (spawn e) = accepted e" "started (spawn e) = started e" "ex_state (spawn e) = ex_state e"
  "num_working (spawn e) = num_working e" "stop_calls (spawn e) = stop_calls e"
  "threads (spawn e) = threads e @ [next_thread e]"
  "positions (spawn e) = (positions e)(next_thread e := At_top)" "next_thread (spawn e) = Suc (next_thread e)"
  by (simp_all add: spawn_def)

lemma spawn_n_fields [simp]:
  "tasks ((spawn ^^ n) e) = tasks e" "max_queue_size ((spawn ^^ n) e) = max_queue_size e"
  "low_watermark ((spawn ^^ n) e) = low_watermark e" "high_watermark ((spawn ^^ n) e) = high_watermark e"
  "accepted ((spawn ^^ n) e) = accepted e" "started ((spawn ^^ n) e) = started e"
  "ex_state ((spawn ^^ n) e) = ex_state e" "num_working ((spawn ^^ n) e) = num_working e"
  "next_thread ((spawn ^^ n) e) = next_thread e + n"
  "threads ((spawn ^^ n) e) = threads e @ [next_thread e ..< next_thread e + n]"
  by (induction n) auto

lemma spawn_n_positions:
  "positions ((spawn ^^ n) e) t = (if next_thread e \<le> t \<and> t < next_thread e + n then At_top else positions e t)"
  by (induction n) auto

lemma new_Executor_fields [simp]:
  "tasks (new_Executor l h m) = []" "max_queue_size (new_Executor l h m) = m"
  "low_watermark (new_Executor l h m) = l" "high_watermark (new_Executor l h m) = h"
  "accepted (new_Executor l h m) = []" "started (new_Executor l h m) = []"
  "ex_state (new_Executor l h m) = kRun" "num_working (new_Executor l h m) = 0"
  "threads (new_Executor l h m) = [0..<l]" "next_thread (new_Executor l h m) = l"
  "positions (new_Executor l h m) t = (if t < l then At_top else Returned)"
  by (simp_all add: new_Executor_def spawn_n_positions)

lemma pool_inv_new: "pool_inv (new_Executor l h m)"
  by (simp add: pool_inv_def)

lemma Execute_inv: "pool_inv e \<Longrightarrow> Execute e task = (e', ok) \<Longrightarrow> pool_inv e' \<and> limits e' = limits e"
  by (auto simp: Execute_def Let_def pool_inv_def limits_def less_Suc_eq split: if_splits)

lemma wait_true_inv:
  assumes "pool_inv e" "t < next_thread e"
  shows "pool_inv (wait_true e t) \<and> limits (wait_true e t) = limits e"
  using assms length_remove1 [of t "threads e"] set_remove1_subset [of t "threads e"]
  by (auto simp: wait_true_def pool_inv_def limits_def)

lemma wait_false_inv:
  "pool_inv e \<Longrightarrow> t < next_thread e \<Longrightarrow> wait_false e t = Inr e' \<Longrightarrow> pool_inv e' \<and> limits e' = limits e"
  by (auto simp: wait_false_def pool_inv_def limits_def split: if_splits list.splits)

lemma live_thread: "pool_inv e \<Longrightarrow> positions e t \<noteq> Returned \<Longrightarrow> t < next_thread e"
  by (auto simp: pool_inv_def not_le [symmetric])

lemma pool_inv_num_working [simp]: "pool_inv (e\<lparr>num_working := n\<rparr>) = pool_inv e"
  by (simp add: pool_inv_def)

lemma pool_inv_position:
  "pool_inv e \<Longrightarrow> t < next_thread e \<Longrightarrow> pool_inv (e\<lparr>positions := (positions e)(t := q)\<rparr>)"
  by (auto simp: pool_inv_def)

lemma exec_step_inv:
  assumes "exec_step e e'" "pool_inv e"
  shows "pool_inv e' \<and> limits e' = limits e"
  using assms
proof (induction rule: exec_step.induct)
  case (execute e task e' ok)
  then show ?case by (blast dest: Execute_inv)
next
  case (stop_signal e await)
  then show ?case by (simp add: Stop_signal_def pool_inv_def limits_def)
next
  case (stop_finish await e)
  then show ?case by (simp add: Stop_finish_def pool_inv_def limits_def)
next
  case (top e t)
  then have "t < next_thread e" by (intro live_thread) auto
  with top wait_true_inv [of "e\<lparr>num_working := num_working e - 1\<rparr>" t]
    pool_inv_position [of "e\<lparr>num_working := num_working e - 1\<rparr>" t Waiting]
  show ?case by (auto simp: perform_top_def Let_def limits_def)
next
  case (wake e t)
  then have "t < next_thread e" by (intro live_thread) auto
  with wake wait_true_inv [of e t] show ?case by (auto simp: perform_wake_def)
next
  case (timeout e t e')
  then have "t < next_thread e" by (intro live_thread) auto
  with timeout wait_true_inv [of e t] wait_false_inv [of e t e'] show ?case
    by (auto simp: perform_timeout_def split: if_splits)
next
  case (task_end e t task)
  then have "t < next_thread e" by (intro live_thread) auto
  with task_end pool_inv_position [of e t At_top] show ?case by (simp add: perform_done_def limits_def)
qed

lemma exec_reach_inv: "exec_reach e0 e \<Longrightarrow> pool_inv e0 \<Longrightarrow> pool_inv e \<and> limits e = limits e0"
proof (induction rule: exec_reach.induct)
  case (step e e')
  then show ?case using exec_step_inv [of e e'] by auto
qed simp

lemma perform_timeout_defined: "is_ok (perform_timeout e t)"
  by (cases "tasks e") (auto simp: perform_timeout_def wait_pred_def wait_false_def)

section \<open>Stopping with tasks in the queue\<close>

definition stuck_stopping :: "'a list \<Rightarrow> nat \<Rightarrow> 'a executor \<Rightarrow> bool" where
  "stuck_stopping ts t e \<longleftrightarrow> ex_state e = kStopping \<and> tasks e = ts \<and> ts \<noteq> [] \<and>
     t \<in> set (threads e) \<and> positions e t \<noteq> Returned \<and> False \<notin> set (stop_calls e)"

lemma wait_true_stuck:
  "stuck_stopping ts t e \<Longrightarrow> stuck_stopping ts t (wait_true e u) \<and> started (wait_true e u) = started e"
  by (auto simp: stuck_stopping_def wait_true_def)

lemma stuck_stopping_step:
  assumes "exec_step e e'" "stuck_stopping ts t e" "False \<notin> set (stop_calls e')"
  shows "stuck_stopping ts t e' \<and> started e' = started e"
  using assms
proof (induction rule: exec_step.induct)
  case (execute e task e' ok)
  then show ?case by (auto simp: Execute_def stuck_stopping_def)
next
  case (stop_signal e await)
  then show ?case by (simp add: Stop_signal_def stuck_stopping_def)
next
  case (stop_finish await e)
  then have await by (metis stuck_stopping_def)
  with stop_finish have "joined e" by blast
  with stop_finish.prems show ?case by (auto simp: joined_def stuck_stopping_def)
next
  case (top e u)
  then have "stuck_stopping ts t (e\<lparr>num_working := num_working e - 1\<rparr>)" by (simp add: stuck_stopping_def)
  with wait_true_stuck [OF this, of u] top show ?case
    by (auto simp: perform_top_def Let_def wait_pred_def stuck_stopping_def)
next
  case (wake e u)
  with wait_true_stuck [of ts t e u] show ?case by (auto simp: perform_wake_def)
next
  case (timeout e u e')
  with wait_true_stuck [of ts t e u] show ?case
    by (auto simp: perform_timeout_def wait_pred_def stuck_stopping_def)
next
  case (task_end e u task)
  then show ?case by (auto simp: perform_done_def stuck_stopping_def)
qed

text \<open>Runs in which every call of \<open>Stop\<close> awaits the threads.\<close>

inductive await_reach :: "'a executor \<Rightarrow> 'a executor \<Rightarrow> bool" for e0 where
  await_start: "await_reach e0 e0"
| await_step: "await_reach e0 e \<Longrightarrow> exec_step e e' \<Longrightarrow> False \<notin> set (stop_calls e') \<Longrightarrow> await_reach e0 e'"

section \<open>Properties of the thread pool\<close>

text \<open>
  C25: In every interleaving of callers and threads, the queue never exceeds \<open>max_queue_size\<close>, there
  are never more threads than the larger of the two watermarks, and the tasks are started in the
  order in which they were accepted, each at most once: the started tasks followed by the queue
  are exactly the accepted ones.
\<close>

theorem pool_bounded_fifo:
  assumes "exec_reach (new_Executor low high max_queue) e"
  shows "length (tasks e) \<le> max_queue \<and> length (threads e) \<le> max low high \<and> accepted e = started e @ tasks e"
  using exec_reach_inv [OF assms pool_inv_new] by (auto simp: pool_inv_def limits_def)

theorem pool_bounded_fifo_witness:
  "\<exists>e. exec_reach (new_Executor 1 2 1) e \<and> tasks e = [''job''] \<and> accepted e = started e @ tasks e"
proof -
  let ?e = "fst (Execute (new_Executor 1 2 1) ''job'')"
  have "exec_reach (new_Executor 1 2 1) ?e"
    by (rule exec_reach.step [OF exec_reach.start exec_step.execute [of _ "''job''" _ True]])
      (simp add: Execute_def Let_def)
  moreover from this have "accepted ?e = started ?e @ tasks ?e" using pool_bounded_fifo by blast
  moreover have "tasks ?e = [''job'']" by (simp add: Execute_def Let_def)
  ultimately show ?thesis by blast
qed

text \<open>
  C26: The predicate of the wait is the wrong way round.  Once \<open>Stop(true)\<close> was called while a task is
  queued and a thread of the pool is alive, no step of any thread ever starts a task again, no
  thread leaves, and \<open>Stop\<close> can never return, although the header promises that all enqueued jobs
  will be complete.
\<close>

theorem stop_never_drains:
  assumes "ex_state e = kRun" "tasks e \<noteq> []" "t \<in> set (threads e)" "positions e t \<noteq> Returned" "stop_calls e = []"
    and "await_reach (Stop_signal e True) e'"
  shows "ex_state e' = kStopping \<and> tasks e' = tasks e \<and> started e' = started e \<and> \<not> joined e' \<and>
    t \<in> set (threads e') \<and> positions e' t \<noteq> Returned"
proof -
  have "stuck_stopping (tasks e) t e' \<and> started e' = started (Stop_signal e True)"
    using assms(6)
  proof (induction rule: await_reach.induct)
    case await_start
    from assms(1-5) show ?case by (simp add: stuck_stopping_def Stop_signal_def)
  next
    case (await_step e1 e2)
    with stuck_stopping_step [of e1 e2 "tasks e" t] show ?case by auto
  qed
  then show ?thesis by (auto simp: stuck_stopping_def joined_def Stop_signal_def)
qed

theorem stop_never_drains_witness:
  "\<exists>e. tasks e = [''job''] \<and> ex_state (Stop_signal e True) = kStopping \<and>
     started (Stop_signal e True) = [] \<and> \<not> joined (Stop_signal e True)"
proof -
  let ?e = "fst (Execute (new_Executor 1 2 1) ''job'')"
  have "ex_state ?e = kRun" "tasks ?e = [''job'']" "0 \<in> set (threads ?e)" "positions ?e 0 \<noteq> Returned"
    "stop_calls ?e = []" "started ?e = []"
    by (simp_all add: Execute_def Let_def) (simp add: new_Executor_def)
  with stop_never_drains [OF this(1) _ this(3-5) await_start] show ?thesis by auto
qed

text \<open>
  An idle thread of a running pool does not sleep: with an empty queue the wait returns at once,
  and each pass of the loop decrements \<open>num_working\<close>, which wraps below zero.  After \<open>n\<close> passes the
  thread is at the top of the loop again and the counter is \<open>- n\<close> modulo \<open>2 ^ 64\<close>.
\<close>

theorem idle_thread_spins:
  assumes "ex_state e = kRun" "tasks e = []" "length (threads e) \<le> low_watermark e" "positions e t = At_top"
  shows "((\<lambda>e. perform_top e t) ^^ n) e = e\<lparr>num_working := num_working e - of_nat n\<rparr>"
proof (induction n)
  case (Suc n)
  have "(positions e)(t := At_top) = positions e" using assms(4) by (simp add: fun_upd_idem)
  then show ?case
    using assms Suc by (simp add: perform_top_def wait_pred_def wait_true_def Let_def algebra_simps)
qed simp

theorem idle_thread_spins_witness:
  "num_working (((\<lambda>e. perform_top e 0) ^^ 3) (new_Executor 1 2 8 :: nat executor)) = 2 ^ 64 - 3"
  by (subst idle_thread_spins) simp_all

end
