(* ===== verification/Blocking_Server.thy ===== *)
theory Blocking_Server
  imports Socket_Io Executor
begin

text \<open>
  The blocking server (src/src/network/blocking/ServerImpl.{h,cpp}): \<open>Start\<close>, \<open>Stop\<close> and \<open>Join\<close>, the acceptor thread
  with its thread pool, and the function that serves a connection.  A connection runs as a task of the pool, so a
  thread identifier of the pool stands for \<open>pthread_self()\<close>.  \<open>RunConnectionProxy\<close> and its \<open>Args\<close> are only used by
  code that is commented out.
\<close>

section \<open>A connection\<close>

partial_function (option) RunConnection_loop :: "'s storage_ops \<Rightarrow> client_env \<Rightarrow> 's conn \<Rightarrow> 's io_outcome option" where
  "RunConnection_loop ops env k =
     (let (r, k1) = load_running env k
      in if \<not> r then Some (Leave k1)
         else let (received, k2) = sys_read env k1
           in if received \<noteq> 0 \<or> k_command k2 \<noteq> [] then
                if received < 0 then Some (Leave k2)
                else (case handle_input ops env True received k2 of
                        None \<Rightarrow> None
                      | Some (Next k3) \<Rightarrow> RunConnection_loop ops env k3
                      | Some r \<Rightarrow> Some r)
              else Some (Leave k2))"

text \<open>
  \<open>RunConnection\<close> on the thread \<open>self\<close>: the set of connections it leaves, and how it ends.  An exception leaves
  without the code that follows the loop.
\<close>

datatype 's conn_end = Conn_returned "'s conn" | Conn_raised string "'s conn" | Conn_undefined ub

definition RunConnection ::
  "'s storage_ops \<Rightarrow> client_env \<Rightarrow> nat \<Rightarrow> nat set \<Rightarrow> 's conn \<Rightarrow> ('s conn_end \<times> nat set) option" where
  "RunConnection ops env self connections k =
     (let connections = insert self connections
      in case RunConnection_loop ops env k of
           None \<Rightarrow> None
         | Some (Broken u) \<Rightarrow> Some (Conn_undefined u, connections)
         | Some (Raise msg k') \<Rightarrow> Some (Conn_raised msg k', connections)
         | Some (Leave k') \<Rightarrow> Some (Conn_returned (sys_close k'), connections - {self})
         | Some (Next k') \<Rightarrow> Some (Conn_returned (sys_close k'), connections - {self}))"

interpretation blocking_loop: client_loop ops True "RunConnection_loop ops" for ops
proof
  fix env :: client_env and k :: "'a conn" and cs
  assume *: "e_running env (k_tests k)" "e_read env (k_reads k) = Got cs" "cs \<noteq> []"
  show "RunConnection_loop ops env k =
      (let k1 = snd (sys_read env (k\<lparr>k_tests := Suc (k_tests k)\<rparr>))
       in case handle_input ops env True (int (length cs)) k1 of
            None \<Rightarrow> None
          | Some (Next k') \<Rightarrow> RunConnection_loop ops env k'
          | Some r \<Rightarrow> Some r)"
    by (subst RunConnection_loop.simps)
       (use * in \<open>simp add: load_running_def sys_read_def Let_def split: option.splits io_outcome.splits\<close>)
qed

section \<open>The server\<close>

text \<open>The calls the server makes on sockets other than those of \<open>RunConnection\<close>.\<close>

datatype server_call =
    Call_socket | Call_setsockopt | Call_bind u16 | Call_listen nat | Call_shutdown | Call_close_server | Call_close int

datatype acceptor_pos = Not_started | Starting | Accepting | Draining | Finished | Thrown string

record blocking_server =
  running :: bool
  max_workers :: u16
  listen_port :: u32
  server_socket :: int
  connections :: "nat set"
  pool :: "int executor"
  acceptor :: acceptor_pos
  server_calls :: "server_call list"

definition scall :: "server_call \<Rightarrow> blocking_server \<Rightarrow> blocking_server" where
  "scall c srv = srv\<lparr>server_calls := server_calls srv @ [c]\<rparr>"

text \<open>A new server; until the acceptor creates its pool there are no threads.\<close>

definition new_ServerImpl :: blocking_server where
  "new_ServerImpl = \<lparr>running = False, max_workers = 0, listen_port = 0, server_socket = 0, connections = {},
     pool = new_Executor 0 0 0, acceptor = Not_started, server_calls = []\<rparr>"

text \<open>\<open>sigmask\<close> and \<open>created\<close> are the results of \<open>pthread_sigmask\<close> and \<open>pthread_create\<close>.\<close>

definition Start :: "int \<Rightarrow> int \<Rightarrow> u32 \<Rightarrow> u16 \<Rightarrow> blocking_server \<Rightarrow> string + blocking_server" where
  "Start sigmask created port n_workers srv =
     (if sigmask \<noteq> 0 then Inl ''Unable to mask SIGPIPE''
      else let srv1 = srv\<lparr>max_workers := n_workers, listen_port := port, running := True\<rparr>
        in if created < 0 then Inl ''Could not create server thread'' else Inr (srv1\<lparr>acceptor := Starting\<rparr>))"

definition Stop :: "blocking_server \<Rightarrow> blocking_server" where
  "Stop srv = scall Call_shutdown (srv\<lparr>running := False\<rparr>)"

text \<open>
  \<open>Join\<close> returns when the acceptor thread has ended, with or without an exception (\<open>RunAcceptorProxy\<close> catches it);
  either way the destructor of the pool has joined its threads.
\<close>

definition Join_returns :: "blocking_server \<Rightarrow> bool" where
  "Join_returns srv \<longleftrightarrow> (acceptor srv = Finished \<or> (\<exists>msg. acceptor srv = Thrown msg)) \<and> joined (pool srv)"

text \<open>
  The part of \<open>RunAcceptor\<close> before its loop: \<open>fd\<close>, \<open>so\<close>, \<open>bd\<close> and \<open>li\<close> are the results of \<open>socket\<close>, \<open>setsockopt\<close>,
  \<open>bind\<close> and \<open>listen\<close>; of the port \<open>htons\<close> takes the low 16 bits.
\<close>

definition RunAcceptor_open :: "int \<Rightarrow> int \<Rightarrow> int \<Rightarrow> int \<Rightarrow> blocking_server \<Rightarrow> blocking_server" where
  "RunAcceptor_open fd so bd li srv =
     (let fail = (\<lambda>msg s. (scall Call_close_server s)\<lparr>acceptor := Thrown msg\<rparr>);
          s1 = scall Call_socket (srv\<lparr>server_socket := fd\<rparr>)
      in if fd = - 1 then s1\<lparr>acceptor := Thrown ''Failed to open socket''\<rparr>
         else let s2 = scall Call_setsockopt s1
         in if so = - 1 then fail ''Socket setsockopt() failed'' s2
         else let s3 = scall (Call_bind (ucast (listen_port srv))) s2
         in if bd = - 1 then fail ''Socket bind() failed'' s3
         else let s4 = scall (Call_listen 5) s3
         in if li = - 1 then fail ''Socket listen() failed'' s4
         else s4\<lparr>pool := new_Executor 10 20 60, acceptor := Accepting\<rparr>)"

text \<open>An exception, like the end of the function, destroys the pool, whose destructor calls \<open>Stop(true)\<close>.\<close>

definition acceptor_throws :: "string \<Rightarrow> blocking_server \<Rightarrow> blocking_server" where
  "acceptor_throws msg srv = srv\<lparr>acceptor := Thrown msg, pool := Stop_signal (pool srv) True\<rparr>"

text \<open>One pass of the accept loop; \<open>client_socket\<close> is what \<open>accept\<close> returned.\<close>

definition accept_pass :: "int \<Rightarrow> blocking_server \<Rightarrow> blocking_server" where
  "accept_pass client_socket srv =
     (if client_socket = - 1 then acceptor_throws ''Socket accept() failed'' (scall (Call_close client_socket) srv)
      else if card (connections srv) < unat (max_workers srv) then
        (case Execute (pool srv) client_socket of
           (e, True) \<Rightarrow> srv\<lparr>pool := e\<rparr>
         | (e, False) \<Rightarrow>
             acceptor_throws ''Could not create server thread'' (scall (Call_close client_socket) (srv\<lparr>pool := e\<rparr>)))
      else scall (Call_close client_socket) srv)"

text \<open>
  The threads interleave: the acceptor between two passes of its loop, a connection when it enters itself into the set
  of connections and when it leaves it, the pool, and whoever calls \<open>Stop\<close>.
\<close>

inductive server_step :: "blocking_server \<Rightarrow> blocking_server \<Rightarrow> bool" where
  open_socket: "acceptor srv = Starting \<Longrightarrow> server_step srv (RunAcceptor_open fd so bd li srv)"
| accept: "acceptor srv = Accepting \<Longrightarrow> running srv \<Longrightarrow> server_step srv (accept_pass client srv)"
| accept_leave: "acceptor srv = Accepting \<Longrightarrow> \<not> running srv \<Longrightarrow>
    server_step srv (scall Call_close_server (srv\<lparr>acceptor := Draining\<rparr>))"
| drained: "acceptor srv = Draining \<Longrightarrow> connections srv = {} \<Longrightarrow> 
    server_step srv (srv\<lparr>acceptor := Finished, pool := Stop_signal (pool srv) True\<rparr>)"
| conn_enter: "positions (pool srv) t = Running c \<Longrightarrow> server_step srv (srv\<lparr>connections := insert t (connections srv)\<rparr>)"
| conn_leave: "positions (pool srv) t = Running c \<Longrightarrow> t \<in> connections srv \<Longrightarrow>
    server_step srv (srv\<lparr>connections := connections srv - {t}, pool := perform_done (pool srv) t\<rparr>)"
| pool_step: "exec_step (pool srv) e \<Longrightarrow> accepted e = accepted (pool srv) \<Longrightarrow>
    (\<forall>t c. positions (pool srv) t = Running c \<longrightarrow> positions e t = Running c) \<Longrightarrow> server_step srv (srv\<lparr>pool := e\<rparr>)"
| stop: "server_step srv (Stop srv)"

inductive server_reach :: "blocking_server \<Rightarrow> blocking_server \<Rightarrow> bool" for s0 where
  reach_start: "server_reach s0 s0"
| reach_step: "server_reach s0 srv \<Longrightarrow> server_step srv srv' \<Longrightarrow> server_reach s0 srv'"

section \<open>Sessions\<close>

lemma loop_eof:
  assumes "e_running env (k_tests k)" "e_read env (k_reads k) = Eof" "k_command k = []"
  shows "RunConnection_loop ops env k = Some (Leave (k\<lparr>k_tests := Suc (k_tests k), k_reads := Suc (k_reads k)\<rparr>))"
  using assms by (subst RunConnection_loop.simps) (simp add: load_running_def sys_read_def)

text \<open>The loop serves a session and leaves at the end of the stream.\<close>

lemma RunConnection_loop_session:
  assumes "\<forall>q \<in> set qs. request_ok q"
    and "run_session ops s (map (\<lambda>q. (q_cmd q, q_body q)) qs) = Inr (s', outs)"
    and "delivers env 0 0 (concat (map q_pieces qs))" "sends_some env 0 (length qs)"
    and "n = length (concat (map q_pieces qs))" "e_running env n" "e_read env n = Eof"
  shows "\<exists>k. RunConnection_loop ops env (new_conn s neg) = Some (Leave k) \<and> k_storage k = s' \<and>
    k_log k = taken_replies env 0 outs"
proof -
  from blocking_loop.loop_session [of ops "new_conn s neg" qs s' outs neg env] assms idle_new_conn [of s neg]
  obtain k where k: "RunConnection_loop ops env (new_conn s neg) = RunConnection_loop ops env k" "idle_conn k"
    "k_storage k = s'" "k_log k = taken_replies env 0 outs" "k_tests k = n" "k_reads k = n" by auto
  then have "RunConnection_loop ops env (new_conn s neg) = Some (Leave (k\<lparr>k_tests := Suc n, k_reads := Suc n\<rparr>))"
    using assms(6,7) by (simp add: loop_eof idle_conn_def)
  then show ?thesis using k by simp
qed

text \<open>
  A client that sends requests, each in clean pieces with the data block in the last one, and then closes its
  side, gets of the replies of its commands in order what \<open>send\<close> took of each (all of it, when no \<open>send\<close> is short);
  the function returns, the socket is closed, the connection
  is removed and the storage is what the commands made of it.
\<close>

theorem blocking_session:
  assumes "\<forall>q \<in> set qs. request_ok q"
    and "run_session ops s (map (\<lambda>q. (q_cmd q, q_body q)) qs) = Inr (s', outs)"
    and "delivers env 0 0 (concat (map q_pieces qs))" "sends_some env 0 (length qs)"
    and "n = length (concat (map q_pieces qs))" "e_running env n" "e_read env n = Eof"
  shows "\<exists>k. RunConnection ops env self conns (new_conn s neg) = Some (Conn_returned k, conns - {self}) \<and>
    k_storage k = s' \<and> k_log k = taken_replies env 0 outs @ [Sys_close] \<and>
    (sends_all env \<longrightarrow> k_log k = map (\<lambda>out. Sys_send (out @ crlf)) outs @ [Sys_close])"
proof -
  obtain k where "RunConnection_loop ops env (new_conn s neg) = Some (Leave k)" "k_storage k = s'"
    "k_log k = taken_replies env 0 outs"
    using RunConnection_loop_session [OF assms, of neg] by blast
  then show ?thesis by (simp add: RunConnection_def sys_close_def insert_Diff_if taken_replies_all)
qed

text \<open>A client that stores two bytes and reads them back.\<close>

theorem blocking_session_witness:
  "\<exists>k. RunConnection lru_ops (script_env [Got ''set k'', Got ('' 0 0 2'' @ crlf @ ''hi'' @ crlf), Got (''get k'' @ crlf)])
      7 {} (new_conn (MapBasedGlobalLockImpl 8) False) = Some (Conn_returned k, {}) \<and>
    k_log k = [Sys_send (''STORED'' @ crlf), Sys_send (''VALUE k 0 2'' @ crlf @ ''hi'' @ crlf @ ''END'' @ crlf), Sys_close]"
proof -
  let ?env = "script_env [Got ''set k'', Got ('' 0 0 2'' @ crlf @ ''hi'' @ crlf), Got (''get k'' @ crlf)]"
  obtain s' where s': "run_session lru_ops (MapBasedGlobalLockImpl 8) (map (\<lambda>q. (q_cmd q, q_body q)) [set_k, get_k]) =
      Inr (s', [''STORED'', ''VALUE k 0 2'' @ crlf @ ''hi'' @ crlf @ ''END''])"
    using map_sum_snd_Inr [OF run_session_k] by blast
  have "\<exists>k. RunConnection lru_ops ?env 7 {} (new_conn (MapBasedGlobalLockImpl 8) False) = Some (Conn_returned k, {} - {7}) \<and>
    k_storage k = s' \<and>
    k_log k = taken_replies ?env 0 [''STORED'', ''VALUE k 0 2'' @ crlf @ ''hi'' @ crlf @ ''END''] @ [Sys_close] \<and>
    (sends_all ?env \<longrightarrow>
      k_log k = map (\<lambda>out. Sys_send (out @ crlf)) [''STORED'', ''VALUE k 0 2'' @ crlf @ ''hi'' @ crlf @ ''END''] @ [Sys_close])"
    by (rule blocking_session [OF _ s', where n = 3])
       (use request_ok_set_k request_ok_get_k in
         \<open>simp_all only: pieces_k, simp_all add: delivers_Cons sends_all_some [OF sends_all_script], simp_all add: script_env_def\<close>)
  then show ?thesis using sends_all_script by auto
qed

text \<open>
  a client that closes its side in the middle of a data block has its command executed all the same: the missing
  bytes are taken from the start of the buffer, so the text of its header is stored as data.
\<close>

theorem blocking_eof_in_body:
  assumes "is_request (new_Parser neg) h b cmd" "b = b1 @ b2" "b2 \<noteq> []" "clean (h @ b1)"
    and "length b + 2 \<le> length b1 + length (h @ b1)"
    and "\<And>n. e_running env n" "e_read env 0 = Got (h @ b1)" "e_read env 1 = Eof" "e_read env 2 = Eof" "e_send env 0 (length (out @ crlf)) > 0"
    and "Command_Execute ops cmd s (take (length b) (b1 @ h @ b1)) = Inr (s', out)"
  shows "\<exists>k. RunConnection ops env self conns (new_conn s neg) = Some (Conn_returned k, conns - {self}) \<and>
    k_storage k = s' \<and> k_log k = [Sys_send (taken env 0 (out @ crlf)), Sys_close]"
proof -
  from assms(1) obtain q where q: "parse_loop (new_Parser neg) 0 h = Inr (q, length h)" "p_complete q"
    "\<And>bs. Build q bs = Inr (Some cmd, of_nat (length b))" by (auto simp: is_request_def)
  have b: "length b + 2 < 2 ^ 32" using assms(4,5) by (auto simp: clean_def buf_size_def)
  let ?k = "(new_conn s neg)\<lparr>k_tests := 1\<rparr>"
  let ?k2 = "has_read (h @ b1) ?k\<lparr>k_parser := q, k_command := b1\<rparr>\<lparr>k_parser := Reset q\<rparr>"
  have ne: "b \<noteq> []" using assms(2,3) by simp
  have idle: "idle_conn ?k" by (simp add: idle_conn_def new_conn_def)
  have "parse_loop (k_parser ?k) 0 (h @ b1) = Inr (q, length h)"
    using q(1,2) by (simp add: parse_loop_append parse_loop_complete)
  then have "handle_input ops env True (int (length (h @ b1))) (has_read (h @ b1) ?k)
      = run_command ops env True (has_read (h @ b1) ?k\<lparr>k_parser := q, k_command := b1\<rparr>)"
    using handle_header [OF idle assms(4) _ q(2)] by simp
  also have "read_body env (of_nat (length b)) ?k2 = Some (Inr (?k2\<lparr>k_reads := 2, k_command := b1 @ h @ b1\<rparr>))"
    using assms(2-5,8) unat_body_size [OF b] by (subst read_body_stale [where cs = "h @ b1"]) (auto simp: has_read_def)
  then have "run_command ops env True (has_read (h @ b1) ?k\<lparr>k_parser := q, k_command := b1\<rparr>)
      = Some (Next (served env s' out (p_negative q) (?k\<lparr>k_reads := 2\<rparr>)))"
    using q(3) assms(10,11) ne unat_body_size [OF b]
    by (simp add: run_command_def word_less_nat_alt execute_command_def send_reply_def sys_send_def served_def has_read_def Reset_new)
  finally have "RunConnection_loop ops env (new_conn s neg) =
      RunConnection_loop ops env (served env s' out (p_negative q) (?k\<lparr>k_reads := 2\<rparr>))"
    using assms(4,6,7) idle_new_conn by (intro blocking_loop.loop_clean [where cs = "h @ b1"]) simp_all
  then show ?thesis
    using assms(6,9) by (simp add: RunConnection_def loop_eof served_def sys_close_def insert_Diff_if)
qed

theorem blocking_eof_in_body_witness:
  "\<exists>k. RunConnection lru_ops (script_env [Got (''set k 0 0 2'' @ crlf @ ''h'')]) 7 {} (new_conn (MapBasedGlobalLockImpl 8) False)
      = Some (Conn_returned k, {}) \<and> k_log k = [Sys_send (''STORED'' @ crlf), Sys_close] \<and>
    map_sum id fst (res_bind (Get (k_storage k) ''k'' []) (\<lambda>r. Inr (snd r))) = Inr ''hs''"
proof -
  have req: "is_request (new_Parser False) (q_header set_k) ''hi'' (q_cmd set_k)"
    using request_ok_set_k by (auto simp: request_ok_def) (auto simp: set_k_def)
  obtain s' where s': "Command_Execute lru_ops (q_cmd set_k) (MapBasedGlobalLockImpl 8)
      (take (length ''hi'') (''h'' @ q_header set_k @ ''h'')) = Inr (s', ''STORED'')"
    and g: "map_sum id fst (res_bind (Get s' ''k'' []) (\<lambda>r. Inr (snd r))) = Inr ''hs''"
  proof -
    have "(case Command_Execute lru_ops (q_cmd set_k) (MapBasedGlobalLockImpl 8) (take (length ''hi'') (''h'' @ q_header set_k @ ''h''))
        of Inr (s', out) \<Rightarrow> out = ''STORED'' \<and> map_sum id fst (res_bind (Get s' ''k'' []) (\<lambda>r. Inr (snd r))) = Inr ''hs''
         | Inl _ \<Rightarrow> False)" by code_simp
    then show ?thesis using that by (auto split: sum.splits)
  qed
  have "\<exists>k. RunConnection lru_ops (script_env [Got (''set k 0 0 2'' @ crlf @ ''h'')]) 7 {} (new_conn (MapBasedGlobalLockImpl 8) False)
      = Some (Conn_returned k, {} - {7}) \<and> k_storage k = s' \<and>
      k_log k = [Sys_send (taken (script_env [Got (''set k 0 0 2'' @ crlf @ ''h'')]) 0 (''STORED'' @ crlf)), Sys_close]"
    by (rule blocking_eof_in_body [OF req, where ?b1.0 = "''h''" and ?b2.0 = "''i''"])
       (use s' in \<open>simp_all add: script_env_def set_k_header clean_def buf_size_def\<close>)
  then show ?thesis using g by (auto simp: taken_all [OF sends_all_script])
qed

text \<open>
  a header the parser accepts and for which \<open>Build\<close> has no command (\<open>prepend\<close>) makes \<open>RunConnection\<close> throw into
  the pool thread, which does not catch: nothing was answered, the socket stays open and the connection stays in the set.
\<close>

theorem blocking_prepend_escapes:
  assumes "h = store_header ''prepend'' key fl (expr_time_text ng ds) n" "sp \<notin> set key" "fl < 2 ^ 32" "n < 2 ^ 32"
    and "\<forall>c \<in> set ds. is_digit c" "ds \<noteq> []" "9 * length ds < 2 ^ 31" "clean h"
    and "e_running env 0" "e_read env 0 = Got h"
  shows "\<exists>k. RunConnection ops env self conns (new_conn s neg) = Some (Conn_raised ''Unsupported command'' k, insert self conns) \<and>
    k_storage k = s \<and> k_log k = []"
proof -
  from parse_store_header [of "''prepend''", OF _ assms(2-4) assms(5-7), of neg ng] obtain q where
    q: "parse_loop (new_Parser neg) 0 h = Inr (q, length h)" "p_state q = sLF" "p_complete q" "p_name q = ''prepend''"
    using assms(1) by auto
  let ?k = "(new_conn s neg)\<lparr>k_tests := 1\<rparr>"
  have idle: "idle_conn ?k" by (simp add: idle_conn_def new_conn_def)
  have "handle_input ops env True (int (length h)) (has_read h ?k) =
      run_command ops env True (has_read h ?k\<lparr>k_parser := q, k_command := []\<rparr>)"
    using handle_header [OF idle assms(8) _ q(3)] q(1) by simp
  also have "\<dots> = Some (Raise ''Unsupported command'' (has_read h ?k\<lparr>k_parser := q, k_command := []\<rparr>))"
    using q(2,4) by (simp add: run_command_def Build_def)
  finally have "RunConnection_loop ops env (new_conn s neg) =
      Some (Raise ''Unsupported command'' (has_read h ?k\<lparr>k_parser := q, k_command := []\<rparr>))"
    using assms(8-10) idle blocking_loop.loop_got [of env "new_conn s neg" h ops] sys_read_clean [OF idle]
    by (simp add: clean_def)
  then show ?thesis by (simp add: RunConnection_def has_read_def)
qed

theorem blocking_prepend_escapes_witness:
  "\<exists>k. RunConnection lru_ops (script_env [Got (store_header ''prepend'' ''k'' 0 (expr_time_text False ''0'') 2)]) 7 {}
      (new_conn (MapBasedGlobalLockImpl 8) False) = Some (Conn_raised ''Unsupported command'' k, {7}) \<and> k_log k = []"
proof -
  have "clean (store_header ''prepend'' ''k'' 0 (expr_time_text False ''0'') 2)" by code_simp
  then show ?thesis
    using blocking_prepend_escapes [OF refl, of "''k''" 0 2 "''0''" False
        "script_env [Got (store_header ''prepend'' ''k'' 0 (expr_time_text False ''0'') 2)]" lru_ops 7 "{}" "MapBasedGlobalLockImpl 8" False]
    by (auto simp: is_digit_def script_env_def)
qed

text \<open>
  \<open>max_workers\<close> does not limit the clients that are served: the acceptor looks at the set of the connections that
  have begun to run, so that before any of them does, it hands up to 60 clients to the pool, whatever \<open>max_workers\<close> is.
\<close>

theorem accept_limit_not_enforced:
  assumes "acceptor srv = Accepting" "running srv" "connections srv = {}" "0 < max_workers srv"
    and "pool srv = new_Executor 10 20 60"
  shows "length cs \<le> 60 \<Longrightarrow> - 1 \<notin> set cs \<Longrightarrow> \<exists>srv'. server_reach srv srv' \<and> accepted (pool srv') = cs \<and>
    server_calls srv' = server_calls srv \<and> max_workers srv' = max_workers srv"
proof -
  define fine where "fine s cs \<longleftrightarrow> acceptor s = Accepting \<and> running s \<and> connections s = {} \<and> max_workers s = max_workers srv \<and>
    server_calls s = server_calls srv \<and> accepted (pool s) = cs \<and> tasks (pool s) = cs \<and> ex_state (pool s) = kRun \<and>
    max_queue_size (pool s) = 60" for s :: blocking_server and cs
  have "length cs \<le> 60 \<Longrightarrow> - 1 \<notin> set cs \<Longrightarrow> \<exists>srv'. server_reach srv srv' \<and> fine srv' cs"
  proof (induction cs rule: rev_induct)
    case Nil
    have "fine srv []" using assms by (simp add: fine_def)
    then show ?case using reach_start by blast
  next
    case (snoc c cs)
    then obtain s where s: "server_reach srv s" "fine s cs" by auto
    have "fine (accept_pass c s) (cs @ [c])"
      using s(2) snoc.prems assms(4) by (auto simp: fine_def accept_pass_def Execute_def Let_def word_less_nat_alt)
    moreover have "server_step s (accept_pass c s)" using s(2) by (intro accept) (auto simp: fine_def)
    ultimately show ?case using reach_step [OF s(1)] by blast
  qed
  then show "length cs \<le> 60 \<Longrightarrow> - 1 \<notin> set cs \<Longrightarrow> \<exists>srv'. server_reach srv srv' \<and> accepted (pool srv') = cs \<and>
    server_calls srv' = server_calls srv \<and> max_workers srv' = max_workers srv"
    unfolding fine_def by blast
qed

definition started_server :: blocking_server where
  "started_server = RunAcceptor_open 3 0 0 0 (new_ServerImpl\<lparr>running := True, max_workers := 1, acceptor := Starting\<rparr>)"

theorem accept_limit_not_enforced_witness:
  "\<exists>srv'. server_reach started_server srv' \<and> max_workers srv' = 1 \<and> accepted (pool srv') = [4, 5, 6]"
  using accept_limit_not_enforced [of started_server "[4, 5, 6]"]
  by (auto simp: started_server_def RunAcceptor_open_def new_ServerImpl_def scall_def Let_def)

end
