(* ===== verification/Epoll_Worker.thy ===== *)
theory Epoll_Worker
  imports Socket_Io
begin

unbundle bit_operations_syntax

text \<open>
  The epoll server (src/src/network/nonblocking): \<open>make_socket_non_blocking\<close> of Utils.cpp, the worker thread of
  Worker.{h,cpp} and the server of ServerImpl.cpp.  The calls to the system are recorded in order; what the system
  answers to a call is the parameter \<open>ans\<close>, a function of the calls made before and of the call.  The epoll loop runs
  over a list of rounds, what the tests of \<open>running\<close> and \<open>epoll_wait\<close> gave.  The client of the \<open>n\<close>-th call of
  \<open>ConnectionWork\<close> is \<open>cl n\<close>, with the first value of the parser's uninitialised flag.
\<close>

section \<open>A readable connection\<close>

definition ConnectionWork_step :: "'s storage_ops \<Rightarrow> client_env \<Rightarrow> 's conn \<Rightarrow> 's io_outcome option" where
  "ConnectionWork_step ops env k =
     (let (r, k1) = load_running env k
      in if \<not> r then Some (Leave k1)
         else let (received, k2) = sys_read env k1
           in if received < 0 then Some (Leave k2) else handle_input ops env False received k2)"

partial_function (option) ConnectionWork_loop :: "'s storage_ops \<Rightarrow> client_env \<Rightarrow> 's conn \<Rightarrow> 's io_outcome option" where
  "ConnectionWork_loop ops env k =
     (case ConnectionWork_step ops env k of
        None \<Rightarrow> None
      | Some (Next k1) \<Rightarrow> ConnectionWork_loop ops env k1
      | Some r \<Rightarrow> Some r)"

interpretation epoll_loop: client_loop ops False "ConnectionWork_loop ops" for ops
proof
  fix env :: client_env and k :: "'a conn" and cs
  assume *: "e_running env (k_tests k)" "e_read env (k_reads k) = Got cs" "cs \<noteq> []"
  show "ConnectionWork_loop ops env k =
      (let k1 = snd (sys_read env (k\<lparr>k_tests := Suc (k_tests k)\<rparr>))
       in case handle_input ops env False (int (length cs)) k1 of
            None \<Rightarrow> None
          | Some (Next k') \<Rightarrow> ConnectionWork_loop ops env k'
          | Some r \<Rightarrow> Some r)"
    by (subst ConnectionWork_loop.simps)
       (use * in \<open>simp add: ConnectionWork_step_def load_running_def sys_read_def Let_def split: option.splits io_outcome.splits\<close>)
qed

section \<open>The worker\<close>

datatype epoll_call =
    Epoll_create nat | Ctl_add int | Ctl_del int | Accept int | Close int | Fcntl_getfl int | Fcntl_setfl int int
  | Shutdown int | Client int client_call | Thread_create | Thread_join | Thread_detach
  | Sigmask | Socket | Setsockopt int | Bind int u16 | Listen int nat

type_synonym sys_answer = "epoll_call list \<Rightarrow> epoll_call \<Rightarrow> int"

record 's epoll_worker =
  ew_storage :: 's
  ew_server_socket :: int
  ew_connection_sockets :: "int set"
  ew_running :: bool
  ew_works :: nat
  ew_calls :: "epoll_call list"

datatype stop_reason = Exception string | Undefined_behaviour ub

type_synonym 's ew_result = "(stop_reason \<times> 's epoll_worker) + 's epoll_worker"

definition new_Worker :: "'s \<Rightarrow> 's epoll_worker" where
  "new_Worker ps = \<lparr>ew_storage = ps, ew_server_socket = 0, ew_connection_sockets = {}, ew_running = False,
     ew_works = 0, ew_calls = []\<rparr>"

definition ecall :: "epoll_call \<Rightarrow> 's epoll_worker \<Rightarrow> 's epoll_worker" where
  "ecall c w = w\<lparr>ew_calls := ew_calls w @ [c]\<rparr>"

definition O_NONBLOCK :: int where
  "O_NONBLOCK = 2048"

text \<open>The calls \<open>make_socket_non_blocking\<close> makes after the calls \<open>cs\<close>; on the left with the text of its exception.\<close>

definition make_socket_non_blocking :: "sys_answer \<Rightarrow> int \<Rightarrow> epoll_call list \<Rightarrow> (string \<times> epoll_call list) + epoll_call list" where
  "make_socket_non_blocking ans sfd cs =
     (let flags = ans cs (Fcntl_getfl sfd);
          cs1 = cs @ [Fcntl_getfl sfd]
      in if flags = - 1 then Inl (''Failed to call fcntl to get socket flags'', cs1)
         else let c = Fcntl_setfl sfd (flags OR O_NONBLOCK)
           in if ans cs1 c = - 1 then Inl (''Failed to call fcntl to set socket flags'', cs1 @ [c])
              else Inr (cs1 @ [c]))"

definition Start :: "sys_answer \<Rightarrow> int \<Rightarrow> 's epoll_worker \<Rightarrow> 's ew_result" where
  "Start ans server_socket w =
     (let w1 = w\<lparr>ew_server_socket := server_socket, ew_running := True\<rparr>
      in if ans (ew_calls w1) Thread_create < 0 then Inl (Exception ''Could not create worker thread'', ecall Thread_create w1)
         else Inr (ecall Thread_create w1))"

text \<open>\<open>Stop\<close> closes the connections in the order \<open>order\<close> the hash set is walked in.\<close>

definition Stop :: "int list \<Rightarrow> 's epoll_worker \<Rightarrow> 's epoll_worker" where
  "Stop order w = ecall (Shutdown (ew_server_socket w))
     (w\<lparr>ew_running := False, ew_calls := ew_calls w @ map Close order\<rparr>)"

definition Join :: "'s epoll_worker \<Rightarrow> 's epoll_worker" where
  "Join w = ecall Thread_join w"

text \<open>
  \<open>ConnectionWork\<close> on a socket: it returns \<open>true\<close> whenever it returns, and its calls become calls of the worker.
\<close>

definition ConnectionWork ::
  "'s storage_ops \<Rightarrow> client_env \<Rightarrow> bool \<Rightarrow> int \<Rightarrow> 's epoll_worker \<Rightarrow> ((stop_reason \<times> 's epoll_worker) + 's epoll_worker \<times> bool) option" where
  "ConnectionWork ops env neg fd w =
     (let done_with = (\<lambda>k. w\<lparr>ew_storage := k_storage k, ew_works := Suc (ew_works w),
                             ew_calls := ew_calls w @ map (Client fd) (k_log k)\<rparr>)
      in case ConnectionWork_loop ops env (new_conn (ew_storage w) neg) of
           None \<Rightarrow> None
         | Some (Broken u) \<Rightarrow> Some (Inl (Undefined_behaviour u, w))
         | Some (Raise msg k) \<Rightarrow> Some (Inl (Exception msg, done_with k))
         | Some (Leave k) \<Rightarrow> Some (Inr (done_with k, True))
         | Some (Next k) \<Rightarrow> Some (Inr (done_with k, True)))"

record epoll_event =
  ev_fd :: int
  ev_err :: bool
  ev_in :: bool

text \<open>An event on the listening socket; \<open>again\<close> tells whether a failed \<open>accept\<close> left \<open>EAGAIN\<close> or \<open>EWOULDBLOCK\<close>.\<close>

definition on_server_event :: "sys_answer \<Rightarrow> (epoll_call list \<Rightarrow> bool) \<Rightarrow> epoll_event \<Rightarrow> 's epoll_worker \<Rightarrow> 's ew_result" where
  "on_server_event ans again ev w =
     (let fd = ew_server_socket w
      in if ev_err ev then Inl (Exception ''Server stopped'', ecall (Close fd) (ecall (Ctl_del fd) w))
         else
           let client = ans (ew_calls w) (Accept fd);
               w1 = ecall (Accept fd) w
           in if client = - 1 \<and> again (ew_calls w) then Inr w1
              else
                let w2 = (if client = - 1 then ecall (Close fd) w1 else w1)
                in case make_socket_non_blocking ans client (ew_calls w2) of
                     Inl (msg, cs) \<Rightarrow> Inl (Exception msg, w2\<lparr>ew_calls := cs\<rparr>)
                   | Inr cs \<Rightarrow>
                     let w4 = w2\<lparr>ew_calls := cs, ew_connection_sockets := insert client (ew_connection_sockets w2)\<rparr>
                     in if ans (ew_calls w4) (Ctl_add client) = - 1
                        then Inl (Exception ''Failed to add an event for client socket.'', ecall (Ctl_add client) w4)
                        else Inr (ecall (Ctl_add client) w4))"

definition on_client_event ::
  "'s storage_ops \<Rightarrow> sys_answer \<Rightarrow> (nat \<Rightarrow> client_env \<times> bool) \<Rightarrow> epoll_event \<Rightarrow> 's epoll_worker \<Rightarrow> 's ew_result option" where
  "on_client_event ops ans cl ev w =
     (let fd = ev_fd ev
      in if fd \<in> ew_connection_sockets w \<and> ev_err ev then
           let w1 = w\<lparr>ew_connection_sockets := ew_connection_sockets w - {fd}\<rparr>
           in Some (if ans (ew_calls w1) (Ctl_del fd) = - 1
                    then Inl (Exception ''Failed delete current_socket from epoll'', ecall (Ctl_del fd) w1)
                    else Inr (ecall (Close fd) (ecall (Ctl_del fd) w1)))
         else if fd \<in> ew_connection_sockets w \<and> ev_in ev then
           (case ConnectionWork ops (fst (cl (ew_works w))) (snd (cl (ew_works w))) fd w of
              None \<Rightarrow> None
            | Some (Inl e) \<Rightarrow> Some (Inl e)
            | Some (Inr (w1, r)) \<Rightarrow> Some (Inr (if r then ecall (Close fd) (ecall (Ctl_del fd) w1) else w1)))
         else Some (Inl (Exception ''Unknown event'', w)))"

fun on_events ::
  "'s storage_ops \<Rightarrow> sys_answer \<Rightarrow> (epoll_call list \<Rightarrow> bool) \<Rightarrow> (nat \<Rightarrow> client_env \<times> bool) \<Rightarrow> epoll_event list \<Rightarrow>
    's epoll_worker \<Rightarrow> 's ew_result option" where
  "on_events ops ans again cl [] w = Some (Inr w)"
| "on_events ops ans again cl (ev # evs) w =
     (case (if ev_fd ev = ew_server_socket w then Some (on_server_event ans again ev w) else on_client_event ops ans cl ev w) of
        Some (Inr w1) \<Rightarrow> on_events ops ans again cl evs w1
      | r \<Rightarrow> r)"

text \<open>A round of the loop: the flag was clear, \<open>epoll_wait\<close> failed, or it gave events.\<close>

datatype epoll_round = Not_running | Wait_failed | Events "epoll_event list"

fun OnRun_loop ::
  "'s storage_ops \<Rightarrow> sys_answer \<Rightarrow> (epoll_call list \<Rightarrow> bool) \<Rightarrow> (nat \<Rightarrow> client_env \<times> bool) \<Rightarrow> int \<Rightarrow> epoll_round list \<Rightarrow>
    's epoll_worker \<Rightarrow> 's ew_result option" where
  "OnRun_loop ops ans again cl epoll_fd [] w = Some (Inr w)"
| "OnRun_loop ops ans again cl epoll_fd (Not_running # rs) w = Some (Inr (ecall (Close epoll_fd) w))"
| "OnRun_loop ops ans again cl epoll_fd (Wait_failed # rs) w = Some (Inl (Exception ''Failed to epoll_wait'', w))"
| "OnRun_loop ops ans again cl epoll_fd (Events evs # rs) w =
     (case on_events ops ans again cl evs w of
        Some (Inr w1) \<Rightarrow> OnRun_loop ops ans again cl epoll_fd rs w1
      | r \<Rightarrow> r)"

definition OnRun ::
  "'s storage_ops \<Rightarrow> sys_answer \<Rightarrow> (epoll_call list \<Rightarrow> bool) \<Rightarrow> (nat \<Rightarrow> client_env \<times> bool) \<Rightarrow> int \<Rightarrow> epoll_round list \<Rightarrow>
    's epoll_worker \<Rightarrow> 's ew_result option" where
  "OnRun ops ans again cl server_socket rounds w =
     (let w0 = w\<lparr>ew_server_socket := server_socket\<rparr>;
          epoll_fd = ans (ew_calls w0) (Epoll_create 20);
          w1 = ecall (Epoll_create 20) w0
      in if epoll_fd = - 1 then Some (Inl (Exception ''Failed to create epoll context.'', w1))
         else if ans (ew_calls w1) (Ctl_add server_socket) = - 1
           then Some (Inl (Exception ''Failed to add an event for server socket.'', ecall (Ctl_add server_socket) w1))
         else OnRun_loop ops ans again cl epoll_fd rounds (ecall (Ctl_add server_socket) w1))"

text \<open>The thread function catches the exceptions, so the worker ends silently.\<close>

definition OnRunProxy ::
  "'s storage_ops \<Rightarrow> sys_answer \<Rightarrow> (epoll_call list \<Rightarrow> bool) \<Rightarrow> (nat \<Rightarrow> client_env \<times> bool) \<Rightarrow> int \<Rightarrow> epoll_round list \<Rightarrow>
    's epoll_worker \<Rightarrow> (ub + 's epoll_worker) option" where
  "OnRunProxy ops ans again cl server_socket rounds w =
     (case OnRun ops ans again cl server_socket rounds w of
        None \<Rightarrow> None
      | Some (Inr w') \<Rightarrow> Some (Inr w')
      | Some (Inl (Exception _, w')) \<Rightarrow> Some (Inr w')
      | Some (Inl (Undefined_behaviour u, w')) \<Rightarrow> Some (Inl u))"

section \<open>The server\<close>

record 's epoll_server =
  es_storage :: 's
  es_workers :: "'s epoll_worker list"
  es_calls :: "epoll_call list"

fun start_workers :: "sys_answer \<Rightarrow> int \<Rightarrow> nat \<Rightarrow> 's epoll_server \<Rightarrow> (string \<times> 's epoll_server) + 's epoll_server" where
  "start_workers ans fd 0 srv = Inr srv"
| "start_workers ans fd (Suc n) srv =
     (case Start ans fd (new_Worker (es_storage srv)) of
        Inl (e, w) \<Rightarrow> Inl (''Could not create worker thread'', srv\<lparr>es_workers := es_workers srv @ [w]\<rparr>)
      | Inr w \<Rightarrow> start_workers ans fd n (srv\<lparr>es_workers := es_workers srv @ [w]\<rparr>))"

text \<open>The port is a 32-bit number of which \<open>htons\<close> takes the low 16 bits.\<close>

definition Server_Start :: "sys_answer \<Rightarrow> u32 \<Rightarrow> u16 \<Rightarrow> 's epoll_server \<Rightarrow> (string \<times> 's epoll_server) + 's epoll_server" where
  "Server_Start ans port n_workers srv =
     (let call = (\<lambda>c s. s\<lparr>es_calls := es_calls s @ [c]\<rparr>);
          fd = ans (es_calls srv @ [Sigmask]) Socket;
          fail = (\<lambda>msg s. Inl (msg, call (Close fd) s));
          s1 = call Sigmask srv;
          s2 = call Socket s1;
          s3 = call (Setsockopt fd) s2;
          s4 = call (Bind fd (ucast port)) s3
      in if ans (es_calls srv) Sigmask \<noteq> 0 then Inl (''Unable to mask SIGPIPE'', s1)
         else if fd = - 1 then Inl (''Failed to open socket'', s2)
         else if ans (es_calls s2) (Setsockopt fd) = - 1 then fail ''Socket setsockopt() failed'' s3
         else if ans (es_calls s3) (Bind fd (ucast port)) = - 1 then fail ''Socket bind() failed'' s4
         else case make_socket_non_blocking ans fd (es_calls s4) of
                Inl (msg, cs) \<Rightarrow> Inl (msg, s4\<lparr>es_calls := cs\<rparr>)
              | Inr cs \<Rightarrow>
                  let s5 = call (Listen fd 5) (s4\<lparr>es_calls := cs\<rparr>)
                  in if ans cs (Listen fd 5) = - 1 then fail ''Socket listen() failed'' s5
                     else start_workers ans fd (unat n_workers) s5)"

text \<open>\<open>orders i\<close> is the order in which the connections of worker \<open>i\<close> are closed.\<close>

definition Server_Stop :: "(nat \<Rightarrow> int list) \<Rightarrow> 's epoll_server \<Rightarrow> 's epoll_server" where
  "Server_Stop orders srv =
     srv\<lparr>es_workers := map (\<lambda>(i, w). ecall Thread_detach (Stop (orders i) w)) (enumerate 0 (es_workers srv))\<rparr>"

definition Server_Join :: "'s epoll_server \<Rightarrow> 's epoll_server" where
  "Server_Join srv = srv\<lparr>es_workers := map Join (es_workers srv)\<rparr>"

section \<open>Sessions\<close>

lemma loop_again:
  assumes "e_running env (k_tests k)" "e_read env (k_reads k) = Failed"
  shows "ConnectionWork_loop ops env k = Some (Leave (k\<lparr>k_tests := Suc (k_tests k), k_reads := Suc (k_reads k)\<rparr>))"
  using assms by (subst ConnectionWork_loop.simps) (simp add: ConnectionWork_step_def load_running_def sys_read_def)

lemma ConnectionWork_loop_None:
  assumes step: "\<And>k. D k \<Longrightarrow> \<exists>k1. ConnectionWork_step ops env k = Some (Next k1) \<and> D k1" and "D k"
  shows "ConnectionWork_loop ops env k = None"
proof -
  have "ops' = ops \<and> env' = env \<longrightarrow> \<not> D k'" if "ConnectionWork_loop ops' env' k' = Some y" for ops' env' k' y
    using that
  proof (rule ConnectionWork_loop.raw_induct [rotated], intro impI notI)
    fix loop ops' env' k' y
    assume IH: "\<And>ops' env' k' y. loop ops' env' k' = Some y \<Longrightarrow> ops' = ops \<and> env' = env \<longrightarrow> \<not> D k'"
      and body: "(case ConnectionWork_step ops' env' k' of None \<Rightarrow> None | Some (Next k1) \<Rightarrow> loop ops' env' k1
          | Some (Leave x) \<Rightarrow> Some (Leave x) | Some (Raise x xa) \<Rightarrow> Some (Raise x xa) | Some (Broken x) \<Rightarrow> Some (Broken x)) = Some y"
      and eq: "ops' = ops \<and> env' = env" and d: "D k'"
    from step [OF d] eq body IH show False by auto
  qed
  with assms(2) show ?thesis by (cases "ConnectionWork_loop ops env k") auto
qed

text \<open>A pass over an end of file changes nothing but the counts.\<close>

lemma step_eof:
  assumes "idle_conn k" "\<not> p_complete (k_parser k)" "e_running env (k_tests k)" "e_read env (k_reads k) = Eof"
  shows "ConnectionWork_step ops env k = Some (Next (k\<lparr>k_tests := Suc (k_tests k), k_reads := Suc (k_reads k)\<rparr>))"
proof -
  let ?k = "k\<lparr>k_tests := Suc (k_tests k), k_reads := Suc (k_reads k)\<rparr>"
  have "k_buf k = replicate buf_size nul" "k_command k = []" using assms(1) by (simp_all add: idle_conn_def)
  moreover have "takeWhile (\<lambda>c. c \<noteq> nul) (replicate n nul) = []" for n by (cases n) simp_all
  ultimately have "append_buf ?k = Inr ?k" by (simp add: append_buf_def buf_size_def)
  then have "handle_input ops env False 0 ?k = Some (Next ?k)"
    using assms(1,2) by (simp add: handle_input_def parse_command_def Parse_def idle_conn_def)
  then show ?thesis using assms(3,4) by (simp add: ConnectionWork_step_def load_running_def sys_read_def)
qed

text \<open>The loop serves a session and leaves when nothing is left to read.\<close>

lemma ConnectionWork_loop_session:
  assumes "\<forall>q \<in> set qs. request_ok q" "run_session ops s (map (\<lambda>q. (q_cmd q, q_body q)) qs) = Inr (s', outs)"
    and "delivers env 0 0 (concat (map q_pieces qs))" "sends_some env 0 (length qs)"
    and "n = length (concat (map q_pieces qs))" "e_running env n" "e_read env n = Failed"
  shows "\<exists>k. ConnectionWork_loop ops env (new_conn s neg) = Some (Leave k) \<and> k_storage k = s' \<and>
    k_log k = taken_replies env 0 outs"
proof -
  from epoll_loop.loop_session [of ops "new_conn s neg" qs s' outs neg env] assms idle_new_conn [of s neg]
  obtain k where k: "ConnectionWork_loop ops env (new_conn s neg) = ConnectionWork_loop ops env k"
    "k_storage k = s'" "k_log k = taken_replies env 0 outs" "k_tests k = n" "k_reads k = n" by auto
  then have "ConnectionWork_loop ops env (new_conn s neg) = Some (Leave (k\<lparr>k_tests := Suc n, k_reads := Suc n\<rparr>))"
    using assms(6,7) by (simp add: loop_again)
  then show ?thesis using k by simp
qed

section \<open>Properties\<close>

text \<open>
  When a client that sent requests in clean pieces has nothing more to read for now, the event handler has
  executed its commands and given their replies to \<open>send\<close> in order, which took all or a part of each; then it closes the connection, although the client has not,
  and leaves the closed descriptor in the set of connections.
\<close>

theorem epoll_session:
  assumes "fd \<in> ew_connection_sockets w" "ev = \<lparr>ev_fd = fd, ev_err = False, ev_in = True\<rparr>"
    and "\<forall>q \<in> set qs. request_ok q" "run_session ops (ew_storage w) (map (\<lambda>q. (q_cmd q, q_body q)) qs) = Inr (s', outs)"
    and "cl (ew_works w) = (env, neg)" "delivers env 0 0 (concat (map q_pieces qs))" "sends_some env 0 (length qs)"
    and "n = length (concat (map q_pieces qs))" "e_running env n" "e_read env n = Failed"
  shows "on_client_event ops ans cl ev w = Some (Inr (w\<lparr>ew_storage := s', ew_works := Suc (ew_works w),
    ew_calls := ew_calls w @ map (Client fd) (taken_replies env 0 outs) @ [Ctl_del fd, Close fd]\<rparr>))"
proof -
  obtain k where "ConnectionWork_loop ops env (new_conn (ew_storage w) neg) = Some (Leave k)" "k_storage k = s'"
    "k_log k = taken_replies env 0 outs"
    using ConnectionWork_loop_session [OF assms(3,4,6-10), of neg] by blast
  then show ?thesis using assms(1,2,5) by (simp add: on_client_event_def ConnectionWork_def ecall_def comp_def)
qed

text \<open>A worker with the connection 5 on an empty cache.\<close>

definition one_connection :: "lru_store epoll_worker" where
  "one_connection = (new_Worker (MapBasedGlobalLockImpl 8))\<lparr>ew_server_socket := 3, ew_connection_sockets := {5}\<rparr>"

definition k_env :: "read_result \<Rightarrow> client_env" where
  "k_env r = \<lparr>e_running = (\<lambda>_. True), 
     e_read = (\<lambda>i. if i < 3 then Got ([''set k'', '' 0 0 2'' @ crlf @ ''hi'' @ crlf, ''get k'' @ crlf] ! i) else r), e_send = (\<lambda>_ n. int n)\<rparr>"

lemma k_env_delivers: "delivers (k_env r) 0 0 (concat (map q_pieces [set_k, get_k]))"
  unfolding pieces_k by (simp add: delivers_Cons k_env_def)

lemma sends_all_k_env: "sends_all (k_env r)"
  by (simp add: sends_all_def k_env_def)

theorem epoll_session_witness:
  "\<exists>w'. on_client_event lru_ops (\<lambda>_ _. 0) (\<lambda>_. (k_env Failed, False)) \<lparr>ev_fd = 5, ev_err = False, ev_in = True\<rparr> one_connection
      = Some (Inr w') \<and> ew_connection_sockets w' = {5} \<and>
    ew_calls w' = [Client 5 (Sys_send (''STORED'' @ crlf)),
      Client 5 (Sys_send (''VALUE k 0 2'' @ crlf @ ''hi'' @ crlf @ ''END'' @ crlf)), Ctl_del 5, Close 5]"
proof -
  obtain s' where s': "run_session lru_ops (ew_storage one_connection) (map (\<lambda>q. (q_cmd q, q_body q)) [set_k, get_k]) =
      Inr (s', [''STORED'', ''VALUE k 0 2'' @ crlf @ ''hi'' @ crlf @ ''END''])"
    using map_sum_snd_Inr [OF run_session_k] by (auto simp: one_connection_def new_Worker_def)
  show ?thesis
    by (subst epoll_session [OF _ refl _ s', where env = "k_env Failed" and n = 3 and neg = False])
       (use request_ok_set_k request_ok_get_k k_env_delivers [of Failed] in
         \<open>simp_all add: one_connection_def new_Worker_def taken_all sends_all_k_env sends_all_some\<close>,
        simp_all add: k_env_def set_k_def get_k_def)
qed

text \<open>
  C30: a client that closes its side makes the worker thread loop for ever inside \<open>ConnectionWork\<close>: the end of file
  is taken for an empty read.  No other connection of the worker is served again.
\<close>

theorem epoll_eof_never_returns:
  assumes "\<forall>q \<in> set qs. request_ok q" "run_session ops (ew_storage w) (map (\<lambda>q. (q_cmd q, q_body q)) qs) = Inr (s', outs)"
    and "delivers env 0 0 (concat (map q_pieces qs))" "\<And>i n. 0 < n \<Longrightarrow> e_send env i n > 0" "\<And>i. e_running env i"
    and "\<And>i. length (concat (map q_pieces qs)) \<le> i \<Longrightarrow> e_read env i = Eof"
  shows "ConnectionWork ops env neg fd w = None"
proof -
  have "sends_some env 0 (length qs)" using assms(4) by (simp add: sends_some_def)
  with epoll_loop.loop_session [of ops "new_conn (ew_storage w) neg" qs s' outs neg env] assms idle_new_conn [of "ew_storage w" neg]
  obtain k neg' where k: "ConnectionWork_loop ops env (new_conn (ew_storage w) neg) = ConnectionWork_loop ops env k"
    "idle_conn k" "k_parser k = new_Parser neg'" "k_reads k = length (concat (map q_pieces qs))" by auto
  have "ConnectionWork_loop ops env k = None"
  proof (rule ConnectionWork_loop_None)
    fix k' :: "'a conn"
    assume d: "idle_conn k' \<and> k_parser k' = new_Parser neg' \<and> k_reads k \<le> k_reads k'"
    then have "ConnectionWork_step ops env k' = Some (Next (k'\<lparr>k_tests := Suc (k_tests k'), k_reads := Suc (k_reads k')\<rparr>))"
      using assms(5,6) k(4) by (intro step_eof) (auto simp: new_Parser_fields)
    then show "\<exists>k1. ConnectionWork_step ops env k' = Some (Next k1) \<and>
        (idle_conn k1 \<and> k_parser k1 = new_Parser neg' \<and> k_reads k \<le> k_reads k1)"
      using d by (simp add: idle_conn_def)
  qed (use k in auto)
  then show ?thesis using k(1) by (simp add: ConnectionWork_def)
qed

theorem epoll_eof_never_returns_witness:
  "ConnectionWork lru_ops (k_env Eof) False 5 one_connection = None"
proof -
  obtain s' where s': "run_session lru_ops (ew_storage one_connection) (map (\<lambda>q. (q_cmd q, q_body q)) [set_k, get_k]) =
      Inr (s', [''STORED'', ''VALUE k 0 2'' @ crlf @ ''hi'' @ crlf @ ''END''])"
    using map_sum_snd_Inr [OF run_session_k] by (auto simp: one_connection_def new_Worker_def)
  show ?thesis
    by (rule epoll_eof_never_returns [OF _ s' k_env_delivers])
       (use request_ok_set_k request_ok_get_k in simp_all, simp_all add: k_env_def set_k_def get_k_def)
qed

text \<open>
  a descriptor that was served once is closed a second time by \<open>Stop\<close>: after any event of a client that was
  handled without an error, stopping the worker closes that descriptor again, whoever owns it by then.
\<close>

theorem epoll_stop_closes_twice:
  assumes "on_client_event ops ans cl ev w = Some (Inr w')" "\<not> ev_err ev" "set order = ew_connection_sockets w'"
  shows "count_list (ew_calls w) (Close (ev_fd ev)) + 2 \<le> count_list (ew_calls (Stop order w')) (Close (ev_fd ev))"
proof -
  let ?fd = "ev_fd ev"
  from assms(1,2) obtain w1 where fd: "?fd \<in> ew_connection_sockets w"
    and w1: "ConnectionWork ops (fst (cl (ew_works w))) (snd (cl (ew_works w))) ?fd w = Some (Inr (w1, True))"
    and w': "w' = ecall (Close ?fd) (ecall (Ctl_del ?fd) w1)"
    by (auto simp: on_client_event_def Let_def ConnectionWork_def split: if_splits option.splits sum.splits io_outcome.splits)
  from w1 have "\<exists>ks. ew_calls w1 = ew_calls w @ map (Client ?fd) ks \<and> ew_connection_sockets w1 = ew_connection_sockets w"
    by (auto simp: ConnectionWork_def Let_def split: option.splits io_outcome.splits)
  then obtain ks where k: "ew_calls w1 = ew_calls w @ map (Client ?fd) ks"
    "ew_connection_sockets w1 = ew_connection_sockets w" by blast
  have "?fd \<in> set order" using fd k(2) w' assms(3) by (simp add: ecall_def)
  then have "1 \<le> count_list (map Close order) (Close ?fd)"
    by (induction order) (auto simp: Suc_leI)
  moreover have "count_list (map (Client ?fd) xs) (Close ?fd) = 0" for xs by (induction xs) simp_all
  ultimately show ?thesis using w' k(1) by (simp add: Stop_def ecall_def)
qed

theorem epoll_stop_closes_twice_witness:
  "\<exists>w'. on_client_event lru_ops (\<lambda>_ _. 0) (\<lambda>_. (script_env [Failed], False)) \<lparr>ev_fd = 5, ev_err = False, ev_in = True\<rparr> one_connection
      = Some (Inr w') \<and> 2 \<le> count_list (ew_calls (Stop [5] w')) (Close 5)"
proof -
  let ?ev = "\<lparr>ev_fd = 5, ev_err = False, ev_in = True\<rparr>" and ?cl = "\<lambda>_. (script_env [Failed], False)"
  obtain w' where w': "on_client_event lru_ops (\<lambda>_ _. 0) ?cl ?ev one_connection = Some (Inr w')"
    "ew_connection_sockets w' = {5}" "ew_calls one_connection = []"
    using loop_again [of "script_env [Failed]" "new_conn (MapBasedGlobalLockImpl 8) False" lru_ops]
    by (simp add: on_client_event_def ConnectionWork_def one_connection_def new_Worker_def script_env_def ecall_def)
  then show ?thesis using epoll_stop_closes_twice [OF w'(1), of "[5]"] by simp
qed

end
