(* ===== verification/Cache_Spec.thy ===== *)
theory Cache_Spec
  imports Socket_Io
begin

text \<open>
  What a client can rely on, as the comments of the sources document it (src/include/afina/execute, Parser.h, Get.cpp):
  the cache as a partial map from keys to items, an item being the flags and the value, and the commands as transitions
  of that map labelled with the command, its data block and the reply.  A cache may forget any key but the one it
  stores.  Data that does not fit into the cache is answered \<open>NOT_STORED\<close> and changes nothing; there is no transition for
  a storing command with an expiration time, whose effect would depend on a clock.

  The code drops the flags and the expiration time and ignores the answers of \<open>Put\<close> and \<open>Set\<close>.  Sessions refine the
  specification when their commands have the flags 0 and no expiration time and their data fits into the cache.
\<close>

section \<open>The specification\<close>

type_synonym cache = "string \<rightharpoonup> u32 \<times> string"

definition stores :: "string \<Rightarrow> u32 \<times> string \<Rightarrow> cache \<Rightarrow> cache \<Rightarrow> bool" where
  "stores k x m m' \<longleftrightarrow> m' k = Some x \<and> may_forget m m' k"

definition item_text :: "string \<Rightarrow> u32 \<times> string \<Rightarrow> string" where
  "item_text k x = ''VALUE '' @ k @ '' '' @ show_nat (unat (fst x)) @ '' '' @ show_nat (length (snd x)) @ crlf @ snd x @ crlf"

definition reply_items :: "cache \<Rightarrow> string list \<Rightarrow> string" where
  "reply_items m ks = concat (map (\<lambda>k. case m k of None \<Rightarrow> [] | Some x \<Rightarrow> item_text k x) ks)"

inductive cache_step :: "(string \<Rightarrow> string \<Rightarrow> bool) \<Rightarrow> cache \<Rightarrow> command \<Rightarrow> string \<Rightarrow> string \<Rightarrow> cache \<Rightarrow> bool"
  for fits :: "string \<Rightarrow> string \<Rightarrow> bool" where
  set_stored: "fits (ic_key c) args \<Longrightarrow> ic_expire c = 0 \<Longrightarrow> stores (ic_key c) (ic_flags c, args) m m' \<Longrightarrow>
    cache_step fits m (Set_cmd c) args ''STORED'' m'"
| set_refused: "\<not> fits (ic_key c) args \<Longrightarrow> cache_step fits m (Set_cmd c) args ''NOT_STORED'' m"
| add_stored: "m (ic_key c) = None \<Longrightarrow> fits (ic_key c) args \<Longrightarrow> ic_expire c = 0 \<Longrightarrow>
    stores (ic_key c) (ic_flags c, args) m m' \<Longrightarrow> cache_step fits m (Add_cmd c) args ''STORED'' m'"
| add_present: "m (ic_key c) \<noteq> None \<Longrightarrow> cache_step fits m (Add_cmd c) args ''NOT_STORED'' m"
| add_refused: "\<not> fits (ic_key c) args \<Longrightarrow> cache_step fits m (Add_cmd c) args ''NOT_STORED'' m"
| append_stored: "m (ic_key c) = Some (f, v) \<Longrightarrow> fits (ic_key c) (v @ args) \<Longrightarrow> stores (ic_key c) (f, v @ args) m m' \<Longrightarrow>
    cache_step fits m (Append_cmd c) args ''STORED'' m'"
| append_refused: "m (ic_key c) = Some (f, v) \<Longrightarrow> \<not> fits (ic_key c) (v @ args) \<Longrightarrow>
    cache_step fits m (Append_cmd c) args ''NOT_STORED'' m"
| append_absent: "m (ic_key c) = None \<Longrightarrow> cache_step fits m (Append_cmd c) args ''NOT_STORED'' m"
| replace_stored: "m (ic_key c) = Some x \<Longrightarrow> fits (ic_key c) args \<Longrightarrow> ic_expire c = 0 \<Longrightarrow>
    stores (ic_key c) (ic_flags c, args) m m' \<Longrightarrow> cache_step fits m (Replace_cmd c) args ''STORED'' m'"
| replace_refused: "\<not> fits (ic_key c) args \<Longrightarrow> cache_step fits m (Replace_cmd c) args ''NOT_STORED'' m"
| replace_absent: "m (ic_key c) = None \<Longrightarrow> cache_step fits m (Replace_cmd c) args ''NOT_STORED'' m"
| get_found: "cache_step fits m (Get_cmd ks) args (reply_items m ks @ ''END'') m"
| stats_empty: "cache_step fits m Stats_cmd args ''END'' m"

text \<open>A session: the commands with their data blocks, and the replies.\<close>

inductive cache_trace :: "(string \<Rightarrow> string \<Rightarrow> bool) \<Rightarrow> cache \<Rightarrow> (command \<times> string) list \<Rightarrow> string list \<Rightarrow> cache \<Rightarrow> bool"
  for fits :: "string \<Rightarrow> string \<Rightarrow> bool" where
  trace_nil: "cache_trace fits m [] [] m"
| trace_cons: "cache_step fits m cmd args out m1 \<Longrightarrow> cache_trace fits m1 cs outs m' \<Longrightarrow>
    cache_trace fits m ((cmd, args) # cs) (out # outs) m'"

inductive_simps cache_trace_simps [simp]:
  "cache_trace fits m [] outs m'" "cache_trace fits m ((cmd, args) # cs) outs m'"

inductive_cases cache_step_storeE: "cache_step fits m (Set_cmd c) args out m'" "cache_step fits m (Add_cmd c) args out m'"
  "cache_step fits m (Append_cmd c) args out m'" "cache_step fits m (Replace_cmd c) args out m'"

inductive_simps cache_step_read: "cache_step fits m (Get_cmd ks) args out m'" "cache_step fits m Stats_cmd args out m'"

section \<open>What the specification promises\<close>

text \<open>The values a command may leave under the key \<open>k\<close>, when those in \<open>V\<close> may be there before.\<close>

fun offered :: "string set \<Rightarrow> string \<Rightarrow> command \<Rightarrow> string \<Rightarrow> string set" where
  "offered V k (Set_cmd c) args = (if ic_key c = k then {args} else {})"
| "offered V k (Add_cmd c) args = (if ic_key c = k then {args} else {})"
| "offered V k (Append_cmd c) args = (if ic_key c = k then (\<lambda>v. v @ args) ` V else {})"
| "offered V k (Replace_cmd c) args = (if ic_key c = k then {args} else {})"
| "offered V k (Get_cmd ks) args = {}"
| "offered V k Stats_cmd args = {}"

fun written_values :: "string set \<Rightarrow> string \<Rightarrow> (command \<times> string) list \<Rightarrow> string set" where
  "written_values V k [] = V"
| "written_values V k ((cmd, args) # cs) = written_values (V \<union> offered V k cmd args) k cs"

definition item_values :: "cache \<Rightarrow> string \<Rightarrow> string set" where
  "item_values m k = snd ` set_option (m k)"

lemma stores_values: "stores k x m m' \<Longrightarrow> item_values m' k' \<subseteq> item_values m k' \<union> (if k = k' then {snd x} else {})"
  by (cases "k' = k") (auto simp: stores_def item_values_def dest: may_forgetD)

lemma cache_step_values:
  assumes "cache_step fits m cmd args out m'" "item_values m k \<subseteq> V"
  shows "item_values m' k \<subseteq> V \<union> offered V k cmd args"
  using assms(1)
proof cases
  case (append_stored c f v)
  with stores_values [where k' = k, OF append_stored(5)] assms(2) show ?thesis
    by (force simp: item_values_def split: if_splits)
qed (use assms(2) in \<open>auto dest!: stores_values [where k' = k] split: if_splits\<close>)

text \<open>No value moves from one key to another: what is under a key was written there by the session or before it.\<close>

lemma cache_trace_values:
  "cache_trace fits m cs outs m' \<Longrightarrow> item_values m k \<subseteq> V \<Longrightarrow> item_values m' k \<subseteq> written_values V k cs"
proof (induction arbitrary: V rule: cache_trace.induct)
  case (trace_cons m cmd args out m1 cs outs m')
  from trace_cons.IH [OF cache_step_values [OF trace_cons.hyps(1) trace_cons.prems]] show ?case by simp
qed simp

text \<open>A session that only reads changes nothing.\<close>

lemma cache_read_only:
  assumes "cache_trace fits m cs outs m'" "\<forall>(cmd, args) \<in> set cs. (\<exists>ks. cmd = Get_cmd ks) \<or> cmd = Stats_cmd"
  shows "m' = m"
  using assms by (induction rule: cache_trace.induct) (auto simp: cache_step_read)

text \<open>What is answered \<open>STORED\<close> is found by the next \<open>get\<close>, with its flags.\<close>

lemma cache_set_then_get:
  assumes "cache_trace fits m [(Set_cmd c, args), (Get_cmd [ic_key c], d)] [''STORED'', out] m'"
  shows "out = item_text (ic_key c) (ic_flags c, args) @ ''END''"
  using assms by (auto simp: cache_step_read reply_items_def stores_def elim!: cache_step_storeE)

section \<open>Refinement\<close>

text \<open>Commands the code can answer as documented: the flags are 0 and nothing expires.\<close>

fun plain :: "command \<Rightarrow> bool" where
  "plain (Set_cmd c) = (ic_flags c = 0 \<and> ic_expire c = 0)"
| "plain (Add_cmd c) = (ic_flags c = 0 \<and> ic_expire c = 0)"
| "plain (Append_cmd c) = (ic_flags c = 0 \<and> ic_expire c = 0)"
| "plain (Replace_cmd c) = (ic_flags c = 0 \<and> ic_expire c = 0)"
| "plain (Get_cmd ks) = True"
| "plain Stats_cmd = True"

text \<open>Every value a session may write fits, when the values \<open>V k\<close> may be under the key \<open>k\<close> at its start.\<close>

fun data_fits :: "(string \<Rightarrow> string \<Rightarrow> bool) \<Rightarrow> (string \<Rightarrow> string set) \<Rightarrow> (command \<times> string) list \<Rightarrow> bool" where
  "data_fits fits V [] = True"
| "data_fits fits V ((cmd, args) # cs) =
     ((\<forall>k. \<forall>v \<in> offered (V k) k cmd args. fits k v) \<and> data_fits fits (\<lambda>k. V k \<union> offered (V k) k cmd args) cs)"

lemma offered_mono: "V \<subseteq> V' \<Longrightarrow> offered V k cmd args \<subseteq> offered V' k cmd args"
  by (cases cmd) auto

lemma data_fits_mono: "data_fits fits V' cs \<Longrightarrow> \<forall>k. V k \<subseteq> V' k \<Longrightarrow> data_fits fits V cs"
proof (induction cs arbitrary: V V')
  case (Cons x cs)
  obtain cmd args where x: "x = (cmd, args)" by (cases x)
  have o: "offered (V k) k cmd args \<subseteq> offered (V' k) k cmd args" for k using Cons.prems(2) by (intro offered_mono) simp
  then have "\<forall>k. V k \<union> offered (V k) k cmd args \<subseteq> V' k \<union> offered (V' k) k cmd args" using Cons.prems(2) by blast
  moreover have f: "data_fits fits (\<lambda>k. V' k \<union> offered (V' k) k cmd args) cs"
    "\<And>k v. v \<in> offered (V' k) k cmd args \<Longrightarrow> fits k v" using Cons.prems(1) by (simp_all add: x)
  ultimately have "data_fits fits (\<lambda>k. V k \<union> offered (V k) k cmd args) cs" using Cons.IH [OF f(1)] by simp
  moreover have "\<forall>k. \<forall>v \<in> offered (V k) k cmd args. fits k v" using f(2) o by blast
  ultimately show ?case by (simp add: x)
qed simp

text \<open>The storage keeps values only; as a cache of items their flags are all 0.\<close>

definition plain_items :: "(string \<rightharpoonup> string) \<Rightarrow> cache" where
  "plain_items m k = map_option (Pair 0) (m k)"

lemma plain_items_values [simp]: "item_values (plain_items m) k = set_option (m k)"
  by (cases "m k") (auto simp: item_values_def plain_items_def)

lemma plain_items_forget [simp]: "may_forget (plain_items m) (plain_items m') k = may_forget m m' k"
proof -
  have "plain_items m' x = None \<or> plain_items m' x = plain_items m x \<longleftrightarrow> m' x = None \<or> m' x = m x" for x
    by (cases "m x"; cases "m' x") (auto simp: plain_items_def)
  then show ?thesis by (simp add: may_forget_def)
qed

lemma show_nat_0: "show_nat 0 = ''0''"
  by code_simp

lemma plain_reply: "reply_items (plain_items m) ks = items_found m ks"
proof -
  have "(case plain_items m k of None \<Rightarrow> [] | Some x \<Rightarrow> item_text k x) = (case m k of None \<Rightarrow> [] | Some v \<Rightarrow> value_item k v)" for k
    by (cases "m k") (auto simp: plain_items_def item_text_def value_item_def show_nat_0)
  then show ?thesis by (simp add: reply_items_def items_found_def)
qed

lemma plain_items_None [simp]: "plain_items m k = None \<longleftrightarrow> m k = None"
  by (simp add: plain_items_def)

lemma plain_items_Some: "m k = Some v \<Longrightarrow> plain_items m k = Some (0, v)"
  by (simp add: plain_items_def)

lemma plain_stores: "m' k = Some v \<Longrightarrow> may_forget m m' k \<Longrightarrow> stores k (0, v) (plain_items m) (plain_items m')"
  by (simp add: stores_def plain_items_def)

context bounded_storage
begin

lemma Command_refines:
  assumes "inv s" "Command_Execute ops cmd s args = Inr (s', out)" "plain cmd"
    and "\<forall>k. \<forall>v \<in> offered (set_option (lookup s k)) k cmd args. fits s k v"
  shows "cache_step (fits s) (plain_items (lookup s)) cmd args out (plain_items (lookup s'))"
proof (cases cmd)
  case (Set_cmd c)
  with Set_Execute_exact [OF assms(1), of c args s' out] assms(2-4) plain_stores [of "lookup s'" "ic_key c" args "lookup s"]
  show ?thesis by (auto intro!: cache_step.set_stored)
next
  case (Add_cmd c)
  with Add_Execute_exact [OF assms(1), of c args s' out] assms(2-4) plain_stores [of "lookup s'" "ic_key c" args "lookup s"]
  show ?thesis by (cases "lookup s (ic_key c)") (auto intro!: cache_step.add_stored cache_step.add_present dest: plain_items_Some)
next
  case (Append_cmd c)
  show ?thesis
  proof (cases "lookup s (ic_key c)")
    case None
    with Append_cmd Append_Execute_exact [OF assms(1), of c args s' out] assms(2) show ?thesis
      by (auto intro: cache_step.append_absent)
  next
    case (Some v)
    with Append_cmd Append_Execute_exact [OF assms(1), of c args s' out] assms(2-4)
      plain_stores [of "lookup s'" "ic_key c" "v @ args" "lookup s"] show ?thesis
      by (auto intro!: cache_step.append_stored dest: plain_items_Some)
  qed
next
  case (Replace_cmd c)
  with Replace_Execute_exact [OF assms(1), of c args s' out] assms(2-4) plain_stores [of "lookup s'" "ic_key c" args "lookup s"]
  show ?thesis by (cases "lookup s (ic_key c)")
     (auto intro!: cache_step.replace_stored cache_step.replace_absent dest: plain_items_Some)
next
  case (Get_cmd ks)
  with Get_Execute_total [OF assms(1), of ks args] assms(2) show ?thesis by (auto simp: cache_step_read plain_reply)
next
  case Stats_cmd
  with assms(2) show ?thesis by (auto simp: Stats_Execute_def cache_step_read)
qed

lemma session_refines:
  "inv s \<Longrightarrow> run_session ops s cs = Inr (s', outs) \<Longrightarrow> \<forall>(cmd, args) \<in> set cs. plain cmd \<Longrightarrow>
   data_fits (fits s) (\<lambda>k. set_option (lookup s k)) cs \<Longrightarrow>
   cache_trace (fits s) (plain_items (lookup s)) cs outs (plain_items (lookup s')) \<and> inv s'"
proof (induction cs arbitrary: s outs)
  case (Cons x cs)
  obtain cmd args where x: "x = (cmd, args)" by (cases x)
  with Cons.prems(2) obtain s1 out outs' where
    c: "Command_Execute ops cmd s args = Inr (s1, out)" "run_session ops s1 cs = Inr (s', outs')" "outs = out # outs'"
    by (auto simp: res_simps)
  have i: "inv s1" by (rule Command_Execute_inv [OF Cons.prems(1) c(1)])
  have f: "fits s1 = fits s" by (rule Command_Execute_fits [OF Cons.prems(1) c(1)])
  have step: "cache_step (fits s) (plain_items (lookup s)) cmd args out (plain_items (lookup s1))"
    using Cons.prems(3,4) by (intro Command_refines [OF Cons.prems(1) c(1)]) (auto simp: x)
  have "\<forall>k. set_option (lookup s1 k) \<subseteq> set_option (lookup s k) \<union> offered (set_option (lookup s k)) k cmd args"
    using cache_step_values [OF step, where V = "set_option (lookup s _)"] by simp
  moreover have "data_fits (fits s) (\<lambda>k. set_option (lookup s k) \<union> offered (set_option (lookup s k)) k cmd args) cs"
    using Cons.prems(4) by (simp add: x)
  ultimately have df: "data_fits (fits s1) (\<lambda>k. set_option (lookup s1 k)) cs" unfolding f by (rule data_fits_mono [rotated])
  have "\<forall>(cmd, args) \<in> set cs. plain cmd" using Cons.prems(3) by simp
  from Cons.IH [OF i c(2) this df] step show ?case by (simp add: x c(3) f) blast
qed simp

end

section \<open>The commands on the LRU storage\<close>

text \<open>
  C9: Sessions refine the documented specification of a cache.  Let commands be executed one after the other on a
  well-formed LRU storage, without undefined behaviour (a \<open>Put\<close> or \<open>Set\<close> over a cached key can have one, see
  \<open>put_shrink_then_back_of_empty\<close>), the storing ones with the flags 0 and the expiration time 0, and let all data they may
  write, old values extended by \<open>append\<close> included, be no larger than the capacity.  Then the replies and the contents
  they leave are those of a run of the specification from the contents before, with eviction as forgetting: \<open>STORED\<close> means
  stored, \<open>NOT_STORED\<close> means the key was present (\<open>add\<close>) or absent (\<open>append\<close>, \<open>replace\<close>), \<open>get\<close> answers with the items.  What is
  then under a key was there before or was written to that key by the session.
\<close>

theorem session_refines_cache:
  assumes "wf_store s" "run_session lru_ops s cs = Inr (s', outs)"
    and "\<forall>(cmd, args) \<in> set cs. plain cmd" "data_fits (fits_store s) (\<lambda>k. set_option (lookup_store s k)) cs"
  shows "cache_trace (fits_store s) (plain_items (lookup_store s)) cs outs (plain_items (lookup_store s')) \<and> wf_store s' \<and>
    set_option (lookup_store s' k) \<subseteq> written_values (set_option (lookup_store s k)) k cs"
proof -
  have "cache_trace (fits_store s) (plain_items (lookup_store s)) cs outs (plain_items (lookup_store s'))" "wf_store s'"
    using lru_bounded.session_refines [OF assms] by auto
  moreover from cache_trace_values [OF this(1), of k] have
    "set_option (lookup_store s' k) \<subseteq> written_values (set_option (lookup_store s k)) k cs" by simp
  ultimately show ?thesis by blast
qed

lemma fits_init: "0 \<le> m \<Longrightarrow> m < 2 ^ 31 \<Longrightarrow> fits_store (MapBasedGlobalLockImpl m) k v \<longleftrightarrow> pair_size k v \<le> m"
  by (simp add: fits_store_def MapBasedGlobalLockImpl_def to_size_t_id)

lemma lookup_init [simp]: "lookup_store (MapBasedGlobalLockImpl m) = Map.empty"
  by (simp add: lookup_store_def MapBasedGlobalLockImpl_def)

theorem session_refines_cache_witness:
  "\<exists>s'. cache_trace (fits_store (MapBasedGlobalLockImpl 8)) (plain_items (lookup_store (MapBasedGlobalLockImpl 8)))
      [(new_Set ''k'' 0 0, ''hi''), (new_Get [''k''], [])]
      [''STORED'', ''VALUE k 0 2'' @ crlf @ ''hi'' @ crlf @ ''END''] (plain_items (lookup_store s')) \<and> wf_store s' \<and>
    set_option (lookup_store s' ''k'') \<subseteq> {''hi''}"
proof -
  have cs: "map (\<lambda>q. (q_cmd q, q_body q)) [set_k, get_k] = [(new_Set ''k'' 0 0, ''hi''), (new_Get [''k''], [])]"
    by (simp add: set_k_def get_k_def)
  obtain s' where s': "run_session lru_ops (MapBasedGlobalLockImpl 8) [(new_Set ''k'' 0 0, ''hi''), (new_Get [''k''], [])] =
      Inr (s', [''STORED'', ''VALUE k 0 2'' @ crlf @ ''hi'' @ crlf @ ''END''])"
    using map_sum_snd_Inr [OF run_session_k] unfolding cs by blast
  have "written_values (set_option (lookup_store (MapBasedGlobalLockImpl 8) ''k'')) ''k''
      [(new_Set ''k'' 0 0, ''hi''), (new_Get [''k''], [])] = {''hi''}"
    by (simp add: new_Set_def new_Get_def new_InsertCommand_def)
  moreover have "\<forall>(cmd, args) \<in> set [(new_Set ''k'' 0 0, ''hi''), (new_Get [''k''], [])]. plain cmd"
    by (simp add: new_Set_def new_Get_def new_InsertCommand_def)
  moreover have "data_fits (fits_store (MapBasedGlobalLockImpl 8)) (\<lambda>k. set_option (lookup_store (MapBasedGlobalLockImpl 8) k))
      [(new_Set ''k'' 0 0, ''hi''), (new_Get [''k''], [])]"
    by (simp add: new_Set_def new_Get_def new_InsertCommand_def fits_init pair_size_def)
  ultimately show ?thesis using session_refines_cache [OF wf_init s', of "''k''"] by auto
qed

end
