(* ===== verification/Servers.thy ===== *)
theory Servers
  imports Uv_Session Blocking_Server Epoll_Worker Cache_Spec
begin

text \<open>
  The three network layers side by side (src/src/network/uv, blocking and nonblocking): for a client that sends the same
  requests they send the same replies and leave the same storage, that of the commands executed one after the other, as
  long as no \<open>send\<close> is short; of a reply for which it is, the blocking and the epoll server lose the rest.  The locale
  \<open>session_server\<close> is that contract, with the replies the client then reads.
\<close>

fun sent :: "client_call list \<Rightarrow> string list" where
  "sent [] = []"
| "sent (Sys_send out # calls) = out # sent calls"
| "sent (Sys_close # calls) = sent calls"

lemma sent_append [simp]: "sent (xs @ ys) = sent xs @ sent ys"
  by (induction xs rule: sent.induct) simp_all

text \<open>What the client reads of the replies when \<open>send\<close> takes the bytes \<open>taken\<close> of each.\<close>

definition replies_read :: "client_env \<Rightarrow> string list \<Rightarrow> string list" where
  "replies_read env outs = sent (taken_replies env 0 outs)"

lemma sent_replies [simp]: "sent (map (\<lambda>out. Sys_send (f out)) outs) = map f outs"
  by (induction outs) simp_all

text \<open>The calls the epoll worker made on the socket \<open>fd\<close>.\<close>

fun client_calls :: "int \<Rightarrow> epoll_call list \<Rightarrow> client_call list" where
  "client_calls fd [] = []"
| "client_calls fd (Client fd' call # calls) = (if fd' = fd then call # client_calls fd calls else client_calls fd calls)"
| "client_calls fd (c # calls) = client_calls fd calls"

lemma client_calls_append [simp]: "client_calls fd (xs @ ys) = client_calls fd xs @ client_calls fd ys"
  by (induction fd xs rule: client_calls.induct) simp_all

lemma client_calls_replies [simp]: "client_calls fd (map (Client fd) calls) = calls"
  by (induction calls) simp_all

section \<open>The contract of a server\<close>

text \<open>
  \<open>serves s qs s' outs\<close>: whatever the environment, a client that sends the requests \<open>qs\<close> one after the other to a server
  whose storage is \<open>s\<close> reads of the answers \<open>outs\<close>, each with a line end, what \<open>send\<close> took, and leaves the storage \<open>s'\<close>.
\<close>

abbreviation commands_of :: "client_request list \<Rightarrow> (command \<times> string) list" where
  "commands_of qs \<equiv> map (\<lambda>q. (q_cmd q, q_body q)) qs"

abbreviation reply_lines :: "string list \<Rightarrow> string list" where
  "reply_lines outs \<equiv> map (\<lambda>out. out @ crlf) outs"

lemma replies_read_all: "sends_all env \<Longrightarrow> replies_read env outs = reply_lines outs"
  by (simp add: replies_read_def taken_replies_all)

lemma replies_read_short:
  assumes "e_send env 0 (length (out @ crlf)) < int (length (out @ crlf))"
  shows "length (hd (replies_read env (out # outs))) < length (out @ crlf)"
  using taken_short [OF _ assms] by (simp add: replies_read_def)

locale session_server =
  fixes ops :: "'s storage_ops"
    and serves :: "'s \<Rightarrow> client_request list \<Rightarrow> 's \<Rightarrow> string list \<Rightarrow> bool"
  assumes serves_session: "\<forall>q \<in> set qs. request_ok q \<Longrightarrow> run_session ops s (commands_of qs) = Inr (s', outs) \<Longrightarrow>
      serves s qs s' outs"

text \<open>The blocking server: the client then closes its end.\<close>

definition blocking_serves :: "'s storage_ops \<Rightarrow> 's \<Rightarrow> client_request list \<Rightarrow> 's \<Rightarrow> string list \<Rightarrow> bool" where
  "blocking_serves ops s qs s' outs \<longleftrightarrow>
     (\<forall>env self conns neg.
        delivers env 0 0 (concat (map q_pieces qs)) \<longrightarrow> sends_some env 0 (length qs) \<longrightarrow>
        e_running env (length (concat (map q_pieces qs))) \<longrightarrow> e_read env (length (concat (map q_pieces qs))) = Eof \<longrightarrow>
        (\<exists>k. RunConnection ops env self conns (new_conn s neg) = Some (Conn_returned k, conns - {self}) \<and>
           k_storage k = s' \<and> sent (k_log k) = replies_read env outs))"

text \<open>The epoll worker: there is then nothing more to read.\<close>

definition epoll_serves :: "'s storage_ops \<Rightarrow> 's \<Rightarrow> client_request list \<Rightarrow> 's \<Rightarrow> string list \<Rightarrow> bool" where
  "epoll_serves ops s qs s' outs \<longleftrightarrow>
     (\<forall>env ans cl neg fd e.
        delivers env 0 0 (concat (map q_pieces qs)) \<longrightarrow> sends_some env 0 (length qs) \<longrightarrow>
        e_running env (length (concat (map q_pieces qs))) \<longrightarrow> e_read env (length (concat (map q_pieces qs))) = Failed \<longrightarrow>
        fd \<in> ew_connection_sockets e \<longrightarrow> ew_storage e = s \<longrightarrow> cl (ew_works e) = (env, neg) \<longrightarrow>
        (\<exists>e'. on_client_event ops ans cl \<lparr>ev_fd = fd, ev_err = False, ev_in = True\<rparr> e = Some (Inr e') \<and>
           ew_storage e' = s' \<and> sent (client_calls fd (ew_calls e')) = sent (client_calls fd (ew_calls e)) @ replies_read env outs))"

text \<open>The libuv worker: the client waits for each reply.\<close>

definition uv_serves :: "'s storage_ops \<Rightarrow> 's \<Rightarrow> client_request list \<Rightarrow> 's \<Rightarrow> string list \<Rightarrow> bool" where
  "uv_serves ops s qs s' outs \<longleftrightarrow>
     (\<forall>rc i u. waiting i u \<longrightarrow> answers_ok rc \<longrightarrow> w_storage u = s \<longrightarrow>
        (\<exists>u'. uv_session ops rc i u (map q_pieces qs) = Some (Inr u') \<and> waiting i u' \<and> w_storage u' = s' \<and>
           written i (w_uv u') = written i (w_uv u) @ reply_lines outs))"

interpretation blocking: session_server ops "blocking_serves ops" for ops
proof (unfold_locales, unfold blocking_serves_def, intro allI impI)
  fix qs s s' outs env self conns neg
  assume a: "\<forall>q \<in> set qs. request_ok q" "run_session ops s (commands_of qs) = Inr (s', outs)"
    "delivers env 0 0 (concat (map q_pieces qs))" "sends_some env 0 (length qs)"
    "e_running env (length (concat (map q_pieces qs)))" "e_read env (length (concat (map q_pieces qs))) = Eof"
  from RunConnection_loop_session [OF a(1-4) refl a(5,6), of neg]
  show "\<exists>k. RunConnection ops env self conns (new_conn s neg) = Some (Conn_returned k, conns - {self}) \<and>
      k_storage k = s' \<and> sent (k_log k) = replies_read env outs"
    by (auto simp: RunConnection_def sys_close_def insert_Diff_if replies_read_def)
qed

interpretation epoll: session_server ops "epoll_serves ops" for ops
proof (unfold_locales, unfold epoll_serves_def, intro allI impI)
  fix qs outs env ans cl fd and e :: "'a epoll_worker" and s s' :: 'a and neg :: bool
  assume a: "\<forall>q \<in> set qs. request_ok q" "run_session ops s (commands_of qs) = Inr (s', outs)"
    "delivers env 0 0 (concat (map q_pieces qs))" "sends_some env 0 (length qs)"
    "e_running env (length (concat (map q_pieces qs)))" "e_read env (length (concat (map q_pieces qs))) = Failed"
    "fd \<in> ew_connection_sockets e" "ew_storage e = s" "cl (ew_works e) = (env, neg)"
  from ConnectionWork_loop_session [OF a(1-4) refl a(5,6), of neg]
  show "\<exists>e'. on_client_event ops ans cl \<lparr>ev_fd = fd, ev_err = False, ev_in = True\<rparr> e = Some (Inr e') \<and>
      ew_storage e' = s' \<and> sent (client_calls fd (ew_calls e')) = sent (client_calls fd (ew_calls e)) @ replies_read env outs"
    using a(7-9) by (auto simp: on_client_event_def ConnectionWork_def ecall_def comp_def replies_read_def)
qed

interpretation uv: session_server ops "uv_serves ops" for ops
  by unfold_locales (use request_ok_uv in \<open>auto simp: uv_serves_def intro!: uv_session_replies\<close>)

section \<open>The three servers\<close>

text \<open>
  C31: The servers are interchangeable for orderly clients.  A client sends requests, each in clean pieces (text without
  null bytes, shorter than the buffer of 256 bytes) of which the last one completes the header and carries the whole data
  block, and its commands executed one after the other return.  Then the blocking server, the epoll worker and the libuv worker
  execute the same commands and leave the same storage; the libuv worker hands each answer with a line end to libuv, and of
  the same answers the other two send what their \<open>send\<close> calls take, none of which fails.  When no \<open>send\<close> is short, the replies
  are the same for all three.  The blocking server reads to the end of the stream, the epoll worker until nothing is left to
  read, and the libuv worker answers each request before the next one arrives.
\<close>

theorem servers_agree:
  assumes "\<forall>q \<in> set qs. request_ok q" "run_session ops s (map (\<lambda>q. (q_cmd q, q_body q)) qs) = Inr (s', outs)"
    and "n = length (concat (map q_pieces qs))"
    and blocking: "delivers benv 0 0 (concat (map q_pieces qs))" "sends_some benv 0 (length qs)"
      "e_running benv n" "e_read benv n = Eof"
    and epoll: "delivers eenv 0 0 (concat (map q_pieces qs))" "sends_some eenv 0 (length qs)"
      "e_running eenv n" "e_read eenv n = Failed"
      "fd \<in> ew_connection_sockets e" "ew_storage e = s" "cl (ew_works e) = (eenv, neg)"
    and uv: "waiting i u" "answers_ok rc" "w_storage u = s"
  shows "\<exists>k e' u'.
    RunConnection ops benv self conns (new_conn s neg') = Some (Conn_returned k, conns - {self}) \<and>
    on_client_event ops ans cl \<lparr>ev_fd = fd, ev_err = False, ev_in = True\<rparr> e = Some (Inr e') \<and>
    uv_session ops rc i u (map q_pieces qs) = Some (Inr u') \<and>
    k_storage k = s' \<and> ew_storage e' = s' \<and> w_storage u' = s' \<and>
    written i (w_uv u') = written i (w_uv u) @ map (\<lambda>out. out @ crlf) outs \<and>
    sent (k_log k) = replies_read benv outs \<and>
    sent (client_calls fd (ew_calls e')) = sent (client_calls fd (ew_calls e)) @ replies_read eenv outs \<and>
    (sends_all benv \<longrightarrow> replies_read benv outs = map (\<lambda>out. out @ crlf) outs) \<and>
    (sends_all eenv \<longrightarrow> replies_read eenv outs = map (\<lambda>out. out @ crlf) outs)"
proof -
  have "\<exists>k. RunConnection ops benv self conns (new_conn s neg') = Some (Conn_returned k, conns - {self}) \<and>
      k_storage k = s' \<and> sent (k_log k) = replies_read benv outs"
    using blocking.serves_session [OF assms(1,2)] blocking unfolding assms(3) blocking_serves_def by blast
  moreover have "\<exists>e'. on_client_event ops ans cl \<lparr>ev_fd = fd, ev_err = False, ev_in = True\<rparr> e = Some (Inr e') \<and>
      ew_storage e' = s' \<and> sent (client_calls fd (ew_calls e')) = sent (client_calls fd (ew_calls e)) @ replies_read eenv outs"
    using epoll.serves_session [OF assms(1,2)] epoll unfolding assms(3) epoll_serves_def by blast
  moreover have "\<exists>u'. uv_session ops rc i u (map q_pieces qs) = Some (Inr u') \<and> w_storage u' = s' \<and>
      written i (w_uv u') = written i (w_uv u) @ reply_lines outs"
    using uv.serves_session [OF assms(1,2)] uv unfolding uv_serves_def by blast
  ultimately show ?thesis using replies_read_all by blast
qed

theorem servers_agree_witness:
  "\<exists>k e' u'.
    RunConnection lru_ops (k_env Eof) 7 {} (new_conn (MapBasedGlobalLockImpl 8) False) = Some (Conn_returned k, {}) \<and>
    on_client_event lru_ops (\<lambda>_ _. 0) (\<lambda>_. (k_env Failed, False)) \<lparr>ev_fd = 5, ev_err = False, ev_in = True\<rparr> one_connection
      = Some (Inr e') \<and>
    uv_session lru_ops (\<lambda>_. 0) 0 one_client (map q_pieces [set_k, get_k]) = Some (Inr u') \<and>
    k_storage k = ew_storage e' \<and> ew_storage e' = w_storage u' \<and>
    sent (k_log k) = [''STORED'' @ crlf, ''VALUE k 0 2'' @ crlf @ ''hi'' @ crlf @ ''END'' @ crlf] \<and>
    sent (client_calls 5 (ew_calls e')) = sent (k_log k) \<and> written 0 (w_uv u') = sent (k_log k)"
proof -
  let ?outs = "[''STORED'', ''VALUE k 0 2'' @ crlf @ ''hi'' @ crlf @ ''END'']" and ?ev = "\<lparr>ev_fd = 5, ev_err = False, ev_in = True\<rparr>"
  obtain s' where s': "run_session lru_ops (MapBasedGlobalLockImpl 8) (map (\<lambda>q. (q_cmd q, q_body q)) [set_k, get_k]) = Inr (s', ?outs)"
    using map_sum_snd_Inr [OF run_session_k] by blast
  have n: "3 = length (concat (map q_pieces [set_k, get_k]))" by (simp only: pieces_k) simp
  have env: "e_running (k_env r) j" "e_read (k_env r) 3 = r" "sends_some (k_env r) 0 (length [set_k, get_k])" for r j
    using sends_all_some [OF sends_all_k_env] by (simp_all add: k_env_def)
  have "waiting 0 one_client" by (rule waiting_new [OF one_client_simps(1)]) simp_all
  then have "\<exists>k e' u'.
    RunConnection lru_ops (k_env Eof) 7 {} (new_conn (MapBasedGlobalLockImpl 8) False) = Some (Conn_returned k, {} - {7}) \<and>
    on_client_event lru_ops (\<lambda>_ _. 0) (\<lambda>_. (k_env Failed, False)) ?ev one_connection = Some (Inr e') \<and>
    uv_session lru_ops (\<lambda>_. 0) 0 one_client (map q_pieces [set_k, get_k]) = Some (Inr u') \<and>
    k_storage k = s' \<and> ew_storage e' = s' \<and> w_storage u' = s' \<and>
    written 0 (w_uv u') = written 0 (w_uv one_client) @ map (\<lambda>out. out @ crlf) ?outs \<and>
    sent (k_log k) = replies_read (k_env Eof) ?outs \<and>
    sent (client_calls 5 (ew_calls e')) = sent (client_calls 5 (ew_calls one_connection)) @ replies_read (k_env Failed) ?outs \<and>
    (sends_all (k_env Eof) \<longrightarrow> replies_read (k_env Eof) ?outs = map (\<lambda>out. out @ crlf) ?outs) \<and>
    (sends_all (k_env Failed) \<longrightarrow> replies_read (k_env Failed) ?outs = map (\<lambda>out. out @ crlf) ?outs)"
    by (intro servers_agree [where neg = False, OF _ s' n k_env_delivers env(3,1,2) k_env_delivers env(3,1,2)])
      (use request_ok_set_k request_ok_get_k in \<open>simp_all add: one_connection_def Epoll_Worker.new_Worker_def answers_ok_def\<close>)
  then show ?thesis using sends_all_k_env by (auto simp: one_connection_def Epoll_Worker.new_Worker_def)
qed

end
