(* ===== verification/Schedules.thy ===== *)
theory Schedules
  imports Prelude
begin

text \<open>
  Programs of a few threads whose runs are all finite: a schedule picks an action at every step, and \<open>explore\<close> follows
  every schedule to its end.  What holds of all the ends it finds holds of every run.
\<close>

fun run_schedule :: "('a \<Rightarrow> 's \<Rightarrow> ('e + 's) option) \<Rightarrow> 'a list \<Rightarrow> 's \<Rightarrow> ('e + 's) option" where
  "run_schedule step [] s = Some (Inr s)"
| "run_schedule step (a # as) s =
     (case step a s of
        None \<Rightarrow> None
      | Some (Inl e) \<Rightarrow> if as = [] then Some (Inl e) else None
      | Some (Inr s') \<Rightarrow> run_schedule step as s')"

definition results :: "('a \<Rightarrow> 's \<Rightarrow> ('e + 's) option) \<Rightarrow> 'a list \<Rightarrow> 's \<Rightarrow> ('e + 's) list" where
  "results step acts s = List.map_filter (\<lambda>a. step a s) acts"

fun join_all :: "'a list option list \<Rightarrow> 'a list option" where
  "join_all [] = Some []"
| "join_all (None # rs) = None"
| "join_all (Some xs # rs) = map_option ((@) xs) (join_all rs)"

text \<open>All the ends, or \<open>None\<close> when \<open>n\<close> actions are not enough.\<close>

fun explore :: "('a \<Rightarrow> 's \<Rightarrow> ('e + 's) option) \<Rightarrow> 'a list \<Rightarrow> nat \<Rightarrow> 's \<Rightarrow> ('e + 's) list option" where
  "explore step acts 0 s = None"
| "explore step acts (Suc n) s =
     (case results step acts s of
        [] \<Rightarrow> Some [Inr s]
      | rs \<Rightarrow> join_all (map (\<lambda>r. case r of Inl e \<Rightarrow> Some [Inl e] | Inr s' \<Rightarrow> explore step acts n s') rs))"

definition ended :: "('a \<Rightarrow> 's \<Rightarrow> ('e + 's) option) \<Rightarrow> 'a list \<Rightarrow> 'e + 's \<Rightarrow> bool" where
  "ended step acts r \<longleftrightarrow> (case r of Inl e \<Rightarrow> True | Inr s \<Rightarrow> results step acts s = [])"

lemma results_step: "a \<in> set acts \<Longrightarrow> step a s = Some r \<Longrightarrow> r \<in> set (results step acts s)"
  by (force simp: results_def List.map_filter_def)

lemma join_all_member: "join_all rs = Some xs \<Longrightarrow> r \<in> set rs \<Longrightarrow> \<exists>ys. r = Some ys \<and> set ys \<subseteq> set xs"
  by (induction rs arbitrary: xs rule: join_all.induct) fastforce+

lemma explore_step:
  assumes "explore step acts (Suc n) s = Some rs" "r \<in> set (results step acts s)"
  shows "\<exists>ys. (case r of Inl e \<Rightarrow> Some [Inl e] | Inr s' \<Rightarrow> explore step acts n s') = Some ys \<and> set ys \<subseteq> set rs"
proof -
  let ?f = "\<lambda>r. case r of Inl e \<Rightarrow> Some [Inl e] | Inr s' \<Rightarrow> explore step acts n s'"
  have "join_all (map ?f (results step acts s)) = Some rs"
    using assms by (cases "results step acts s") auto
  from join_all_member [OF this, of "?f r"] assms(2) show ?thesis by simp
qed

text \<open>Every run is shorter than the bound, and an end of it is among those found.\<close>

theorem explore_runs:
  "explore step acts n s = Some rs \<Longrightarrow> set as \<subseteq> set acts \<Longrightarrow> run_schedule step as s = Some r \<Longrightarrow>
   length as \<le> n \<and> (ended step acts r \<longrightarrow> r \<in> set rs)"
proof (induction as arbitrary: n s rs)
  case Nil
  then obtain m where "n = Suc m" by (cases n) auto
  with Nil show ?case by (auto simp: ended_def)
next
  case (Cons a as)
  from Cons.prems(1) obtain m where n: "n = Suc m" by (cases n) auto
  from Cons.prems(3) obtain r1 where r1: "step a s = Some r1" by (cases "step a s") auto
  have "r1 \<in> set (results step acts s)" using Cons.prems(2) r1 by (intro results_step) auto
  from explore_step [OF Cons.prems(1) [unfolded n] this] obtain ys where
    ys: "(case r1 of Inl e \<Rightarrow> Some [Inl e] | Inr s' \<Rightarrow> explore step acts m s') = Some ys" "set ys \<subseteq> set rs" by blast
  show ?case
  proof (cases r1)
    case (Inl e)
    with Cons.prems(3) r1 ys n show ?thesis by (auto split: if_splits)
  next
    case (Inr s')
    with ys Cons.prems r1 Cons.IH [of m s' ys] n show ?thesis by auto
  qed
qed

text \<open>A run that has not ended can go on.\<close>

lemma not_ended_goes_on:
  assumes "run_schedule step as s = Some r" "\<not> ended step acts r"
  shows "\<exists>a \<in> set acts. \<exists>r'. run_schedule step (as @ [a]) s = Some r'"
proof -
  from assms(2) obtain s' where s': "r = Inr s'" "results step acts s' \<noteq> []" by (auto simp: ended_def split: sum.splits)
  then obtain a r' where a: "a \<in> set acts" "step a s' = Some r'"
    by (auto simp: results_def List.map_filter_def filter_empty_conv)
  have "run_schedule step (as @ [a]) s = Some r'"
    using assms(1) s'(1) a(2)
    by (induction as arbitrary: s) (auto split: option.splits sum.splits if_splits)
  with a(1) show ?thesis by blast
qed

end
