(* ===== verification/Concurrent_Clients.thy ===== *)
theory Concurrent_Clients
  imports Cache_Spec Schedules
begin

text \<open>
  Several connections on one storage.  A command (src/src/execute) is one operation of the storage or several, and the threads
  of the servers interleave between them.  \<open>command_step\<close> is a command up to its next operation; executed alone it is
  \<open>Command_Execute\<close>.  \<open>client_step\<close> makes an operation in one step.  That this is right is shown of \<open>lock_step\<close>, where an
  operation takes the mutex \<open>_lock\<close> of the storage (MapBasedGlobalLockImpl.cpp), reads the storage, writes it and gives the
  mutex back in four steps, between which the other threads run.
\<close>

section \<open>Commands, one operation at a time\<close>

text \<open>What a command has left to do: all of it, the \<open>Put\<close> of \<open>append\<close>, the \<open>Set\<close> of \<open>replace\<close>, or the rest of the keys.\<close>

datatype progress = Begun command string | Append_put insert_command string | Replace_set insert_command string
  | Get_more "string list" string string

definition get_step ::
  "'s storage_ops \<Rightarrow> string list \<Rightarrow> string \<Rightarrow> string \<Rightarrow> 's \<Rightarrow> ub + 's \<times> (progress + string)" where
  "get_step ops ks val out s =
     (case ks of
        [] \<Rightarrow> Inr (s, Inr (out @ ''END''))
      | key # ks' \<Rightarrow>
          res_bind (op_Get ops s key val) (\<lambda>(s', val', found).
            let out' = (if \<not> found then out else out @ value_item key val')
            in Inr (s', if ks' = [] then Inr (out' @ ''END'') else Inl (Get_more ks' val' out'))))"

text \<open>The next operation: what is left afterwards, or the reply.\<close>

fun command_step :: "'s storage_ops \<Rightarrow> progress \<Rightarrow> 's \<Rightarrow> ub + 's \<times> (progress + string)" where
  "command_step ops (Begun (Set_cmd c) args) s =
     res_bind (op_Put ops s (ic_key c) args) (\<lambda>(s', _). Inr (s', Inr ''STORED''))"
| "command_step ops (Begun (Add_cmd c) args) s =
     res_bind (op_PutIfAbsent ops s (ic_key c) args) (\<lambda>(s', stored).
       Inr (s', Inr (if stored then ''STORED'' else ''NOT_STORED'')))"
| "command_step ops (Begun (Append_cmd c) args) s =
     res_bind (op_Get ops s (ic_key c) []) (\<lambda>(s', value, found).
       Inr (s', if \<not> found then Inr ''NOT_STORED'' else Inl (Append_put c (value @ args))))"
| "command_step ops (Begun (Replace_cmd c) args) s =
     res_bind (op_Get ops s (ic_key c) []) (\<lambda>(s', value, found).
       Inr (s', if found then Inl (Replace_set c args) else Inr ''NOT_STORED''))"
| "command_step ops (Begun (Get_cmd ks) args) s = get_step ops ks [] [] s"
| "command_step ops (Begun Stats_cmd args) s = Inr (s, Inr ''END'')"
| "command_step ops (Append_put c value) s =
     res_bind (op_Put ops s (ic_key c) value) (\<lambda>(s', _). Inr (s', Inr ''STORED''))"
| "command_step ops (Replace_set c args) s =
     res_bind (op_Set ops s (ic_key c) args) (\<lambda>(s', _). Inr (s', Inr ''STORED''))"
| "command_step ops (Get_more ks val out) s = get_step ops ks val out s"

fun ops_left :: "progress \<Rightarrow> nat" where
  "ops_left (Begun (Get_cmd ks) args) = Suc (length ks)"
| "ops_left (Begun cmd args) = 2"
| "ops_left (Get_more ks val out) = length ks"
| "ops_left p = 1"

lemma command_step_left: "command_step ops p s = Inr (s', Inl p') \<Longrightarrow> ops_left p' < ops_left p"
  by (induction ops p s rule: command_step.induct)
     (auto simp: res_simps get_step_def Let_def split: list.splits if_splits)

function command_alone :: "'s storage_ops \<Rightarrow> progress \<Rightarrow> 's \<Rightarrow> ub + 's \<times> string" where
  "command_alone ops p s =
     (case command_step ops p s of
        Inl u \<Rightarrow> Inl u
      | Inr (s', Inr out) \<Rightarrow> Inr (s', out)
      | Inr (s', Inl p') \<Rightarrow> command_alone ops p' s')"
  by pat_completeness auto
termination by (relation "measure (\<lambda>(ops, p, s). ops_left p)") (auto dest: command_step_left)

declare command_alone.simps [simp del]

lemma alone_cong:
  assumes "command_step ops p s = command_step ops q s"
  shows "command_alone ops p s = command_alone ops q s"
  unfolding command_alone.simps [of ops p] command_alone.simps [of ops q] assms ..

lemma get_alone: "ks \<noteq> [] \<Longrightarrow> command_alone ops (Get_more ks val out) s = Get_loop ops s ks val out"
proof (induction ks arbitrary: val out s)
  case (Cons k ks)
  show ?case
  proof (cases "op_Get ops s k val")
    case (Inr r)
    then show ?thesis using Cons.IH
      by (subst command_alone.simps) (auto simp: get_step_def Let_def split: prod.splits)
  qed (subst command_alone.simps, simp add: get_step_def)
qed simp

text \<open>Alone, a command is what \<open>Command_Execute\<close> says.\<close>

lemma command_alone_Execute: "command_alone ops (Begun cmd args) s = Command_Execute ops cmd s args"
proof (cases cmd)
  case (Set_cmd c)
  then show ?thesis
    by (subst command_alone.simps) (cases "op_Put ops s (ic_key c) args", auto simp: Set_Execute_def)
next
  case (Add_cmd c)
  then show ?thesis
    by (subst command_alone.simps) (cases "op_PutIfAbsent ops s (ic_key c) args", auto simp: Add_Execute_def)
next
  case (Append_cmd c)
  have put: "command_alone ops (Append_put c v) t = res_bind (op_Put ops t (ic_key c) v) (\<lambda>(s2, _). Inr (s2, ''STORED''))" for v t
    by (subst command_alone.simps) (cases "op_Put ops t (ic_key c) v", auto)
  show ?thesis unfolding Append_cmd
    by (subst command_alone.simps) (cases "op_Get ops s (ic_key c) []", auto simp: Append_Execute_def put)
next
  case (Replace_cmd c)
  have set: "command_alone ops (Replace_set c v) t = res_bind (op_Set ops t (ic_key c) v) (\<lambda>(s2, _). Inr (s2, ''STORED''))" for v t
    by (subst command_alone.simps) (cases "op_Set ops t (ic_key c) v", auto)
  show ?thesis unfolding Replace_cmd
    by (subst command_alone.simps) (cases "op_Get ops s (ic_key c) []", auto simp: Replace_Execute_def set)
next
  case (Get_cmd ks)
  have "command_alone ops (Begun (Get_cmd ks) args) s = Get_loop ops s ks [] []"
  proof (cases ks)
    case (Cons k ks')
    then have "command_alone ops (Begun (Get_cmd ks) args) s = command_alone ops (Get_more ks [] []) s"
      by (intro alone_cong) simp
    then show ?thesis using get_alone [of ks] Cons by simp
  qed (subst command_alone.simps, simp add: get_step_def)
  then show ?thesis by (simp add: Get_cmd Get_Execute_def)
next
  case Stats_cmd
  then show ?thesis by (subst command_alone.simps) (simp add: Stats_Execute_def)
qed

section \<open>Clients\<close>

record 's clients =
  cl_store :: 's
  cl_busy :: "nat \<Rightarrow> progress option"
  cl_todo :: "nat \<Rightarrow> (command \<times> string) list"
  cl_replies :: "nat \<Rightarrow> string list"

definition new_clients :: "'s \<Rightarrow> (nat \<Rightarrow> (command \<times> string) list) \<Rightarrow> 's clients" where
  "new_clients s todo = \<lparr>cl_store = s, cl_busy = (\<lambda>_. None), cl_todo = todo, cl_replies = (\<lambda>_. [])\<rparr>"

definition operate :: "'s storage_ops \<Rightarrow> nat \<Rightarrow> progress \<Rightarrow> 's clients \<Rightarrow> ub + 's clients" where
  "operate ops i p st =
     res_bind (command_step ops p (cl_store st)) (\<lambda>(s', r).
       Inr (case r of
              Inl p' \<Rightarrow> st\<lparr>cl_store := s', cl_busy := (cl_busy st)(i := Some p')\<rparr>
            | Inr out \<Rightarrow> st\<lparr>cl_store := s', cl_busy := (cl_busy st)(i := None),
                          cl_replies := (cl_replies st)(i := cl_replies st i @ [out])\<rparr>))"

text \<open>The connection \<open>i\<close> makes its next operation; \<open>None\<close> when it has nothing to do.\<close>

definition client_step :: "'s storage_ops \<Rightarrow> nat \<Rightarrow> 's clients \<Rightarrow> (ub + 's clients) option" where
  "client_step ops i st =
     (case cl_busy st i of
        Some p \<Rightarrow> Some (operate ops i p st)
      | None \<Rightarrow>
          (case cl_todo st i of
             [] \<Rightarrow> None
           | (cmd, args) # cs \<Rightarrow> Some (operate ops i (Begun cmd args) (st\<lparr>cl_todo := (cl_todo st)(i := cs)\<rparr>))))"

section \<open>The mutex of the storage\<close>

text \<open>
  Where a thread is in an operation: outside, holding the mutex, holding it with what it read of the storage, or
  holding it with everything written.  The mutex is its owner.
\<close>

datatype 's lock_pc = Outside | Inside | Loaded 's | Written

record 's locked =
  lk_clients :: "'s clients"
  lk_owner :: "nat option"
  lk_pc :: "nat \<Rightarrow> 's lock_pc"

definition new_locked :: "'s \<Rightarrow> (nat \<Rightarrow> (command \<times> string) list) \<Rightarrow> 's locked" where
  "new_locked s todo = \<lparr>lk_clients = new_clients s todo, lk_owner = None, lk_pc = (\<lambda>_. Outside)\<rparr>"

definition next_op :: "'s clients \<Rightarrow> nat \<Rightarrow> progress option" where
  "next_op st i =
     (case cl_busy st i of
        Some p \<Rightarrow> Some p
      | None \<Rightarrow> (case cl_todo st i of [] \<Rightarrow> None | (cmd, args) # cs \<Rightarrow> Some (Begun cmd args)))"

text \<open>\<open>stats\<close> and a \<open>get\<close> without a key left do not touch the storage, nor its mutex.\<close>

fun locks :: "progress \<Rightarrow> bool" where
  "locks (Begun (Get_cmd ks) args) \<longleftrightarrow> ks \<noteq> []"
| "locks (Begun Stats_cmd args) \<longleftrightarrow> False"
| "locks (Get_more ks val out) \<longleftrightarrow> ks \<noteq> []"
| "locks p \<longleftrightarrow> True"

text \<open>
  The next step of the thread of the connection \<open>i\<close>; \<open>None\<close> when it has nothing to do or waits for the mutex.  What it
  writes is computed from what it read, whatever others wrote since.
\<close>

definition lock_step :: "'s storage_ops \<Rightarrow> nat \<Rightarrow> 's locked \<Rightarrow> (ub + 's locked) option" where
  "lock_step ops i st =
     (case lk_pc st i of
        Outside \<Rightarrow>
          (case next_op (lk_clients st) i of
             None \<Rightarrow> None
           | Some p \<Rightarrow>
               if \<not> locks p then map_option (map_sum id (\<lambda>c. st\<lparr>lk_clients := c\<rparr>)) (client_step ops i (lk_clients st))
               else if lk_owner st = None then Some (Inr (st\<lparr>lk_owner := Some i, lk_pc := (lk_pc st)(i := Inside)\<rparr>))
               else None)
      | Inside \<Rightarrow> Some (Inr (st\<lparr>lk_pc := (lk_pc st)(i := Loaded (cl_store (lk_clients st)))\<rparr>))
      | Loaded s \<Rightarrow>
          map_option (map_sum id (\<lambda>c. st\<lparr>lk_clients := c, lk_pc := (lk_pc st)(i := Written)\<rparr>))
            (client_step ops i ((lk_clients st)\<lparr>cl_store := s\<rparr>))
      | Written \<Rightarrow> Some (Inr (st\<lparr>lk_owner := None, lk_pc := (lk_pc st)(i := Outside)\<rparr>)))"

text \<open>Only the owner is inside, what it read is still the storage, and it has an operation to make.\<close>

definition lock_ok :: "'s locked \<Rightarrow> bool" where
  "lock_ok st \<longleftrightarrow> (\<forall>i. lk_pc st i \<noteq> Outside \<longleftrightarrow> lk_owner st = Some i) \<and>
     (\<forall>i s. lk_pc st i = Loaded s \<longrightarrow> s = cl_store (lk_clients st)) \<and>
     (\<forall>i. lk_pc st i = Inside \<or> (\<exists>s. lk_pc st i = Loaded s) \<longrightarrow> next_op (lk_clients st) i \<noteq> None)"

lemma client_step_None: "client_step ops i st = None \<longleftrightarrow> next_op st i = None"
  by (auto simp: client_step_def next_op_def split: option.splits list.splits)

lemma lock_ok_new: "lock_ok (new_locked s todo)"
  by (simp add: lock_ok_def new_locked_def)

lemma operate_others:
  assumes "operate ops i p st = Inr st1"
  shows "j \<noteq> i \<Longrightarrow> cl_busy st1 j = cl_busy st j" "cl_todo st1 = cl_todo st"
proof -
  from assms obtain s' x where "command_step ops p (cl_store st) = Inr (s', x)" by (auto simp: operate_def res_simps)
  then show "j \<noteq> i \<Longrightarrow> cl_busy st1 j = cl_busy st j" "cl_todo st1 = cl_todo st"
    using assms by (auto simp: operate_def split: sum.splits)
qed

lemma client_step_others:
  assumes "client_step ops i st = Some (Inr st1)" "j \<noteq> i"
  shows "next_op st1 j = next_op st j"
proof -
  have o: "cl_busy st1 j = cl_busy st j" "cl_todo st1 j = cl_todo st j"
    using assms by (auto simp: client_step_def operate_others split: option.splits list.splits)
  show ?thesis unfolding next_op_def o ..
qed

text \<open>A step that touches no storage leaves it as it is.\<close>

lemma unlocked_step:
  assumes "next_op st i = Some p" "\<not> locks p" "client_step ops i st = Some (Inr st1)"
  shows "cl_store st1 = cl_store st"
proof -
  obtain st0 where st0: "operate ops i p st0 = Inr st1" "cl_store st0 = cl_store st"
    using assms(1,3) by (auto simp: client_step_def next_op_def split: option.splits list.splits)
  then obtain s' x where c: "command_step ops p (cl_store st) = Inr (s', x)" by (auto simp: operate_def res_simps)
  then have "s' = cl_store st" using assms(2) by (cases p rule: locks.cases) (auto simp: get_step_def)
  then show ?thesis using st0 c by (auto simp: operate_def split: sum.splits)
qed

text \<open>A step of a thread is a step of the clients or changes nothing of them, and keeps the discipline.\<close>

lemma lock_step_simulates:
  assumes "lock_ok st" "lock_step ops i st = Some r"
  shows "(\<exists>st1. r = Inr st1 \<and> lk_clients st1 = lk_clients st \<or> client_step ops i (lk_clients st) = Some (map_sum id lk_clients r)) \<and>
    (\<forall>st1. r = Inr st1 \<longrightarrow> lock_ok st1)"
proof (cases "lk_pc st i")
  case Outside
  then obtain p where p: "next_op (lk_clients st) i = Some p" using assms(2) by (auto simp: lock_step_def split: option.splits)
  show ?thesis
  proof (cases "locks p")
    case True
    then have "lk_owner st = None" "r = Inr (st\<lparr>lk_owner := Some i, lk_pc := (lk_pc st)(i := Inside)\<rparr>)"
      using assms(2) Outside p by (auto simp: lock_step_def split: if_splits)
    with assms(1) p show ?thesis by (auto simp: lock_ok_def)
  next
    case False
    then obtain r0 where r0: "client_step ops i (lk_clients st) = Some r0" "r = map_sum id (\<lambda>c. st\<lparr>lk_clients := c\<rparr>) r0"
      using assms(2) Outside p by (auto simp: lock_step_def)
    show ?thesis
    proof (cases r0)
      case (Inr c)
      with unlocked_step [OF p False] client_step_others r0 have "cl_store c = cl_store (lk_clients st)"
        "\<forall>j. j \<noteq> i \<longrightarrow> next_op c j = next_op (lk_clients st) j" by auto
      with assms(1) Outside r0 Inr show ?thesis unfolding lock_ok_def by (auto, metis lock_pc.distinct(1), metis lock_pc.distinct(3))
    qed (use r0 in auto)
  qed
next
  case Inside
  then have r: "r = Inr (st\<lparr>lk_pc := (lk_pc st)(i := Loaded (cl_store (lk_clients st)))\<rparr>)" using assms(2) by (simp add: lock_step_def)
  from assms(1) Inside show ?thesis unfolding r lock_ok_def by (auto split: if_splits)
next
  case (Loaded s)
  then have s: "s = cl_store (lk_clients st)" using assms(1) unfolding lock_ok_def by blast
  then obtain r0 where r0: "client_step ops i (lk_clients st) = Some r0"
    "r = map_sum id (\<lambda>c. st\<lparr>lk_clients := c, lk_pc := (lk_pc st)(i := Written)\<rparr>) r0"
    using assms(2) Loaded by (auto simp: lock_step_def)
  show ?thesis
  proof (cases r0)
    case (Inr c)
    have o: "lk_owner st = Some i" using assms(1) Loaded unfolding lock_ok_def by (metis lock_pc.distinct(3))
    have "lk_pc st j = Outside" if "j \<noteq> i" for j using assms(1) o that unfolding lock_ok_def by (metis option.inject)
    with assms(1) o r0 Inr show ?thesis by (auto simp: lock_ok_def)
  qed (use r0 in auto)
next
  case Written
  then have r: "r = Inr (st\<lparr>lk_owner := None, lk_pc := (lk_pc st)(i := Outside)\<rparr>)" using assms(2) by (simp add: lock_step_def)
  have o: "lk_owner st = Some i" using assms(1) Written unfolding lock_ok_def by (metis lock_pc.distinct(5))
  have "lk_pc st j = Outside" if "j \<noteq> i" for j using assms(1) o that unfolding lock_ok_def by (metis option.inject)
  then show ?thesis by (auto simp: r lock_ok_def)
qed

text \<open>Every run of the threads is a run of the clients, one step for every operation.\<close>

lemma lock_run_simulates:
  "lock_ok st \<Longrightarrow> run_schedule (lock_step ops) sched st = Some r \<Longrightarrow>
   \<exists>sched'. run_schedule (client_step ops) sched' (lk_clients st) = Some (map_sum id lk_clients r) \<and>
     (\<forall>st'. r = Inr st' \<longrightarrow> lock_ok st')"
proof (induction sched arbitrary: st)
  case Nil
  then show ?case by (intro exI [of _ "[]"]) auto
next
  case (Cons i sched)
  from Cons.prems(2) obtain r1 where r1: "lock_step ops i st = Some r1" by (cases "lock_step ops i st") auto
  note sim = lock_step_simulates [OF Cons.prems(1) r1]
  show ?case
  proof (cases r1)
    case (Inl u)
    with sim r1 Cons.prems(2) have "run_schedule (client_step ops) [i] (lk_clients st) = Some (map_sum id lk_clients r)" "r = Inl u"
      by (auto split: if_splits)
    then show ?thesis by (intro exI [of _ "[i]"]) simp
  next
    case (Inr st1)
    with sim Cons.prems(2) r1 have st1: "lock_ok st1" "run_schedule (lock_step ops) sched st1 = Some r"
      "lk_clients st1 = lk_clients st \<or> client_step ops i (lk_clients st) = Some (Inr (lk_clients st1))" by auto
    from Cons.IH [OF st1(1,2)] obtain sched' where
      s: "run_schedule (client_step ops) sched' (lk_clients st1) = Some (map_sum id lk_clients r)" "\<forall>st'. r = Inr st' \<longrightarrow> lock_ok st'"
      by blast
    show ?thesis
    proof (cases "lk_clients st1 = lk_clients st")
      case True
      with s show ?thesis by (simp only:) blast
    next
      case False
      with st1(3) s(1) have "run_schedule (client_step ops) (i # sched') (lk_clients st) = Some (map_sum id lk_clients r)" by simp
      with s(2) show ?thesis by blast
    qed
  qed
qed

text \<open>The threads do not block each other for ever: one can go on, or nobody has anything to do.\<close>

lemma lock_progress:
  assumes "lock_ok st"
  shows "(\<exists>i. lock_step ops i st \<noteq> None) \<or> (\<forall>i. next_op (lk_clients st) i = None \<and> lk_pc st i = Outside)"
proof (cases "lk_owner st")
  case (Some i)
  with assms have "lk_pc st i \<noteq> Outside" unfolding lock_ok_def by blast
  then have "lock_step ops i st \<noteq> None"
  proof (cases "lk_pc st i")
    case (Loaded s)
    then have "s = cl_store (lk_clients st)" "next_op (lk_clients st) i \<noteq> None" using assms unfolding lock_ok_def by blast+
    then show ?thesis using Loaded client_step_None [of ops i "lk_clients st"] by (simp add: lock_step_def)
  qed (simp_all add: lock_step_def)
  then show ?thesis by blast
next
  case None
  have out: "lk_pc st i = Outside" for i using assms None unfolding lock_ok_def by (metis option.distinct(1))
  have "lock_step ops i st \<noteq> None" if "next_op (lk_clients st) i = Some p" for i p
    using that out None client_step_None [of ops i "lk_clients st"] by (simp add: lock_step_def)
  with out show ?thesis by (metis option.exhaust)
qed

section \<open>Commands of one operation\<close>

fun one_operation :: "command \<Rightarrow> bool" where
  "one_operation (Get_cmd ks) \<longleftrightarrow> length ks \<le> 1"
| "one_operation (Append_cmd c) \<longleftrightarrow> False"
| "one_operation (Replace_cmd c) \<longleftrightarrow> False"
| "one_operation _ \<longleftrightarrow> True"

lemma one_operation_step:
  assumes "one_operation cmd" "command_step ops (Begun cmd args) s = Inr (s', r)"
  shows "\<exists>out. r = Inr out \<and> Command_Execute ops cmd s args = Inr (s', out)"
proof -
  have "\<exists>out. r = Inr out"
    using assms by (cases cmd) (auto simp: res_simps get_step_def Let_def split: list.splits if_splits)
  then show ?thesis
    using assms(2) command_alone_Execute [of ops cmd args s] by (auto simp: command_alone.simps)
qed

text \<open>The commands and replies of a run, in the order they took effect, with the connection they belong to.\<close>

type_synonym history = "(nat \<times> (command \<times> string) \<times> string) list"

abbreviation of_client :: "nat \<Rightarrow> history \<Rightarrow> history" where
  "of_client i h \<equiv> filter (\<lambda>x. fst x = i) h"

abbreviation history_commands :: "history \<Rightarrow> (command \<times> string) list" where
  "history_commands h \<equiv> map (\<lambda>x. fst (snd x)) h"

abbreviation history_replies :: "history \<Rightarrow> string list" where
  "history_replies h \<equiv> map (\<lambda>x. snd (snd x)) h"

definition idle_clients :: "'s clients \<Rightarrow> bool" where
  "idle_clients st \<longleftrightarrow> (\<forall>i. cl_busy st i = None) \<and> (\<forall>i. \<forall>(cmd, args) \<in> set (cl_todo st i). one_operation cmd)"

text \<open>\<open>h\<close> explains the run from \<open>st\<close> to \<open>st'\<close> as one session, in which every client finds its own commands and replies.\<close>

definition explains :: "'s storage_ops \<Rightarrow> 's clients \<Rightarrow> history \<Rightarrow> 's clients \<Rightarrow> bool" where
  "explains ops st h st' \<longleftrightarrow>
     run_session ops (cl_store st) (history_commands h) = Inr (cl_store st', history_replies h) \<and>
     (\<forall>i. cl_todo st i = history_commands (of_client i h) @ cl_todo st' i) \<and>
     (\<forall>i. cl_replies st' i = cl_replies st i @ history_replies (of_client i h))"

lemma idle_step:
  assumes "idle_clients st" "client_step ops i st = Some (Inr st1)"
  shows "\<exists>cmd args out. explains ops st [(i, (cmd, args), out)] st1 \<and> idle_clients st1"
proof -
  have b: "cl_busy st i = None" using assms(1) by (simp add: idle_clients_def)
  with assms(2) obtain cmd args cs where t1: "cl_todo st i = (cmd, args) # cs"
    by (cases "cl_todo st i") (auto simp: client_step_def)
  have "\<forall>(cmd, args) \<in> set (cl_todo st i). one_operation cmd" using assms(1) unfolding idle_clients_def by blast
  then have t: "cl_todo st i = (cmd, args) # cs" "one_operation cmd" using t1 by auto
  with assms(2) b obtain s' r where c: "command_step ops (Begun cmd args) (cl_store st) = Inr (s', r)"
    by (auto simp: client_step_def operate_def res_simps)
  from one_operation_step [OF t(2) c] obtain out where
    o: "r = Inr out" "Command_Execute ops cmd (cl_store st) args = Inr (s', out)" by blast
  have "st1 = st\<lparr>cl_todo := (cl_todo st)(i := cs), cl_store := s', cl_busy := (cl_busy st)(i := None),
      cl_replies := (cl_replies st)(i := cl_replies st i @ [out])\<rparr>"
    using assms(2) b t(1) c o(1) by (simp add: client_step_def operate_def)
  moreover have "\<forall>j. \<forall>(cmd, args) \<in> set (((cl_todo st)(i := cs)) j). one_operation cmd"
    using assms(1) t(1) unfolding idle_clients_def by (metis fun_upd_apply set_subset_Cons subset_iff)
  ultimately have "explains ops st [(i, (cmd, args), out)] st1 \<and> idle_clients st1"
    using assms(1) t o by (simp add: explains_def idle_clients_def)
  then show ?thesis by blast
qed

lemma run_session_append:
  "run_session ops s (xs @ ys) = res_bind (run_session ops s xs) (\<lambda>(s1, outs1).
     res_bind (run_session ops s1 ys) (\<lambda>(s2, outs2). Inr (s2, outs1 @ outs2)))"
  by (induction xs arbitrary: s) (auto simp: res_bind_def split: sum.splits prod.splits)

lemma explains_Cons:
  assumes "explains ops st [x] st1" "explains ops st1 h st2"
  shows "explains ops st (x # h) st2"
  using assms run_session_append [of ops "cl_store st" "[fst (snd x)]" "history_commands h"] by (auto simp: explains_def)

lemma idle_run_explained:
  "idle_clients st \<Longrightarrow> run_schedule (client_step ops) sched st = Some (Inr st') \<Longrightarrow> \<exists>h. explains ops st h st'"
proof (induction sched arbitrary: st)
  case Nil
  then show ?case by (intro exI [of _ "[]"]) (simp add: explains_def)
next
  case (Cons i sched)
  from Cons.prems(2) obtain st1 where st1: "client_step ops i st = Some (Inr st1)"
    "run_schedule (client_step ops) sched st1 = Some (Inr st')" by (auto split: option.splits sum.splits if_splits)
  from idle_step [OF Cons.prems(1) st1(1)] obtain x where x: "explains ops st [x] st1" "idle_clients st1" by blast
  with Cons.IH [OF x(2) st1(2)] explains_Cons [OF x(1)] show ?case by blast
qed

section \<open>All commands\<close>

text \<open>
  \<open>W k\<close> are the values that may be under the key \<open>k\<close>: those the commands bring for it, closed under \<open>append\<close>.
\<close>

fun allows :: "(string \<Rightarrow> string set) \<Rightarrow> command \<Rightarrow> string \<Rightarrow> bool" where
  "allows W (Set_cmd c) args \<longleftrightarrow> args \<in> W (ic_key c)"
| "allows W (Add_cmd c) args \<longleftrightarrow> args \<in> W (ic_key c)"
| "allows W (Replace_cmd c) args \<longleftrightarrow> args \<in> W (ic_key c)"
| "allows W (Append_cmd c) args \<longleftrightarrow> (\<forall>v \<in> W (ic_key c). v @ args \<in> W (ic_key c))"
| "allows W cmd args \<longleftrightarrow> True"

fun pending_ok :: "(string \<Rightarrow> string set) \<Rightarrow> progress \<Rightarrow> bool" where
  "pending_ok W (Begun cmd args) \<longleftrightarrow> allows W cmd args"
| "pending_ok W (Append_put c v) \<longleftrightarrow> v \<in> W (ic_key c)"
| "pending_ok W (Replace_set c v) \<longleftrightarrow> v \<in> W (ic_key c)"
| "pending_ok W (Get_more ks val out) \<longleftrightarrow> True"

definition within :: "(string \<Rightarrow> string set) \<Rightarrow> (string \<rightharpoonup> string) \<Rightarrow> bool" where
  "within W m \<longleftrightarrow> (\<forall>k. set_option (m k) \<subseteq> W k)"

lemma within_stored:
  assumes "within W m" "m' k = Some v" "may_forget m m' k" "v \<in> W k"
  shows "within W m'"
  unfolding within_def
proof (intro allI subsetI)
  fix k' x assume "x \<in> set_option (m' k')"
  then have "m' k' = Some x" by (simp add: elem_set)
  moreover have "m k' = Some x" if "k' \<noteq> k" using may_forgetD [OF assms(3) that] calculation by blast
  ultimately show "x \<in> W k'" using assms by (cases "k' = k") (auto simp: within_def)
qed

definition clients_ok :: "('s \<Rightarrow> bool) \<Rightarrow> ('s \<Rightarrow> string \<rightharpoonup> string) \<Rightarrow> (string \<Rightarrow> string set) \<Rightarrow> 's clients \<Rightarrow> bool" where
  "clients_ok ok look W st \<longleftrightarrow> ok (cl_store st) \<and> within W (look (cl_store st)) \<and>
     (\<forall>i p. cl_busy st i = Some p \<longrightarrow> pending_ok W p) \<and>
     (\<forall>i. \<forall>(cmd, args) \<in> set (cl_todo st i). allows W cmd args)"

context storage_contract
begin

lemma get_step_keeps:
  assumes "inv s" "get_step ops ks val out s = Inr (s', r)"
  shows "inv s' \<and> lookup s' = lookup s \<and> (\<forall>p. r = Inl p \<longrightarrow> pending_ok W p)"
  using assms by (auto simp: get_step_def Let_def res_simps dest: get_inv get_lookup split: list.splits if_splits)

lemma store_within:
  assumes "inv s" "within W (lookup s)" "v \<in> W k"
  shows "op_Put ops s k v = Inr (s', b) \<Longrightarrow> inv s' \<and> within W (lookup s')"
    and "op_PutIfAbsent ops s k v = Inr (s', b) \<Longrightarrow> inv s' \<and> within W (lookup s')"
    and "op_Set ops s k v = Inr (s', b) \<Longrightarrow> inv s' \<and> within W (lookup s')"
  using assms put_stored [OF assms(1)] put_refused [OF assms(1)] put_if_absent_stored [OF assms(1)]
    put_if_absent_refused [OF assms(1)] set_stored [OF assms(1)] set_refused [OF assms(1)]
  by (cases b, fastforce intro: within_stored, fastforce)+

text \<open>The first operation of \<open>append\<close> and \<open>replace\<close> reads; what \<open>append\<close> reads is an allowed value.\<close>

lemma read_within:
  assumes "inv s" "within W (lookup s)" "op_Get ops s k [] = Inr (s', v, found)"
  shows "inv s' \<and> within W (lookup s') \<and> (found \<longrightarrow> v \<in> W k)"
proof -
  have "found \<Longrightarrow> lookup s k = Some v" using get_hit [OF assms(1)] assms(3) by (cases found) auto
  then show ?thesis
    using get_inv [OF assms(1,3)] get_lookup [OF assms(1,3)] assms(2) by (auto simp: within_def)
qed

lemma command_step_within:
  assumes "inv s" "within W (lookup s)" "pending_ok W p" "command_step ops p s = Inr (s', r)"
  shows "inv s' \<and> within W (lookup s') \<and> (\<forall>p'. r = Inl p' \<longrightarrow> pending_ok W p')"
proof (cases p)
  case (Begun cmd args)
  show ?thesis
  proof (cases cmd)
    case (Append_cmd c)
    with Begun assms(4) obtain v found where g: "op_Get ops s (ic_key c) [] = Inr (s', v, found)"
      "r = (if \<not> found then Inr ''NOT_STORED'' else Inl (Append_put c (v @ args)))" by (auto simp: res_simps)
    with read_within [OF assms(1,2) g(1)] assms(3) Begun Append_cmd show ?thesis by auto
  next
    case (Replace_cmd c)
    with Begun assms(4) obtain v found where g: "op_Get ops s (ic_key c) [] = Inr (s', v, found)"
      "r = (if found then Inl (Replace_set c args) else Inr ''NOT_STORED'')" by (auto simp: res_simps)
    with read_within [OF assms(1,2) g(1)] assms(3) Begun Replace_cmd show ?thesis by auto
  next
    case (Get_cmd ks)
    with Begun get_step_keeps [OF assms(1), of ks "[]" "[]" s' r W] assms(2,4) show ?thesis by auto
  qed (use Begun assms(2-4) store_within [OF assms(1,2)] assms(1) in \<open>auto simp: res_simps\<close>)
next
  case (Get_more ks val out)
  with get_step_keeps [OF assms(1), of ks val out s' r W] assms(2,4) show ?thesis by auto
qed (use assms(2-4) store_within [OF assms(1,2)] in \<open>auto simp: res_simps\<close>)

lemma operate_ok:
  assumes "clients_ok inv lookup W st" "pending_ok W p" "operate ops i p st = Inr st1"
  shows "clients_ok inv lookup W st1"
proof -
  from assms(3) obtain s' r where c: "command_step ops p (cl_store st) = Inr (s', r)" by (auto simp: operate_def res_simps)
  have "inv (cl_store st)" "within W (lookup (cl_store st))" using assms(1) by (simp_all add: clients_ok_def)
  note w = command_step_within [OF this assms(2) c]
  have st1: "cl_store st1 = s'" "cl_todo st1 = cl_todo st"
    "cl_busy st1 = (cl_busy st)(i := (case r of Inl p' \<Rightarrow> Some p' | Inr out \<Rightarrow> None))"
    using assms(3) c by (auto simp: operate_def split: sum.splits)
  show ?thesis using assms(1) w unfolding clients_ok_def st1 by (auto split: sum.splits)
qed

lemma clients_ok_step:
  assumes "clients_ok inv lookup W st" "client_step ops i st = Some (Inr st1)"
  shows "clients_ok inv lookup W st1"
proof (cases "cl_busy st i")
  case None
  then obtain cmd args cs where t: "cl_todo st i = (cmd, args) # cs"
    using assms(2) by (cases "cl_todo st i") (auto simp: client_step_def)
  let ?st = "st\<lparr>cl_todo := (cl_todo st)(i := cs)\<rparr>"
  have a: "\<forall>(cmd, args) \<in> set (cl_todo st j). allows W cmd args" for j using assms(1) unfolding clients_ok_def by blast
  have "clients_ok inv lookup W ?st" using assms(1) a [of i] t unfolding clients_ok_def by simp
  moreover have "pending_ok W (Begun cmd args)" using a [of i] t by simp
  moreover have "operate ops i (Begun cmd args) ?st = Inr st1" using assms(2) None t by (simp add: client_step_def)
  ultimately show ?thesis by (rule operate_ok)
next
  case (Some p)
  then have "pending_ok W p" using assms(1) unfolding clients_ok_def by blast
  moreover have "operate ops i p st = Inr st1" using assms(2) Some by (simp add: client_step_def)
  ultimately show ?thesis using operate_ok [OF assms(1)] by blast
qed

lemma clients_ok_run:
  "clients_ok inv lookup W st \<Longrightarrow> run_schedule (client_step ops) sched st = Some (Inr st') \<Longrightarrow> clients_ok inv lookup W st'"
proof (induction sched arbitrary: st)
  case (Cons i sched)
  then obtain st1 where "client_step ops i st = Some (Inr st1)" "run_schedule (client_step ops) sched st1 = Some (Inr st')"
    by (auto split: option.splits sum.splits if_splits)
  with Cons clients_ok_step show ?case by blast
qed simp

end

section \<open>Properties\<close>

text \<open>The commands of a history are commands of the clients, and without \<open>append\<close> their data is what may be written.\<close>

lemma explains_member:
  assumes "explains ops st h st'" "x \<in> set h"
  shows "fst (snd x) \<in> set (cl_todo st (fst x))"
proof -
  have "cl_todo st (fst x) = history_commands (of_client (fst x) h) @ cl_todo st' (fst x)"
    using assms(1) by (simp add: explains_def)
  then show ?thesis using assms(2) by auto
qed

definition data_fit :: "(string \<Rightarrow> string \<Rightarrow> bool) \<Rightarrow> command \<times> string \<Rightarrow> bool" where
  "data_fit fits x \<longleftrightarrow> (\<forall>k. \<forall>v \<in> offered {} k (fst x) (snd x). fits k v)"

lemma one_operation_offered: "one_operation cmd \<Longrightarrow> offered V k cmd args = offered {} k cmd args"
  by (cases cmd) auto

lemma one_operation_fits:
  "\<forall>x \<in> set cs. one_operation (fst x) \<and> data_fit fits x \<Longrightarrow> data_fits fits V cs"
proof (induction cs arbitrary: V)
  case (Cons x cs)
  obtain cmd args where x: "x = (cmd, args)" by (cases x)
  have "one_operation cmd" "\<forall>k. \<forall>v \<in> offered {} k cmd args. fits k v" using Cons.prems by (simp_all add: x data_fit_def)
  moreover from this(1) have "offered (V k) k cmd args = offered {} k cmd args" for k by (rule one_operation_offered)
  ultimately show ?case using Cons.IH Cons.prems by (simp add: x)
qed simp

text \<open>
  C10: The mutex makes the operations of the storage atomic, and commands of one operation linearizable.  However the
  threads of any number of clients interleave, between taking the mutex, reading the storage, writing it and giving the mutex
  back, and whatever commands they execute, only the owner of the mutex is inside an operation, the threads do not
  block each other for ever, and the storage, the replies and what is left to do are those of a run of whole operations one after
  the other.  When the clients use only \<open>set\<close>, \<open>add\<close>, \<open>stats\<close> and \<open>get\<close> of one key, with the flags 0, no expiration time and
  data that fits into the cache, there is one session \<open>h\<close> of all their commands, in the order of every client,
  that gives every client the replies it got and leaves the same storage; and it is a run of the specification of a cache.
\<close>

theorem concurrent_sessions_linearize:
  assumes "wf_store s" "run_schedule (lock_step lru_ops) sched (new_locked s todo) = Some (Inr st)"
  shows "(\<forall>i. lk_pc st i \<noteq> Outside \<longleftrightarrow> lk_owner st = Some i) \<and>
    ((\<exists>i. lock_step lru_ops i st \<noteq> None) \<or> (\<forall>i. next_op (lk_clients st) i = None)) \<and>
    (\<exists>sched'. run_schedule (client_step lru_ops) sched' (new_clients s todo) = Some (Inr (lk_clients st))) \<and>
    ((\<forall>i. \<forall>x \<in> set (todo i). one_operation (fst x) \<and> plain (fst x) \<and> data_fit (fits_store s) x) \<longrightarrow>
     (\<exists>h. (\<forall>i. todo i = history_commands (of_client i h) @ cl_todo (lk_clients st) i) \<and>
       (\<forall>i. cl_replies (lk_clients st) i = history_replies (of_client i h)) \<and>
       run_session lru_ops s (history_commands h) = Inr (cl_store (lk_clients st), history_replies h) \<and>
       cache_trace (fits_store s) (plain_items (lookup_store s)) (history_commands h) (history_replies h)
         (plain_items (lookup_store (cl_store (lk_clients st))))))"
proof (intro conjI impI)
  from lock_run_simulates [OF lock_ok_new assms(2)] obtain sched' where
    run: "run_schedule (client_step lru_ops) sched' (new_clients s todo) = Some (Inr (lk_clients st))" and ok: "lock_ok st"
    by (auto simp: new_locked_def)
  show "\<forall>i. lk_pc st i \<noteq> Outside \<longleftrightarrow> lk_owner st = Some i" using ok unfolding lock_ok_def by blast
  show "(\<exists>i. lock_step lru_ops i st \<noteq> None) \<or> (\<forall>i. next_op (lk_clients st) i = None)" using lock_progress [OF ok] by blast
  show "\<exists>sched'. run_schedule (client_step lru_ops) sched' (new_clients s todo) = Some (Inr (lk_clients st))" using run by blast
  assume one: "\<forall>i. \<forall>x \<in> set (todo i). one_operation (fst x) \<and> plain (fst x) \<and> data_fit (fits_store s) x"
  then have "idle_clients (new_clients s todo)" unfolding idle_clients_def by (fastforce simp: new_clients_def)
  from idle_run_explained [OF this run] obtain h where h: "explains lru_ops (new_clients s todo) h (lk_clients st)" by blast
  then have sess: "run_session lru_ops s (history_commands h) = Inr (cl_store (lk_clients st), history_replies h)"
    by (simp add: explains_def new_clients_def)
  have m: "one_operation (fst x) \<and> plain (fst x) \<and> data_fit (fits_store s) x" if "x \<in> set (history_commands h)" for x
    using explains_member [OF h] one that by (fastforce simp: new_clients_def)
  then have "\<forall>(cmd, args) \<in> set (history_commands h). plain cmd" by fastforce
  from lru_bounded.session_refines [OF assms(1) sess this one_operation_fits] m have
    "cache_trace (fits_store s) (plain_items (lookup_store s)) (history_commands h) (history_replies h)
      (plain_items (lookup_store (cl_store (lk_clients st))))" by blast
  then show "\<exists>h. (\<forall>i. todo i = history_commands (of_client i h) @ cl_todo (lk_clients st) i) \<and>
      (\<forall>i. cl_replies (lk_clients st) i = history_replies (of_client i h)) \<and>
      run_session lru_ops s (history_commands h) = Inr (cl_store (lk_clients st), history_replies h) \<and>
      cache_trace (fits_store s) (plain_items (lookup_store s)) (history_commands h) (history_replies h)
        (plain_items (lookup_store (cl_store (lk_clients st))))"
    using h sess by (intro exI [of _ h]) (simp add: explains_def new_clients_def)
qed

definition two_todo :: "(command \<times> string) list \<Rightarrow> (command \<times> string) list \<Rightarrow> nat \<Rightarrow> (command \<times> string) list" where
  "two_todo xs ys i = (if i = 0 then xs else if i = 1 then ys else [])"

definition two_replies :: "(ub + lru_store clients) option \<Rightarrow> (string list \<times> string list \<times> string option) option" where
  "two_replies r = (case r of Some (Inr st) \<Rightarrow> Some (cl_replies st 0, cl_replies st 1, lookup_store (cl_store st) ''k'') | _ \<Rightarrow> None)"

lemma two_replies_Some:
  "two_replies r = Some (xs, ys, v) \<Longrightarrow>
    \<exists>st. r = Some (Inr st) \<and> cl_replies st 0 = xs \<and> cl_replies st 1 = ys \<and> lookup_store (cl_store st) ''k'' = v"
  by (auto simp: two_replies_def split: option.splits sum.splits)

lemma two_clients_run:
  "two_replies (run_schedule (client_step lru_ops) [0, 1] (new_clients (MapBasedGlobalLockImpl 8)
     (two_todo [(new_Set ''k'' 0 0, ''hi'')] [(new_Get [''k''], [])]))) =
   Some ([''STORED''], [''VALUE k 0 2'' @ crlf @ ''hi'' @ crlf @ ''END''], Some ''hi'')"
  by code_simp

definition locked_replies :: "(ub + lru_store locked) option \<Rightarrow> (string list \<times> string list) option" where
  "locked_replies r = (case r of Some (Inr st) \<Rightarrow> Some (cl_replies (lk_clients st) 0, cl_replies (lk_clients st) 1) | _ \<Rightarrow> None)"

lemma locked_replies_Some:
  "locked_replies r = Some (xs, ys) \<Longrightarrow>
    \<exists>st. r = Some (Inr st) \<and> cl_replies (lk_clients st) 0 = xs \<and> cl_replies (lk_clients st) 1 = ys"
  by (auto simp: locked_replies_def split: option.splits sum.splits)

lemma two_locked_run:
  "locked_replies (run_schedule (lock_step lru_ops) [0, 0, 0, 0, 1, 1, 1] (new_locked (MapBasedGlobalLockImpl 8)
     (two_todo [(new_Set ''k'' 0 0, ''hi'')] [(new_Get [''k''], [])]))) =
   Some ([''STORED''], [''VALUE k 0 2'' @ crlf @ ''hi'' @ crlf @ ''END''])"
  by code_simp

theorem concurrent_sessions_linearize_witness:
  "\<exists>(st :: lru_store locked) h. cl_replies (lk_clients st) 1 = [''VALUE k 0 2'' @ crlf @ ''hi'' @ crlf @ ''END''] \<and>
    cl_replies (lk_clients st) 1 = history_replies (of_client 1 h) \<and>
    run_session lru_ops (MapBasedGlobalLockImpl 8) (history_commands h) = Inr (cl_store (lk_clients st), history_replies h)"
proof -
  obtain st where st: "run_schedule (lock_step lru_ops) [0, 0, 0, 0, 1, 1, 1] (new_locked (MapBasedGlobalLockImpl 8)
     (two_todo [(new_Set ''k'' 0 0, ''hi'')] [(new_Get [''k''], [])])) = Some (Inr st)"
    "cl_replies (lk_clients st) 1 = [''VALUE k 0 2'' @ crlf @ ''hi'' @ crlf @ ''END'']"
    using locked_replies_Some [OF two_locked_run] by blast
  have "\<forall>i. \<forall>x \<in> set (two_todo [(new_Set ''k'' 0 0, ''hi'')] [(new_Get [''k''], [])] i).
      one_operation (fst x) \<and> plain (fst x) \<and> data_fit (fits_store (MapBasedGlobalLockImpl 8)) x"
    by (simp add: two_todo_def new_Set_def new_Get_def new_InsertCommand_def data_fit_def fits_init pair_size_def)
  with concurrent_sessions_linearize [OF wf_init st(1)] obtain h where
    "\<forall>i. cl_replies (lk_clients st) i = history_replies (of_client i h)"
    "run_session lru_ops (MapBasedGlobalLockImpl 8) (history_commands h) = Inr (cl_store (lk_clients st), history_replies h)" by blast
  with st(2) show ?thesis by (intro exI [of _ st] exI [of _ h] conjI) simp_all
qed

text \<open>
  C11: In every interleaving of any commands the storage stays well-formed and a key only ever holds what was there at the
  start or what commands for this key brought: the values \<open>W k\<close>, closed under the data that \<open>append\<close> brings for \<open>k\<close>.
\<close>

theorem concurrent_values_written:
  assumes "wf_store s" "\<forall>i. \<forall>(cmd, args) \<in> set (todo i). allows W cmd args" "\<forall>k. set_option (lookup_store s k) \<subseteq> W k"
    and "run_schedule (client_step lru_ops) sched (new_clients s todo) = Some (Inr st)"
  shows "wf_store (cl_store st) \<and> (\<forall>k. set_option (lookup_store (cl_store st) k) \<subseteq> W k)"
proof -
  have "clients_ok wf_store lookup_store W (new_clients s todo)"
    using assms(1-3) by (simp add: clients_ok_def new_clients_def within_def)
  from lru.clients_ok_run [OF this assms(4)] show ?thesis by (simp add: clients_ok_def within_def)
qed

theorem concurrent_values_written_witness:
  "\<exists>st :: lru_store clients. lookup_store (cl_store st) ''k'' = Some ''hi'' \<and> wf_store (cl_store st) \<and> set_option (lookup_store (cl_store st) ''k'') \<subseteq> {''hi''}"
proof -
  let ?todo = "two_todo [(new_Set ''k'' 0 0, ''hi'')] [(new_Get [''k''], [])]" and ?W = "\<lambda>k. if k = ''k'' then {''hi''} else {}"
  obtain st where st: "run_schedule (client_step lru_ops) [0, 1] (new_clients (MapBasedGlobalLockImpl 8) ?todo) = Some (Inr st)"
    "lookup_store (cl_store st) ''k'' = Some ''hi''"
    using two_replies_Some [OF two_clients_run] by blast
  have "\<forall>i. \<forall>(cmd, args) \<in> set (?todo i). allows ?W cmd args"
    by (simp add: two_todo_def new_Set_def new_Get_def new_InsertCommand_def)
  moreover have "\<forall>k. set_option (lookup_store (MapBasedGlobalLockImpl 8) k) \<subseteq> ?W k"
    by (simp add: lookup_store_def MapBasedGlobalLockImpl_def)
  ultimately have "wf_store (cl_store st) \<and> (\<forall>k. set_option (lookup_store (cl_store st) k) \<subseteq> ?W k)"
    by (rule concurrent_values_written [OF wf_init _ _ st(1)])
  then have "wf_store (cl_store st)" "set_option (lookup_store (cl_store st) ''k'') \<subseteq> ?W ''k''" by blast+
  then show ?thesis using st(2) by (intro exI [of _ st]) simp
qed

text \<open>\<open>replace\<close> ignores the answer of \<open>Set\<close>: it answers \<open>STORED\<close> for a key that another client made the cache forget.\<close>

lemma replace_after_eviction:
  "two_replies (run_schedule (client_step lru_ops) [0, 0, 1, 0] (new_clients (MapBasedGlobalLockImpl 8)
      (two_todo [(new_Set ''k'' 0 0, ''a''), (new_Replace ''k'' 0 0, ''b'')] [(new_Set ''l'' 0 0, ''1234567'')]))) =
    Some ([''STORED'', ''STORED''], [''STORED''], None)"
  by code_simp

text \<open>What two appends leave, when both read before either writes and when one follows the other.\<close>

context bounded_storage
begin

lemma append_race:
  assumes "inv s" "lookup s k = Some v" "ic_key c = k" "ic_key d = k" "fits s k (v @ a)" "fits s k (v @ b)"
    and run: "run_schedule (client_step ops) [0, 1, 0, 1] (new_clients s (two_todo [(Append_cmd c, a)] [(Append_cmd d, b)]))
      = Some (Inr st)"
  shows "cl_replies st 0 = [''STORED''] \<and> cl_replies st 1 = [''STORED''] \<and> lookup (cl_store st) k = Some (v @ b)"
proof -
  from assms(1) obtain s1 where s1: "op_Get ops s k [] = Inr (s1, v, True)" "inv s1" "lookup s1 = lookup s"
    by (cases rule: get_cases [of s k "[]"]) (use assms(2) in auto)
  from s1(2) obtain s2 where s2: "op_Get ops s1 k [] = Inr (s2, v, True)" "inv s2" "lookup s2 = lookup s"
    by (cases rule: get_cases [of s1 k "[]"]) (use assms(2) s1(3) in auto)
  have f: "fits s2 = fits s" using get_answer [OF assms(1) s1(1)] get_answer [OF s1(2) s2(1)] by simp
  obtain s3 b1 where s3: "op_Put ops s2 k (v @ a) = Inr (s3, b1)"
    using run s1(1) s2(1) assms(3,4)
    by (cases "op_Put ops s2 k (v @ a)") (auto simp: client_step_def operate_def new_clients_def two_todo_def)
  obtain s4 b2 where s4: "op_Put ops s3 k (v @ b) = Inr (s4, b2)"
    using run s1(1) s2(1) s3 assms(3,4)
    by (cases "op_Put ops s3 k (v @ b)") (auto simp: client_step_def operate_def new_clients_def two_todo_def)
  have "inv s3" "fits s3 = fits s" using put_inv [OF s2(2) s3] put_answer [OF s2(2) s3] f by simp_all
  with put_answer [OF _ s4] assms(6) have "b2" by simp
  with put_stored [OF \<open>inv s3\<close>] s4 have "lookup s4 k = Some (v @ b)" by simp
  then show ?thesis
    using run s1(1) s2(1) s3 s4 assms(3,4) by (auto simp: client_step_def operate_def new_clients_def two_todo_def)
qed

lemma append_in_turn:
  assumes "inv s" "lookup s k = Some v" "ic_key c = k" "ic_key d = k" "fits s k (v @ a)" "fits s k (v @ a @ b)"
    and "run_session ops s [(Append_cmd c, a), (Append_cmd d, b)] = Inr (s', outs)"
  shows "outs = [''STORED'', ''STORED''] \<and> lookup s' k = Some (v @ a @ b)"
proof -
  from assms(7) obtain s1 out1 out2 where r: "Append_Execute ops c s a = Inr (s1, out1)" "Append_Execute ops d s1 b = Inr (s', out2)"
    "outs = [out1, out2]" by (auto simp: res_simps)
  from Append_Execute_exact [OF assms(1) r(1)] assms(2,3,5) have
    s1: "inv s1" "fits s1 = fits s" "lookup s1 k = Some (v @ a)" "out1 = ''STORED''" by auto
  from Append_Execute_exact [OF s1(1) r(2)] s1 assms(4,6) r(3) show ?thesis by auto
qed

end

text \<open>
  C12: \<open>append\<close> is not one operation.  A key of a well-formed storage has the value \<open>v\<close>, and two clients append \<open>a\<close> and
  \<open>b\<close> (of any lengths that fit).  When each reads before the other writes and the run returns, both are told \<open>STORED\<close> and
  the value is \<open>v @ b\<close>: the data \<open>a\<close> is lost.  When the same commands are executed one after the other in either order and
  return, both data are kept.
\<close>

theorem concurrent_appends_lose_data:
  assumes "wf_store s" "lookup_store s k = Some v" "ic_key c = k" "ic_key d = k"
    and "fits_store s k (v @ a)" "fits_store s k (v @ b)" "fits_store s k (v @ a @ b)" "fits_store s k (v @ b @ a)"
    and "run_schedule (client_step lru_ops) [0, 1, 0, 1] (new_clients s (two_todo [(Append_cmd c, a)] [(Append_cmd d, b)]))
      = Some (Inr st)"
  shows "cl_replies st 0 = [''STORED''] \<and> cl_replies st 1 = [''STORED''] \<and> lookup_store (cl_store st) k = Some (v @ b) \<and>
    (\<forall>s' outs. run_session lru_ops s [(Append_cmd c, a), (Append_cmd d, b)] = Inr (s', outs) \<longrightarrow>
       outs = [''STORED'', ''STORED''] \<and> lookup_store s' k = Some (v @ a @ b)) \<and>
    (\<forall>s' outs. run_session lru_ops s [(Append_cmd d, b), (Append_cmd c, a)] = Inr (s', outs) \<longrightarrow>
       outs = [''STORED'', ''STORED''] \<and> lookup_store s' k = Some (v @ b @ a))"
  using lru_bounded.append_race [OF assms(1-6,9)] lru_bounded.append_in_turn [OF assms(1-5,7)]
    lru_bounded.append_in_turn [OF assms(1,2,4,3,6,8)] by blast

lemma appends_race:
  "(case Put (MapBasedGlobalLockImpl 64) ''k'' ''a'' of
      Inr (s, True) \<Rightarrow> lookup_store s ''k'' = Some ''a'' \<and> max_size s = 64 \<and>
        two_replies (run_schedule (client_step lru_ops) [0, 1, 0, 1]
          (new_clients s (two_todo [(new_Append ''k'' 0 0, ''b'')] [(new_Append ''k'' 0 0, ''c'')])))
        = Some ([''STORED''], [''STORED''], Some ''ac'')
    | _ \<Rightarrow> False)"
  by code_simp

theorem concurrent_appends_lose_data_witness:
  "\<exists>(s :: lru_store) st. Put (MapBasedGlobalLockImpl 64) ''k'' ''a'' = Inr (s, True) \<and>
    run_schedule (client_step lru_ops) [0, 1, 0, 1]
      (new_clients s (two_todo [(new_Append ''k'' 0 0, ''b'')] [(new_Append ''k'' 0 0, ''c'')])) = Some (Inr st) \<and>
    cl_replies st 0 = [''STORED''] \<and> cl_replies st 1 = [''STORED''] \<and> lookup_store (cl_store st) ''k'' = Some ''ac''"
proof -
  obtain s where s: "Put (MapBasedGlobalLockImpl 64) ''k'' ''a'' = Inr (s, True)" "lookup_store s ''k'' = Some ''a''" "max_size s = 64"
    "two_replies (run_schedule (client_step lru_ops) [0, 1, 0, 1]
      (new_clients s (two_todo [(new_Append ''k'' 0 0, ''b'')] [(new_Append ''k'' 0 0, ''c'')])))
      = Some ([''STORED''], [''STORED''], Some ''ac'')"
    using appends_race by (auto split: sum.splits prod.splits bool.splits)
  let ?c = "new_InsertCommand ''k'' 0 0"
  from two_replies_Some [OF s(4)] obtain st where st: "run_schedule (client_step lru_ops) [0, 1, 0, 1]
      (new_clients s (two_todo [(Append_cmd ?c, ''b'')] [(Append_cmd ?c, ''c'')])) = Some (Inr st)"
    unfolding new_Append_def by blast
  have fit: "fits_store s ''k'' x" if "length x \<le> 3" for x
    using s(3) that by (simp add: fits_store_def pair_size_def to_size_t_def)
  have key: "ic_key ?c = ''k''" by (simp add: new_InsertCommand_def)
  have "wf_store s" using lru.put_inv [OF wf_init] s(1) by simp
  from concurrent_appends_lose_data [OF this s(2) key key fit fit fit fit st] have
    "cl_replies st 0 = [''STORED'']" "cl_replies st 1 = [''STORED'']" "lookup_store (cl_store st) ''k'' = Some ''ac''" by simp_all
  with s(1) st show ?thesis unfolding new_Append_def by blast
qed

end
