(* ===== verification/Coroutine_Engine.thy ===== *)
theory Coroutine_Engine
  imports Prelude
begin

text \<open>
  The coroutine engine (src/include/afina/coroutine/Engine.h and src/src/coroutine/Engine.cpp).  First the copying of
  the stack, on a memory of bytes; then the scheduling, on a heap of contexts with their \<open>prev\<close> and \<open>next\<close> pointers.
  \<open>setjmp\<close> records where a context goes on and \<open>longjmp\<close> goes there: with its stack restored a context has the rest of
  its routine before it, so a resume point is the list of the actions that are left.  What the routines do between
  two calls of the engine is a list of actions, a parameter of \<open>start\<close>.
\<close>

section \<open>Copying the stack\<close>

type_synonym memory = "nat \<Rightarrow> char"

text \<open>The stack grows downwards; \<open>Hight\<close> is the lower end.  The length is kept in 32 bits.\<close>

record stack_copy =
  Low :: nat
  Hight :: nat
  Stack :: string
  Stack_size :: nat

text \<open>\<open>Store\<close>, called when its local \<open>stack_end\<close> is at the address \<open>sp\<close>.\<close>

definition Store :: "nat \<Rightarrow> nat \<Rightarrow> memory \<Rightarrow> stack_copy" where
  "Store StackBottom sp mem =
     (let delta = StackBottom - sp
      in \<lparr>Low = StackBottom, Hight = sp, Stack = map mem [sp..<sp + delta], Stack_size = delta mod 2 ^ 32\<rparr>)"

text \<open>
  \<open>Restore\<close> calls itself until its local \<open>stack_end\<close>, at the address \<open>sp\<close> in the first call, is not above the lower end of
  the stack it is going to write; every call takes \<open>frame\<close> bytes, and the stack ends at address 0.
\<close>

function Restore_depth :: "nat \<Rightarrow> nat \<Rightarrow> nat \<Rightarrow> nat \<Rightarrow> nat option" where
  "Restore_depth frame StackBottom n sp =
     (if StackBottom - n < sp then (if sp < frame \<or> frame = 0 then None else Restore_depth frame StackBottom n (sp - frame))
      else Some sp)"
  by pat_completeness auto
termination by (relation "measure (\<lambda>(f, b, n, sp). sp)") auto

declare Restore_depth.simps [simp del]

definition write_stack :: "nat \<Rightarrow> string \<Rightarrow> memory \<Rightarrow> memory" where
  "write_stack a cs mem = (\<lambda>i. if a \<le> i \<and> i < a + length cs then cs ! (i - a) else mem i)"

text \<open>
  Of the frame of the call that copies, \<open>upper\<close> bytes lie at and above \<open>stack_end\<close> (itself, the saved registers and the
  return address, wherever the compiler puts them).  The result is where \<open>stack_end\<close> of that call is, the memory after
  \<open>memcpy\<close>, and whether \<open>memcpy\<close> wrote into the frame of the function that was calling it.
\<close>

definition Restore :: "nat \<Rightarrow> nat \<Rightarrow> nat \<Rightarrow> stack_copy \<Rightarrow> nat \<Rightarrow> memory \<Rightarrow> (nat \<times> memory \<times> bool) option" where
  "Restore frame upper StackBottom ctx sp mem =
     map_option
       (\<lambda>sp'. let copy = take (Stack_size ctx) (Stack ctx)
              in (sp', write_stack (Hight ctx) copy mem, \<exists>i \<in> {sp'..<sp' + upper}. i \<in> {Hight ctx..<Hight ctx + length copy}))
       (Restore_depth frame StackBottom (Stack_size ctx) sp)"

section \<open>Contexts\<close>

datatype action = Out string | Run "action list" | Yield | Sched nat

text \<open>Where \<open>longjmp\<close> goes: into a routine that has not begun, or behind the call of \<open>sched\<close> that suspended it.\<close>

datatype resume_point = Fresh "action list" | Suspended "action list"

record coctx =
  c_prev :: "nat option"
  c_next :: "nat option"
  Environment :: resume_point

text \<open>Control is in the current routine with its remaining actions, at the \<open>setjmp\<close> of \<open>start\<close>, or back in its caller.\<close>

datatype control = In_routine "action list" | At_idle | Returned

record engine =
  StackBottom_set :: bool
  cur_routine :: "nat option"
  alive :: "nat option"
  contexts :: "nat \<rightharpoonup> coctx"
  next_context :: nat
  control :: control
  printed :: "string list"

definition new_Engine :: engine where
  "new_Engine = \<lparr>StackBottom_set = False, cur_routine = None, alive = None, contexts = Map.empty, next_context = 0,
     control = Returned, printed = []\<rparr>"

text \<open>Reading and writing through a pointer to a context; a deleted one is gone from the heap.\<close>

definition deref :: "engine \<Rightarrow> nat \<Rightarrow> ub + coctx" where
  "deref e p = (case contexts e p of None \<Rightarrow> Inl Use_after_free | Some c \<Rightarrow> Inr c)"

definition update :: "nat option \<Rightarrow> (coctx \<Rightarrow> coctx) \<Rightarrow> engine \<Rightarrow> ub + engine" where
  "update p f e =
     (case p of
        None \<Rightarrow> Inr e
      | Some p \<Rightarrow> res_bind (deref e p) (\<lambda>c. Inr (e\<lparr>contexts := (contexts e)(p \<mapsto> f c)\<rparr>)))"

section \<open>The engine\<close>

text \<open>\<open>run\<close>: the new context, \<open>None\<close> when the engine was not started.\<close>

definition run :: "action list \<Rightarrow> engine \<Rightarrow> ub + nat option \<times> engine" where
  "run func e =
     (if \<not> StackBottom_set e then Inr (None, e)
      else
        let pc = next_context e;
            e1 = e\<lparr>contexts := (contexts e)(pc \<mapsto> \<lparr>c_prev = None, c_next = alive e, Environment = Fresh func\<rparr>),
                   next_context := Suc pc, alive := Some pc\<rparr>
        in res_bind (update (alive e) (\<lambda>c. c\<lparr>c_prev := Some pc\<rparr>) e1) (\<lambda>e2. Inr (Some pc, e2)))"

text \<open>\<open>sched\<close>: \<open>rest\<close> is what the caller has left to do; the resumed context becomes the current one.\<close>

definition sched :: "nat option \<Rightarrow> action list \<Rightarrow> engine \<Rightarrow> ub + engine" where
  "sched routine rest e =
     res_bind (update (cur_routine e) (\<lambda>c. c\<lparr>Environment := Suspended rest\<rparr>) e) (\<lambda>e1.
       case routine of
         None \<Rightarrow> Inl Null_dereference
       | Some ctx \<Rightarrow>
           res_bind (deref e1 ctx) (\<lambda>c.
             Inr (e1\<lparr>cur_routine := Some ctx,
                     control := In_routine (case Environment c of Fresh func \<Rightarrow> func | Suspended acts \<Rightarrow> acts)\<rparr>)))"

text \<open>\<open>yield\<close>: takes the first context out of the list and schedules it; returns (\<open>after\<close>) when there is none.\<close>

definition yield :: "action list \<Rightarrow> control \<Rightarrow> engine \<Rightarrow> ub + engine" where
  "yield rest after e =
     (case alive e of
        None \<Rightarrow> Inr (e\<lparr>control := after\<rparr>)
      | Some new_routine \<Rightarrow>
          res_bind (deref e new_routine) (\<lambda>c.
          res_bind (update (c_next c) (\<lambda>c. c\<lparr>c_prev := None\<rparr>) e) (\<lambda>e1.
            sched (Some new_routine) rest (e1\<lparr>alive := c_next c\<rparr>))))"

text \<open>The end of \<open>run\<close> for a routine \<open>pc\<close> that has returned: unlink it, delete it and go to the idle context.\<close>

definition finish :: "nat \<Rightarrow> engine \<Rightarrow> ub + engine" where
  "finish pc e =
     res_bind (deref e pc) (\<lambda>c.
     res_bind (update (c_prev c) (\<lambda>d. d\<lparr>c_next := c_next c\<rparr>) e) (\<lambda>e1.
     res_bind (update (c_next c) (\<lambda>d. d\<lparr>c_prev := c_prev c\<rparr>) e1) (\<lambda>e2.
     res_bind (if alive e2 = cur_routine e2
               then (case alive e2 of
                       None \<Rightarrow> Inl Null_dereference
                     | Some a \<Rightarrow> res_bind (deref e2 a) (\<lambda>d. Inr (e2\<lparr>alive := c_next d\<rparr>)))
               else Inr e2) (\<lambda>e3.
       Inr (e3\<lparr>cur_routine := None, contexts := (contexts e3)(pc := None), control := At_idle\<rparr>)))))"

text \<open>One action of the current routine, or the second return of the \<open>setjmp\<close> in \<open>start\<close>.\<close>

definition engine_step :: "engine \<Rightarrow> ub + engine" where
  "engine_step e =
     (case control e of
        Returned \<Rightarrow> Inr e
      | At_idle \<Rightarrow> yield [] Returned e
      | In_routine [] \<Rightarrow> (case cur_routine e of None \<Rightarrow> Inl Null_dereference | Some pc \<Rightarrow> finish pc e)
      | In_routine (Out s # acts) \<Rightarrow> Inr (e\<lparr>printed := printed e @ [s], control := In_routine acts\<rparr>)
      | In_routine (Run func # acts) \<Rightarrow> res_bind (run func e) (\<lambda>(_, e1). Inr (e1\<lparr>control := In_routine acts\<rparr>))
      | In_routine (Yield # acts) \<Rightarrow> yield acts (In_routine acts) e
      | In_routine (Sched i # acts) \<Rightarrow> sched (Some i) acts e)"

partial_function (option) engine_loop :: "engine \<Rightarrow> (ub + engine) option" where
  "engine_loop e =
     (if control e = Returned then Some (Inr (e\<lparr>StackBottom_set := False\<rparr>))
      else case engine_step e of Inl u \<Rightarrow> Some (Inl u) | Inr e1 \<Rightarrow> engine_loop e1)"

definition start :: "action list \<Rightarrow> engine \<Rightarrow> (ub + engine) option" where
  "start main e =
     (case run main (e\<lparr>StackBottom_set := True\<rparr>) of
        Inl u \<Rightarrow> Some (Inl u)
      | Inr (pc, e1) \<Rightarrow>
          (case sched pc [] e1 of Inl u \<Rightarrow> Some (Inl u) | Inr e2 \<Rightarrow> engine_loop e2))"

section \<open>The stack comes back\<close>

lemma Restore_depth_Some: "Restore_depth f b n sp = Some sp' \<Longrightarrow> sp' \<le> b - n \<and> sp' \<le> sp"
proof (induction f b n sp rule: Restore_depth.induct)
  case (1 f b n sp)
  have "(if b - n < sp then (if sp < f \<or> f = 0 then None else Restore_depth f b n (sp - f)) else Some sp) = Some sp'"
    using 1(2) by (simp add: Restore_depth.simps [of f b n sp])
  then show ?case using 1(1) by (auto split: if_splits)
qed

text \<open>How far it goes down: not at all from below, otherwise to the last place that is less than a frame below the end.\<close>

lemma Restore_depth_near:
  "Restore_depth f b n sp = Some sp' \<Longrightarrow> (if sp \<le> b - n then sp' = sp else b - n < sp' + f)"
proof (induction f b n sp rule: Restore_depth.induct)
  case (1 f b n sp)
  have "(if b - n < sp then (if sp < f \<or> f = 0 then None else Restore_depth f b n (sp - f)) else Some sp) = Some sp'"
    using 1(2) by (simp add: Restore_depth.simps [of f b n sp])
  then show ?case using 1(1) by (auto split: if_splits)
qed

lemma write_stack_map:
  "write_stack a (map mem [a..<a + n]) mem' i = (if a \<le> i \<and> i < a + n then mem i else mem' i)"
  by (auto simp: write_stack_def)

section \<open>Routines that only start others\<close>

fun quiet :: "action \<Rightarrow> bool" where
  "quiet (Out s) = True"
| "quiet (Run acts) = list_all quiet acts"
| "quiet Yield = False"
| "quiet (Sched i) = False"

fun weight :: "action \<Rightarrow> nat" where
  "weight (Run acts) = Suc (Suc (sum_list (map weight acts)))"
| "weight _ = 1"

definition routine_weight :: "action list \<Rightarrow> nat" where
  "routine_weight acts = Suc (sum_list (map weight acts))"

fun outs :: "action list \<Rightarrow> string list" where
  "outs [] = []"
| "outs (Out s # acts) = s # outs acts"
| "outs (_ # acts) = outs acts"

fun children :: "action list \<Rightarrow> action list list" where
  "children [] = []"
| "children (Run func # acts) = func # children acts"
| "children (_ # acts) = children acts"

lemma children_weight: "sum_list (map routine_weight (children acts)) < routine_weight acts"
  by (induction acts rule: children.induct) (auto simp: routine_weight_def)

text \<open>
  The order in which they run: each to its end, then the routine that was registered last and has not run.
\<close>

function lifo :: "action list list \<Rightarrow> string list" where
  "lifo [] = []"
| "lifo (r # rs) = outs r @ lifo (rev (children r) @ rs)"
  by pat_completeness auto
termination
proof (relation "measure (\<lambda>rs. sum_list (map routine_weight rs))")
  fix r :: "action list" and rs
  have "sum_list (map routine_weight (rev (children r))) = sum_list (map routine_weight (children r))"
    using sum_list.rev [of "map routine_weight (children r)"] by (simp add: rev_map)
  then show "(rev (children r) @ rs, r # rs) \<in> measure (\<lambda>rs. sum_list (map routine_weight rs))"
    using children_weight [of r] by simp
qed simp

text \<open>The list of alive contexts from \<open>p\<close> up to \<open>q\<close>: the contexts \<open>xs\<close>, which have not begun the routines \<open>rs\<close>.\<close>

fun chain :: "(nat \<rightharpoonup> coctx) \<Rightarrow> nat option \<Rightarrow> nat list \<Rightarrow> action list list \<Rightarrow> nat option \<Rightarrow> bool" where
  "chain H p [] [] q \<longleftrightarrow> p = q"
| "chain H p (x # xs) (r # rs) q \<longleftrightarrow>
     p = Some x \<and> (\<exists>c. H x = Some c \<and> Environment c = Fresh r \<and> chain H (c_next c) xs rs q)"
| "chain H p _ _ q \<longleftrightarrow> False"

lemma chain_cong:
  assumes "\<And>x. x \<in> set xs \<Longrightarrow> map_option (\<lambda>c. (c_next c, Environment c)) (H' x) = map_option (\<lambda>c. (c_next c, Environment c)) (H x)"
  shows "chain H p xs rs q \<Longrightarrow> chain H' p xs rs q"
  using assms
proof (induction H p xs rs q rule: chain.induct)
  case (2 H p x xs r rs q)
  from 2(2) obtain c where c: "H x = Some c" "p = Some x" "Environment c = Fresh r" "chain H (c_next c) xs rs q" by auto
  with 2(3) [of x] obtain c' where "H' x = Some c'" "c_next c' = c_next c" "Environment c' = Fresh r" by auto
  then show ?case using c 2(1,3) by auto
qed simp_all

lemma chain_in: "chain H p xs rs q \<Longrightarrow> xs \<noteq> [] \<Longrightarrow> p = Some (hd xs)"
  by (cases xs; cases rs) auto

lemma chain_dom: "chain H p xs rs q \<Longrightarrow> set xs \<subseteq> dom H"
  by (induction H p xs rs q rule: chain.induct) auto

text \<open>
  Routine \<open>x\<close> is running and \<open>xs\<close> wait with the routines \<open>rs\<close>.  The main routine stays in the list while it runs
  (\<open>q = Some x\<close>, at the end); every other routine was taken out of it before (\<open>q = None\<close>).
\<close>

definition own_links :: "engine \<Rightarrow> nat \<Rightarrow> nat list \<Rightarrow> nat option \<Rightarrow> bool" where
  "own_links e x xs q \<longleftrightarrow> (\<exists>c. contexts e x = Some c \<and>
     (if q = None then c_prev c = None \<and> (\<forall>y. c_next c = Some y \<longrightarrow> y \<in> set xs)
      else c_next c = None \<and> c_prev c = (if xs = [] then None else Some (last xs))))"

definition waiting :: "engine \<Rightarrow> nat set \<Rightarrow> nat list \<Rightarrow> action list list \<Rightarrow> nat option \<Rightarrow> bool" where
  "waiting e X xs rs q \<longleftrightarrow> StackBottom_set e \<and> chain (contexts e) (alive e) xs rs q \<and> distinct xs \<and> X \<inter> set xs = {} \<and>
     dom (contexts e) = X \<union> set xs \<and> (\<forall>y \<in> X \<union> set xs. y < next_context e) \<and>
     (\<forall>y c. alive e = Some y \<and> contexts e y = Some c \<longrightarrow> c_prev c = None)"

definition in_body :: "engine \<Rightarrow> nat \<Rightarrow> nat list \<Rightarrow> action list list \<Rightarrow> nat option \<Rightarrow> bool" where
  "in_body e x xs rs q \<longleftrightarrow> waiting e {x} xs rs q \<and> cur_routine e = Some x \<and> (q = None \<or> q = Some x) \<and> own_links e x xs q"

lemma chain_end: "chain H p [] rs q \<Longrightarrow> p = q"
  by (cases rs) auto

lemma run_push:
  assumes "in_body e x xs rs q"
  shows "\<exists>e'. run func e = Inr (Some (next_context e), e') \<and> in_body e' x (next_context e # xs) (func # rs) q \<and>
    printed e' = printed e"
proof -
  let ?pc = "next_context e" and ?H = "contexts e"
  let ?new = "\<lparr>c_prev = None, c_next = alive e, Environment = Fresh func\<rparr>"
  note b = assms [unfolded in_body_def waiting_def own_links_def]
  have fresh: "?pc \<notin> insert x (set xs)" "?H ?pc = None" using b by auto
  have d: "dom ?H = insert x (set xs)" using b by auto
  have sg: "chain ?H (alive e) xs rs q" using b by blast
  have ends: "alive e = q" if "xs = []" using sg that chain_end by blast
  have heads: "alive e = Some (hd xs)" if "xs \<noteq> []" using sg that chain_in by blast
  show ?thesis
  proof (cases "alive e")
    case None
    let ?e = "e\<lparr>contexts := ?H(?pc \<mapsto> ?new), next_context := Suc ?pc, alive := Some ?pc\<rparr>"
    have xs: "xs = []" "q = None" using None heads ends by auto
    moreover have "rs = []" using sg xs by (cases rs) auto
    moreover have "run func e = Inr (Some ?pc, ?e)" using None b by (simp add: run_def update_def Let_def)
    ultimately show ?thesis using b None fresh
      by (intro exI [of _ ?e]) (auto simp: in_body_def waiting_def own_links_def less_Suc_eq)
  next
    case (Some a)
    then have a: "a \<in> insert x (set xs)" using ends heads b by (cases xs) auto
    then obtain c where c: "?H a = Some c" using d by blast
    let ?H' = "?H(?pc \<mapsto> ?new, a \<mapsto> c\<lparr>c_prev := Some ?pc\<rparr>)"
    let ?e = "e\<lparr>next_context := Suc ?pc, alive := Some ?pc, contexts := ?H'\<rparr>"
    have ne: "a \<noteq> ?pc" using a fresh by auto
    have "run func e = Inr (Some ?pc, ?e)" using Some b c ne by (simp add: run_def update_def deref_def Let_def)
    moreover have "chain ?H' (alive e) xs rs q" by (rule chain_cong [OF _ sg]) (use fresh c in auto)
    then have "chain ?H' (Some ?pc) (?pc # xs) (func # rs) q" using ne by simp
    moreover have "own_links ?e x (?pc # xs) q"
    proof (cases "xs = []")
      case True
      then have "a = x" "q = Some x" using ends Some b by auto
      then show ?thesis using b c True fresh ne by (auto simp: own_links_def)
    next
      case False
      then have "a = hd xs" using heads Some by simp
      then have "a \<noteq> x" using False b by (cases xs) auto
      then show ?thesis using b False fresh by (auto simp: own_links_def)
    qed
    moreover have "dom ?H' = insert ?pc (insert x (set xs))" using d a by auto
    ultimately show ?thesis using b fresh ne
      by (intro exI [of _ ?e]) (auto simp: in_body_def waiting_def less_Suc_eq)
  qed
qed

lemma engine_loop_step: "control e \<noteq> Returned \<Longrightarrow> engine_step e = Inr e1 \<Longrightarrow> engine_loop e = engine_loop e1"
  by (subst engine_loop.simps) simp

lemma in_body_upd [simp]:
  "in_body (e\<lparr>control := k\<rparr>) x xs rs q = in_body e x xs rs q" "in_body (e\<lparr>printed := out\<rparr>) x xs rs q = in_body e x xs rs q"
  by (simp_all add: in_body_def waiting_def own_links_def)

lemma body_runs:
  "in_body e x xs rs q \<Longrightarrow> control e = In_routine acts \<Longrightarrow> list_all quiet acts \<Longrightarrow>
   \<exists>e' ys. engine_loop e = engine_loop e' \<and> in_body e' x ys (rev (children acts) @ rs) q \<and> control e' = In_routine [] \<and>
     printed e' = printed e @ outs acts"
proof (induction acts arbitrary: e xs rs)
  case Nil
  then show ?case by auto
next
  case (Cons a acts)
  from Cons.prems(3) have qa: "quiet a" "list_all quiet acts" by auto
  show ?case
  proof (cases a)
    case (Out s)
    let ?e = "e\<lparr>printed := printed e @ [s], control := In_routine acts\<rparr>"
    have "engine_loop e = engine_loop ?e"
      using Cons.prems(2) Out by (intro engine_loop_step) (simp_all add: engine_step_def)
    moreover have "in_body ?e x xs rs q" using Cons.prems(1) by simp
    note Cons.IH [OF this _ qa(2)]
    ultimately show ?thesis using Out by simp
  next
    case (Run func)
    from run_push [OF Cons.prems(1), of func] obtain e1 where
      e1: "run func e = Inr (Some (next_context e), e1)" "in_body e1 x (next_context e # xs) (func # rs) q" "printed e1 = printed e"
      by blast
    have "engine_loop e = engine_loop (e1\<lparr>control := In_routine acts\<rparr>)"
      using Cons.prems(2) Run e1(1) by (intro engine_loop_step) (simp_all add: engine_step_def)
    moreover have "in_body (e1\<lparr>control := In_routine acts\<rparr>) x (next_context e # xs) (func # rs) q" using e1(2) by simp
    note Cons.IH [OF this _ qa(2)]
    ultimately show ?thesis using Run e1(3) by simp
  qed (use qa in simp_all)
qed

lemma chain_retarget:
  "chain H p xs rs q \<Longrightarrow> xs \<noteq> [] \<Longrightarrow> distinct xs \<Longrightarrow> H (last xs) = Some c \<Longrightarrow> chain (H(last xs \<mapsto> c\<lparr>c_next := q'\<rparr>)) p xs rs q'"
proof (induction H p xs rs q rule: chain.induct)
  case (2 H p x xs r rs q)
  show ?case
  proof (cases "xs = []")
    case True
    then show ?thesis using 2(2,5) by (cases rs) auto
  next
    case False
    then have "last xs \<noteq> x" using 2(4) by (metis distinct.simps(2) last_in_set)
    then show ?thesis using 2 False by auto
  qed
qed simp_all

text \<open>The end of a routine leaves the others waiting as they were.\<close>

lemma finish_main:
  assumes "in_body e x xs rs (Some x)" "control e = In_routine []"
  shows "\<exists>e'. engine_step e = Inr e' \<and> waiting e' {} xs rs None \<and> cur_routine e' = None \<and> control e' = At_idle \<and> printed e' = printed e"
proof -
  note b = assms(1) [unfolded in_body_def waiting_def own_links_def]
  then obtain c where c: "contexts e x = Some c" "c_next c = None" "c_prev c = (if xs = [] then None else Some (last xs))" by auto
  have sg: "chain (contexts e) (alive e) xs rs (Some x)" and cur: "cur_routine e = Some x" and on: "StackBottom_set e" using b by blast+
  have xx: "x \<notin> set xs" "distinct xs" and dm: "dom (contexts e) = insert x (set xs)" and lt: "\<forall>y \<in> set xs. y < next_context e"
    using b by auto
  have hp: "\<And>y c. alive e = Some y \<Longrightarrow> contexts e y = Some c \<Longrightarrow> c_prev c = None" using b by blast
  show ?thesis
  proof (cases "xs = []")
    case True
    then have al: "alive e = Some x" "rs = []" using sg by (cases rs; simp)+
    let ?e = "e\<lparr>alive := None, cur_routine := None, contexts := (contexts e)(x := None), control := At_idle\<rparr>"
    have "engine_step e = Inr ?e"
      using assms(2) cur c al True by (simp add: engine_step_def finish_def update_def deref_def)
    then show ?thesis using on dm True al by (intro exI [of _ ?e]) (simp add: waiting_def)
  next
    case False
    let ?l = "last xs"
    have l: "?l \<in> set xs" "?l \<noteq> x" using False xx last_in_set [of xs] by auto
    then obtain d where d: "contexts e ?l = Some d" using chain_dom [OF sg] by blast
    have al: "alive e = Some (hd xs)" "hd xs \<noteq> x" using chain_in [OF sg False] False xx hd_in_set [of xs] by auto
    let ?H = "(contexts e)(?l \<mapsto> d\<lparr>c_next := None\<rparr>)"
    define H where "H = ?H(x := None)"
    let ?e = "e\<lparr>contexts := H, cur_routine := None, control := At_idle\<rparr>"
    have "engine_step e = Inr ?e"
      using assms(2) cur c al False d l by (simp add: H_def engine_step_def finish_def update_def deref_def)
    moreover have "chain ?H (alive e) xs rs None" using chain_retarget [OF sg False xx(2) d] by blast
    then have "chain H (alive e) xs rs None" unfolding H_def by (rule chain_cong [rotated]) (use xx in auto)
    moreover have "dom H = set xs" using dm l xx by (auto simp: H_def)
    moreover have "c_prev c' = None" if "alive e = Some y" "H y = Some c'" for y c'
      using that hp d by (cases "y = ?l") (auto simp: H_def split: if_splits)
    ultimately show ?thesis using on lt xx by (intro exI [of _ ?e]) (simp add: waiting_def)
  qed
qed

lemma finish_other:
  assumes "in_body e x xs rs None" "control e = In_routine []"
  shows "\<exists>e'. engine_step e = Inr e' \<and> waiting e' {} xs rs None \<and> cur_routine e' = None \<and> control e' = At_idle \<and> printed e' = printed e"
proof -
  note b = assms(1) [unfolded in_body_def waiting_def own_links_def]
  then obtain c where c: "contexts e x = Some c" "c_prev c = None" "\<And>y. c_next c = Some y \<Longrightarrow> y \<in> set xs" by auto
  have sg: "chain (contexts e) (alive e) xs rs None" and cur: "cur_routine e = Some x" using b by blast+
  have al: "alive e \<noteq> Some x"
  proof (cases "xs = []")
    case True
    then show ?thesis using sg chain_end [of "contexts e" "alive e" rs None] by simp
  next
    case False
    then show ?thesis using chain_in [OF sg] hd_in_set [of xs] b by auto
  qed
  show ?thesis
  proof (cases "c_next c")
    case None
    let ?e = "e\<lparr>cur_routine := None, contexts := (contexts e)(x := None), control := At_idle\<rparr>"
    have "engine_step e = Inr ?e"
      using assms(2) cur c al None by (simp add: engine_step_def finish_def update_def deref_def)
    moreover have "chain ((contexts e)(x := None)) (alive e) xs rs None" by (rule chain_cong [OF _ sg]) (use b in auto)
    ultimately show ?thesis using b by (intro exI [of _ ?e]) (auto simp: waiting_def)
  next
    case (Some y)
    then have y: "y \<in> set xs" "y \<noteq> x" using c(3) b by auto
    then obtain d where d: "contexts e y = Some d" using chain_dom [OF sg] by blast
    let ?H = "(contexts e)(y \<mapsto> d\<lparr>c_prev := None\<rparr>)"
    let ?e = "e\<lparr>cur_routine := None, contexts := ?H(x := None), control := At_idle\<rparr>"
    have "engine_step e = Inr ?e"
      using assms(2) cur c al Some d y by (simp add: engine_step_def finish_def update_def deref_def)
    moreover have "chain (?H(x := None)) (alive e) xs rs None" by (rule chain_cong [OF _ sg]) (use b d in auto)
    moreover have "dom (?H(x := None)) = set xs" using b y by auto
    moreover have "\<forall>z c. alive e = Some z \<and> (?H(x := None)) z = Some c \<longrightarrow> c_prev c = None" using b by auto
    ultimately show ?thesis using b by (intro exI [of _ ?e]) (auto simp: waiting_def)
  qed
qed

lemma idle_pops:
  assumes "waiting e {} (x # xs) (r # rs) None" "cur_routine e = None" "control e = At_idle"
  shows "\<exists>e'. engine_step e = Inr e' \<and> in_body e' x xs rs None \<and> control e' = In_routine r \<and> printed e' = printed e"
proof -
  note b = assms(1) [unfolded waiting_def]
  then obtain c where c: "alive e = Some x" "contexts e x = Some c" "Environment c = Fresh r" "c_prev c = None"
    and sg: "chain (contexts e) (c_next c) xs rs None" by auto
  have x: "x \<notin> set xs" using b by simp
  show ?thesis
  proof (cases "c_next c")
    case None
    then have "xs = []" "rs = []" using sg by (cases xs; cases rs; simp)+
    let ?e = "e\<lparr>alive := None, cur_routine := Some x, control := In_routine r\<rparr>"
    have "engine_step e = Inr ?e"
      using assms(2,3) c None by (simp add: engine_step_def yield_def sched_def update_def deref_def)
    then show ?thesis using b c None \<open>xs = []\<close> \<open>rs = []\<close>
      by (intro exI [of _ ?e]) (auto simp: in_body_def waiting_def own_links_def)
  next
    case (Some y)
    then have y: "y \<in> set xs" using sg by (cases xs; cases rs; simp)
    then obtain d where d: "contexts e y = Some d" using chain_dom [OF sg] by blast
    have yx: "y \<noteq> x" using y x by auto
    let ?H = "(contexts e)(y \<mapsto> d\<lparr>c_prev := None\<rparr>)"
    let ?e = "e\<lparr>contexts := ?H, alive := Some y, cur_routine := Some x, control := In_routine r\<rparr>"
    have "engine_step e = Inr ?e"
      using assms(2,3) c Some d yx by (simp add: engine_step_def yield_def sched_def update_def deref_def)
    moreover have "chain ?H (Some y) xs rs None" using chain_cong [OF _ sg, of ?H] d Some by auto
    moreover have "dom ?H = insert x (set xs)" using b y by auto
    ultimately show ?thesis using b c Some y yx x
      by (intro exI [of _ ?e]) (auto simp: in_body_def waiting_def own_links_def)
  qed
qed

lemma quiet_children: "list_all quiet acts \<Longrightarrow> r \<in> set (children acts) \<Longrightarrow> list_all quiet r"
  by (induction acts rule: children.induct) auto

lemma idle_runs_all:
  "waiting e {} xs rs None \<Longrightarrow> cur_routine e = None \<Longrightarrow> control e = At_idle \<Longrightarrow> \<forall>r \<in> set rs. list_all quiet r \<Longrightarrow>
   \<exists>e'. engine_loop e = Some (Inr e') \<and> printed e' = printed e @ lifo rs \<and> contexts e' = Map.empty"
proof (induction rs arbitrary: e xs rule: lifo.induct)
  case 1
  then have "xs = []" "alive e = None" by (cases xs; auto simp: waiting_def)+
  then have "engine_loop e = engine_loop (e\<lparr>control := Returned\<rparr>)"
    using 1(3) by (intro engine_loop_step) (simp_all add: engine_step_def yield_def)
  also have "\<dots> = Some (Inr (e\<lparr>control := Returned, StackBottom_set := False\<rparr>))" by (subst engine_loop.simps) simp
  finally show ?case using 1(1) \<open>xs = []\<close> by (simp add: waiting_def)
next
  case (2 r rs)
  from 2(2) obtain x ys where xs: "xs = x # ys" by (cases xs) (auto simp: waiting_def)
  from idle_pops [OF 2(2) [unfolded xs] 2(3,4)] obtain e1 where
    e1: "engine_step e = Inr e1" "in_body e1 x ys rs None" "control e1 = In_routine r" "printed e1 = printed e" by blast
  have q: "list_all quiet r" using 2(5) by simp
  from body_runs [OF e1(2,3) q] obtain e2 zs where
    e2: "engine_loop e1 = engine_loop e2" "in_body e2 x zs (rev (children r) @ rs) None" "control e2 = In_routine []"
      "printed e2 = printed e1 @ outs r" by blast
  from finish_other [OF e2(2,3)] obtain e3 where
    e3: "engine_step e2 = Inr e3" "waiting e3 {} zs (rev (children r) @ rs) None" "cur_routine e3 = None" "control e3 = At_idle"
      "printed e3 = printed e2" by blast
  have "engine_loop e = engine_loop e3"
    using engine_loop_step [OF _ e1(1)] engine_loop_step [OF _ e3(1)] 2(4) e2(1,3) by simp
  moreover have "\<forall>r' \<in> set (rev (children r) @ rs). list_all quiet r'" using 2(5) quiet_children [OF q] by auto
  note 2(1) [OF e3(2-4) this]
  ultimately show ?case using e1(4) e2(4) e3(5) by simp
qed

section \<open>Properties\<close>

lemma start_main:
  "\<exists>e. start main new_Engine = engine_loop e \<and> in_body e 0 [] [] (Some 0) \<and> control e = In_routine main \<and> printed e = []"
proof -
  let ?e = "\<lparr>StackBottom_set = True, cur_routine = Some 0, alive = Some 0,
    contexts = [0 \<mapsto> \<lparr>c_prev = None, c_next = None, Environment = Fresh main\<rparr>], next_context = Suc 0,
    control = In_routine main, printed = []\<rparr>"
  have "start main new_Engine = engine_loop ?e"
    by (simp add: start_def run_def sched_def update_def deref_def new_Engine_def Let_def)
  moreover have "in_body ?e 0 [] [] (Some 0)" by (simp add: in_body_def waiting_def own_links_def)
  ultimately show ?thesis by (intro exI [of _ ?e]) simp
qed

text \<open>
  C33: \<open>start\<close> returns when the routines it was given, and those that they register, neither yield nor schedule each
  other: every one of them runs exactly once and to its end, the last registered first, and every context is deleted.
\<close>

theorem start_runs_all:
  assumes "list_all quiet main"
  shows "\<exists>e. start main new_Engine = Some (Inr e) \<and> printed e = lifo [main] \<and> contexts e = Map.empty"
proof -
  obtain e where e: "start main new_Engine = engine_loop e" "in_body e 0 [] [] (Some 0)" "control e = In_routine main"
    "printed e = []" using start_main by blast
  from body_runs [OF e(2,3) assms] obtain e1 xs where e1: "engine_loop e = engine_loop e1"
    "in_body e1 0 xs (rev (children main) @ []) (Some 0)" "control e1 = In_routine []" "printed e1 = printed e @ outs main" by blast
  from finish_main [OF e1(2,3)] obtain e2 where e2: "engine_step e1 = Inr e2" "waiting e2 {} xs (rev (children main) @ []) None"
    "cur_routine e2 = None" "control e2 = At_idle" "printed e2 = printed e1" by blast
  have "engine_loop e1 = engine_loop e2" using engine_loop_step [OF _ e2(1)] e1(3) by simp
  moreover have "\<forall>r \<in> set (rev (children main) @ []). list_all quiet r" using quiet_children [OF assms] by auto
  note idle_runs_all [OF e2(2-4) this]
  ultimately show ?thesis using e e1 e2(5) by simp
qed

theorem start_runs_all_witness:
  "\<exists>e. start [Out ''m'', Run [Out ''a'', Run [Out ''c'']], Run [Out ''b'']] new_Engine = Some (Inr e) \<and>
    printed e = [''m'', ''b'', ''a'', ''c'']"
  using start_runs_all [of "[Out ''m'', Run [Out ''a'', Run [Out ''c'']], Run [Out ''b'']]"] by auto

lemma loop_outs:
  "control e = In_routine (map Out ys @ acts) \<Longrightarrow>
   engine_loop e = engine_loop (e\<lparr>printed := printed e @ ys, control := In_routine acts\<rparr>)"
proof (induction ys arbitrary: e)
  case (Cons y ys)
  have "engine_loop e = engine_loop (e\<lparr>printed := printed e @ [y], control := In_routine (map Out ys @ acts)\<rparr>)"
    using Cons.prems by (intro engine_loop_step) (simp_all add: engine_step_def)
  also have "\<dots> = engine_loop (e\<lparr>printed := printed e @ [y] @ ys, control := In_routine acts\<rparr>)"
    by (subst Cons.IH) simp_all
  finally show ?case by simp
next
  case Nil
  then show ?case by (cases e) simp
qed

lemmas engine_defs = engine_step_def run_def sched_def yield_def finish_def update_def deref_def Let_def

text \<open>
  C34: a routine that yields is not put back among the routines that are ready.  The main routine is there only until
  its first \<open>yield\<close>; when it then registers another routine and yields to it, \<open>start\<close> returns as soon as that one is
  done: the rest \<open>zs\<close> of the main routine never runs and its context is never deleted.
\<close>

theorem yield_loses_the_caller:
  "\<exists>e c. start (Yield # Run (map Out ys) # Yield # map Out zs) new_Engine = Some (Inr e) \<and> printed e = ys \<and>
    contexts e 0 = Some c \<and> Environment c = Suspended (map Out zs)"
proof -
  let ?main = "Yield # Run (map Out ys) # Yield # map Out zs"
  define c0 where "c0 = \<lparr>c_prev = None, c_next = None, Environment = Suspended (Run (map Out ys) # Yield # map Out zs)\<rparr>"
  define c1 where "c1 = \<lparr>c_prev = None, c_next = None, Environment = Fresh (map Out ys)\<rparr>"
  define e2 where "e2 = \<lparr>StackBottom_set = True, cur_routine = Some 1, alive = None,
      contexts = [0 \<mapsto> c0\<lparr>Environment := Suspended (map Out zs)\<rparr>, 1 \<mapsto> c1], next_context = Suc (Suc 0),
      control = In_routine (map Out ys @ []), printed = []\<rparr>"
  define e5 where "e5 = \<lparr>StackBottom_set = True, cur_routine = None, alive = None,
      contexts = [0 \<mapsto> c0\<lparr>Environment := Suspended (map Out zs)\<rparr>], next_context = Suc (Suc 0), control = Returned, printed = ys\<rparr>"
  have "start ?main new_Engine = engine_loop e2"
    by (simp add: start_def new_Engine_def engine_defs)
       (simp add: engine_loop.simps [of "\<lparr>StackBottom_set = _, cur_routine = _, alive = _, contexts = _, next_context = _, control = In_routine (_ # _), printed = _\<rparr>"]
         engine_defs e2_def c0_def c1_def fun_upd_twist)
  also have "\<dots> = engine_loop (e2\<lparr>printed := ys, control := In_routine []\<rparr>)"
    by (subst loop_outs) (simp_all add: e2_def)
  also have "\<dots> = engine_loop e5"
    by (subst engine_loop.simps, simp add: engine_defs e2_def c1_def, subst engine_loop.simps)
       (simp add: engine_defs e5_def fun_upd_def)
  also have "\<dots> = Some (Inr (e5\<lparr>StackBottom_set := False\<rparr>))" by (subst engine_loop.simps) (simp add: e5_def)
  finally show ?thesis by (simp add: e5_def c0_def)
qed

text \<open>
  C35: \<open>Restore\<close> writes back the stack that \<open>Store\<close> saved: whatever the memory holds by then, it comes to its \<open>memcpy\<close> when
  there is room for one more frame below the saved stack, and then the bytes from the saved end of the stack \<open>sp\<close> to its
  bottom are those of the time of the call of \<open>Store\<close> and no other byte has changed.  Its \<open>stack_end\<close> is then at
  an address \<open>sp'\<close> not above \<open>sp\<close>: where it was first, when that is not above \<open>sp\<close>, otherwise less than a frame below \<open>sp\<close>.
  This does not keep its own frame out of what it writes: \<open>memcpy\<close> overwrites a part of the frame of \<open>Restore\<close> exactly
  when the saved stack is not empty and \<open>sp\<close> is below the upper end \<open>sp' + upper\<close> of the frame, in particular when \<open>Restore\<close>
  is called with \<open>stack_end\<close> where \<open>Store\<close> had it.
\<close>

theorem restore_after_store:
  assumes "sp \<le> bottom" "bottom - sp < 2 ^ 32" "0 < upper" "upper \<le> frame" "frame \<le> sp"
  shows "\<exists>sp' mem'' own. Restore frame upper bottom (Store bottom sp mem) sp1 mem' = Some (sp', mem'', own) \<and> sp' \<le> sp \<and>
    (if sp1 \<le> sp then sp' = sp1 else sp < sp' + frame) \<and>
    (\<forall>i. mem'' i = (if sp \<le> i \<and> i < bottom then mem i else mem' i)) \<and>
    (own \<longleftrightarrow> sp < bottom \<and> sp < sp' + upper) \<and> (sp1 = sp \<and> sp < bottom \<longrightarrow> own) \<and> (sp1 + upper \<le> sp \<longrightarrow> \<not> own)"
proof -
  have "0 < frame" using assms(3,4) by simp
  then have "Restore_depth frame bottom (bottom - sp) sp1 \<noteq> None"
    using assms(1,2,5)
  proof (induction frame bottom "bottom - sp" sp1 rule: Restore_depth.induct)
    case (1 frame bottom sp1)
    then show ?case by (subst Restore_depth.simps) auto
  qed
  then obtain sp' where sp': "Restore_depth frame bottom (bottom - sp) sp1 = Some sp'" by blast
  have le: "sp' \<le> sp" "if sp1 \<le> sp then sp' = sp1 else sp < sp' + frame"
    using Restore_depth_Some [OF sp'] Restore_depth_near [OF sp'] assms(1) by (simp_all split: if_splits)
  have st: "Stack_size (Store bottom sp mem) = bottom - sp" "Stack (Store bottom sp mem) = map mem [sp..<sp + (bottom - sp)]"
    "Hight (Store bottom sp mem) = sp" using assms(2) by (simp_all add: Store_def Let_def)
  let ?own = "\<exists>i \<in> {sp'..<sp' + upper}. i \<in> {sp..<sp + (bottom - sp)}"
  have own: "?own \<longleftrightarrow> sp < bottom \<and> sp < sp' + upper"
  proof
    assume "sp < bottom \<and> sp < sp' + upper"
    then show ?own using le(1) by (intro bexI [of _ sp]) auto
  qed auto
  have "Restore frame upper bottom (Store bottom sp mem) sp1 mem' =
      Some (sp', write_stack sp (map mem [sp..<sp + (bottom - sp)]) mem', ?own)"
    using st sp' by (simp add: Restore_def Let_def)
  then show ?thesis using le own assms(1,3) write_stack_map [of sp mem "bottom - sp" mem']
    by (intro exI [of _ sp'] exI conjI) (auto split: if_splits)
qed

text \<open>\<open>Restore\<close> in the same place as \<open>Store\<close>: the bytes come back and two bytes of the frame are overwritten.\<close>

theorem restore_after_store_witness:
  "\<exists>mem''. Restore 3 2 100 (Store 100 98 (\<lambda>_. CHR ''x'')) 98 (\<lambda>_. CHR ''y'') = Some (98, mem'', True) \<and>
    map mem'' [97..<101] = ''yxxy''"
proof -
  obtain sp' mem'' own where "Restore 3 2 100 (Store 100 98 (\<lambda>_. CHR ''x'')) 98 (\<lambda>_. CHR ''y'') = Some (sp', mem'', own)"
    "sp' = 98" "own" "\<forall>i. mem'' i = (if 98 \<le> i \<and> i < 100 then CHR ''x'' else CHR ''y'')"
    using restore_after_store [of 98 100 2 3 "\<lambda>_. CHR ''x''" 98 "\<lambda>_. CHR ''y''"] by auto
  then show ?thesis by (simp add: upt_rec)
qed

text \<open>
  A context that was taken out of the list keeps its pointer to the next one, which may be deleted before it: the end
  of the first routine then writes through that pointer.
\<close>

lemma stale_next_used:
  "start [Run [], Run [Sched 1], Yield, Sched 2] new_Engine = Some (Inl Use_after_free)"
  by (simp add: start_def new_Engine_def engine_defs)
     (simp add: engine_loop.simps [of "\<lparr>StackBottom_set = _, cur_routine = _, alive = _, contexts = _, next_context = _, control = In_routine _, printed = _\<rparr>"]
       engine_loop.simps [of "\<lparr>StackBottom_set = _, cur_routine = _, alive = _, contexts = _, next_context = _, control = At_idle, printed = _\<rparr>"]
       engine_defs numeral_2_eq_2)

end
