(* ===== verification/Echo_Server.thy ===== *)
theory Echo_Server
  imports Prelude
begin

text \<open>
  The epoll echo server of the course materials (materials/05-non-blocking-network/code/echo.{h,c}).  A connection is
  an \<open>EchoEvent\<close> on the heap; the epoll set maps a descriptor to the pointer and the kind of event it was registered
  with.  The results of the system calls come with the event that is handled.  Beside the state of the program the
  model keeps the bytes read from and written to every descriptor.
\<close>

section \<open>State\<close>

definition MAXLEN :: nat where "MAXLEN = 255"
definition MAXCONN :: nat where "MAXCONN = 200"

datatype event_kind = EPOLLIN | EPOLLOUT

record echo_event =
  ee_fd :: int
  ee_event :: event_kind
  ee_data :: string
  ee_length :: int
  ee_offset :: int

record echo_server =
  conns :: "nat \<rightharpoonup> echo_event"
  next_ptr :: nat
  epoll_set :: "int \<rightharpoonup> nat \<times> event_kind"
  bytes_in :: "int \<Rightarrow> string"
  bytes_out :: "int \<Rightarrow> string"

datatype echo_stop = Exit_1 string | Undef ub

section \<open>The code\<close>

text \<open>\<open>modifyEpollContext\<close> ends the program when \<open>epoll_ctl\<close> fails (\<open>ok\<close> is false).\<close>

definition epoll_add :: "bool \<Rightarrow> int \<Rightarrow> event_kind \<Rightarrow> nat \<Rightarrow> echo_server \<Rightarrow> echo_stop + echo_server" where
  "epoll_add ok fd ev p s =
     (if ok then Inr (s\<lparr>epoll_set := (epoll_set s)(fd \<mapsto> (p, ev))\<rparr>) else Inl (Exit_1 ''Failed to add an event for socket''))"

definition epoll_del :: "bool \<Rightarrow> int \<Rightarrow> echo_server \<Rightarrow> echo_stop + echo_server" where
  "epoll_del ok fd s =
     (if ok then Inr (s\<lparr>epoll_set := (epoll_set s)(fd := None)\<rparr>) else Inl (Exit_1 ''Failed to add an event for socket''))"

text \<open>Closing a descriptor takes it out of the epoll set.\<close>

definition close_free :: "nat \<Rightarrow> int \<Rightarrow> echo_server \<Rightarrow> echo_server" where
  "close_free p fd s = s\<lparr>conns := (conns s)(p := None), epoll_set := (epoll_set s)(fd := None)\<rparr>"

text \<open>
  \<open>handle\<close> for a read event: \<open>n\<close> is the result of \<open>read\<close> and \<open>cs\<close> the bytes it stored.  For a write event: \<open>r\<close> is the
  result of \<open>write\<close>, and \<open>intr\<close> whether it failed with \<open>EINTR\<close>.
\<close>

definition handle_read :: "bool \<Rightarrow> int \<Rightarrow> string \<Rightarrow> nat \<Rightarrow> echo_event \<Rightarrow> echo_server \<Rightarrow> echo_stop + echo_server" where
  "handle_read ok n cs p e s =
     (if n = 0 then Inr (close_free p (ee_fd e) s)
      else if n = - 1 then Inr (close_free p (ee_fd e) s)
      else
        let e1 = e\<lparr>ee_data := cs @ drop (length cs) (ee_data e), ee_length := n\<rparr>
        in epoll_add ok (ee_fd e) EPOLLOUT p
             (s\<lparr>conns := (conns s)(p \<mapsto> e1), bytes_in := (bytes_in s)(ee_fd e := bytes_in s (ee_fd e) @ cs)\<rparr>))"

definition handle_write :: "bool \<Rightarrow> int \<Rightarrow> bool \<Rightarrow> nat \<Rightarrow> echo_event \<Rightarrow> echo_server \<Rightarrow> echo_stop + echo_server" where
  "handle_write ok r intr p e s =
     (if ee_offset e < 0 \<or> int MAXLEN < ee_offset e + ee_length e then Inl (Undef Index_out_of_range)
      else
        let written = take (nat r) (drop (nat (ee_offset e)) (ee_data e));
            s1 = s\<lparr>bytes_out := (bytes_out s)(ee_fd e := bytes_out s (ee_fd e) @ written)\<rparr>
        in if r = - 1 \<and> intr \<or> r < ee_length e then
             res_bind (epoll_add ok (ee_fd e) EPOLLOUT p s1) (\<lambda>s2.
               Inr (if r \<noteq> - 1
                    then s2\<lparr>conns := (conns s2)(p \<mapsto> e\<lparr>ee_length := ee_length e - r, ee_offset := ee_offset e + r\<rparr>)\<rparr>
                    else s2))
           else if r = - 1 then Inr (close_free p (ee_fd e) s1)
           else epoll_add ok (ee_fd e) EPOLLIN p s1)"

text \<open>\<open>makeSocketNonBlocking\<close>: the results of the two calls of \<open>fcntl\<close>.\<close>

definition makeSocketNonBlocking :: "int \<Rightarrow> int \<Rightarrow> echo_server \<Rightarrow> echo_stop + echo_server" where
  "makeSocketNonBlocking getfl setfl s =
     (if getfl = - 1 then Inl (Exit_1 ''fcntl F_GETFL failed.'')
      else if setfl = - 1 then Inl (Exit_1 ''fcntl F_SETFL failed.'') else Inr s)"

text \<open>An event as the main loop sees it, with the results of the calls made while it is handled.\<close>

datatype echo_io =
    Server_event bool int int int bool
  | Hangup int
  | Readable int int string bool bool
  | Writable int int bool bool bool

definition new_echo_event :: "int \<Rightarrow> echo_event" where
  "new_echo_event fd = \<lparr>ee_fd = fd, ee_event = EPOLLIN, ee_data = replicate MAXLEN (CHR 0x00), ee_length = 0, ee_offset = 0\<rparr>"

text \<open>The part of the loop for the connection sockets: find the record, take it out of the epoll set, handle it.\<close>

definition with_conn ::
  "int \<Rightarrow> event_kind \<Rightarrow> (nat \<Rightarrow> echo_event \<Rightarrow> echo_server \<Rightarrow> echo_stop + echo_server) \<Rightarrow> bool \<Rightarrow> echo_server \<Rightarrow> echo_stop + echo_server" where
  "with_conn fd ev h ok s =
     (case epoll_set s fd of
        None \<Rightarrow> Inr s
      | Some (p, ev') \<Rightarrow>
          if ev' \<noteq> ev then Inr s
          else (case conns s p of
                  None \<Rightarrow> Inl (Undef Use_after_free)
                | Some e \<Rightarrow>
                    let e1 = e\<lparr>ee_event := ev\<rparr>
                    in res_bind (epoll_del ok (ee_fd e) (s\<lparr>conns := (conns s)(p \<mapsto> e1)\<rparr>)) (h p e1)))"

fun on_event :: "echo_io \<Rightarrow> echo_server \<Rightarrow> echo_stop + echo_server" where
  "on_event (Server_event err connfd getfl setfl ok) s =
     (if err then Inl (Exit_1 '''')
      else if connfd = - 1 then Inl (Exit_1 ''Accept failed.'')
      else res_bind (makeSocketNonBlocking getfl setfl s) (\<lambda>s1.
        let p = next_ptr s1
        in epoll_add ok connfd EPOLLIN p (s1\<lparr>conns := (conns s1)(p \<mapsto> new_echo_event connfd), next_ptr := Suc p\<rparr>)))"
| "on_event (Hangup fd) s =
     (case epoll_set s fd of
        None \<Rightarrow> Inr s
      | Some (p, _) \<Rightarrow>
          (case conns s p of None \<Rightarrow> Inl (Undef Use_after_free) | Some e \<Rightarrow> Inr (close_free p (ee_fd e) s)))"
| "on_event (Readable fd n cs ok1 ok2) s = with_conn fd EPOLLIN (handle_read ok2 n cs) ok1 s"
| "on_event (Writable fd r intr ok1 ok2) s = with_conn fd EPOLLOUT (handle_write ok2 r intr) ok1 s"

fun echo_loop :: "echo_io list \<Rightarrow> echo_server \<Rightarrow> echo_stop + echo_server" where
  "echo_loop [] s = Inr s"
| "echo_loop (io # ios) s = res_bind (on_event io s) (echo_loop ios)"

text \<open>The set-up of \<open>main\<close>: the results of \<open>socket\<close>, \<open>bind\<close>, \<open>listen\<close>, \<open>epoll_create\<close> and of the registration.\<close>

definition main_setup :: "int \<Rightarrow> int \<Rightarrow> int \<Rightarrow> int \<Rightarrow> bool \<Rightarrow> echo_stop + echo_server" where
  "main_setup serverfd bound listening epollfd ok =
     (if serverfd = - 1 then Inl (Exit_1 ''Failed to create socket.'')
      else if bound = - 1 then Inl (Exit_1 ''Failed to bind.'')
      else if listening = - 1 then Inl (Exit_1 ''Failed to listen.'')
      else if epollfd = - 1 then Inl (Exit_1 ''Failed to create epoll context.'')
      else if \<not> ok then Inl (Exit_1 ''Failed to add an event for socket'')
      else Inr \<lparr>conns = Map.empty, next_ptr = 0, epoll_set = Map.empty, bytes_in = (\<lambda>_. []), bytes_out = (\<lambda>_. [])\<rparr>)"

section \<open>One message in several writes\<close>

definition registered :: "echo_server \<Rightarrow> int \<Rightarrow> nat \<Rightarrow> event_kind \<Rightarrow> echo_event \<Rightarrow> bool" where
  "registered s fd p ev e \<longleftrightarrow> epoll_set s fd = Some (p, ev) \<and> conns s p = Some e \<and> ee_fd e = fd"

text \<open>The results of writes that do not complete \<open>l\<close> bytes, and how many bytes they send.\<close>

fun partial_writes :: "int list \<Rightarrow> int \<Rightarrow> bool" where
  "partial_writes [] l \<longleftrightarrow> 0 < l"
| "partial_writes (r # rs) l \<longleftrightarrow> (r = - 1 \<and> 0 < l \<and> partial_writes rs l) \<or> (0 \<le> r \<and> r < l \<and> partial_writes rs (l - r))"

fun sent :: "int list \<Rightarrow> int" where
  "sent [] = 0"
| "sent (r # rs) = (if r = - 1 then 0 else r) + sent rs"

definition write_event :: "int \<Rightarrow> int \<Rightarrow> echo_io" where
  "write_event fd r = Writable fd r True True True"

lemma partial_sent: "partial_writes rs l \<Longrightarrow> 0 \<le> sent rs \<and> sent rs < l"
  by (induction rs arbitrary: l) fastforce+

lemma write_partial:
  assumes "registered s fd p EPOLLOUT e" "0 \<le> ee_offset e" "ee_offset e + ee_length e \<le> int MAXLEN" "0 < ee_length e"
    and "r = - 1 \<or> 0 \<le> r" "r < ee_length e"
  shows "\<exists>s' e'. on_event (write_event fd r) s = Inr s' \<and> registered s' fd p EPOLLOUT e' \<and> ee_data e' = ee_data e \<and>
    ee_offset e' = ee_offset e + sent [r] \<and> ee_length e' = ee_length e - sent [r] \<and>
    bytes_out s' fd = bytes_out s fd @ take (nat r) (drop (nat (ee_offset e)) (ee_data e)) \<and> bytes_in s' = bytes_in s"
  using assms by (auto simp: registered_def write_event_def with_conn_def epoll_del_def epoll_add_def handle_write_def Let_def)

lemma write_complete:
  assumes "registered s fd p EPOLLOUT e" "0 \<le> ee_offset e" "ee_offset e + ee_length e \<le> int MAXLEN" "0 < ee_length e"
  shows "\<exists>s' e'. on_event (write_event fd (ee_length e)) s = Inr s' \<and> registered s' fd p EPOLLIN e' \<and> ee_data e' = ee_data e \<and>
    ee_offset e' = ee_offset e \<and> 
    bytes_out s' fd = bytes_out s fd @ take (nat (ee_length e)) (drop (nat (ee_offset e)) (ee_data e)) \<and> bytes_in s' = bytes_in s"
  using assms by (auto simp: registered_def write_event_def with_conn_def epoll_del_def epoll_add_def handle_write_def Let_def)

lemma read_message:
  assumes "registered s fd p EPOLLIN e" "m \<noteq> []" "length m \<le> MAXLEN" "length (ee_data e) = MAXLEN"
  shows "\<exists>s' e'. on_event (Readable fd (int (length m)) m True True) s = Inr s' \<and> registered s' fd p EPOLLOUT e' \<and>
    ee_data e' = m @ drop (length m) (ee_data e) \<and> ee_offset e' = ee_offset e \<and> ee_length e' = int (length m) \<and>
    bytes_out s' = bytes_out s \<and> bytes_in s' = (bytes_in s)(fd := bytes_in s fd @ m)"
  using assms by (auto simp: registered_def with_conn_def epoll_del_def epoll_add_def handle_read_def Let_def)

lemma echo_loop_append: "echo_loop (xs @ ys) s = res_bind (echo_loop xs s) (echo_loop ys)"
proof (induction xs arbitrary: s)
  case (Cons x xs)
  have "echo_loop (xs @ ys) = (\<lambda>a. res_bind (echo_loop xs a) (echo_loop ys))" by (rule ext) (rule Cons.IH)
  then show ?case by (simp add: res_bind_assoc)
qed simp

lemma writes_partial:
  "registered s fd p EPOLLOUT e \<Longrightarrow> 0 \<le> ee_offset e \<Longrightarrow> ee_offset e + ee_length e \<le> int MAXLEN \<Longrightarrow>
   partial_writes rs (ee_length e) \<Longrightarrow>
   \<exists>s' e'. echo_loop (map (write_event fd) rs) s = Inr s' \<and> registered s' fd p EPOLLOUT e' \<and> ee_data e' = ee_data e \<and>
     ee_offset e' = ee_offset e + sent rs \<and> ee_length e' = ee_length e - sent rs \<and>
     bytes_out s' fd = bytes_out s fd @ take (nat (sent rs)) (drop (nat (ee_offset e)) (ee_data e)) \<and> bytes_in s' = bytes_in s"
proof (induction rs arbitrary: s e)
  case (Cons r rs)
  have r: "r = - 1 \<or> 0 \<le> r" "r < ee_length e" "0 < ee_length e" "partial_writes rs (ee_length e - sent [r])" using Cons.prems(4) by auto
  from write_partial [OF Cons.prems(1-3) r(3,1,2)] obtain s1 e1 where
    s1: "on_event (write_event fd r) s = Inr s1" "registered s1 fd p EPOLLOUT e1" "ee_data e1 = ee_data e"
      "ee_offset e1 = ee_offset e + sent [r]" "ee_length e1 = ee_length e - sent [r]"
      "bytes_out s1 fd = bytes_out s fd @ take (nat r) (drop (nat (ee_offset e)) (ee_data e))" "bytes_in s1 = bytes_in s" by blast
  have s0: "0 \<le> sent [r]" "nat r = nat (sent [r])" using r(1) by auto
  have "0 \<le> ee_offset e1" "ee_offset e1 + ee_length e1 \<le> int MAXLEN" "partial_writes rs (ee_length e1)"
    using Cons.prems(2,3) s0(1) r(4) unfolding s1(4,5) by simp_all
  from Cons.IH [OF s1(2) this] obtain s2 e2 where
    s2: "echo_loop (map (write_event fd) rs) s1 = Inr s2" "registered s2 fd p EPOLLOUT e2" "ee_data e2 = ee_data e1"
      "ee_offset e2 = ee_offset e1 + sent rs" "ee_length e2 = ee_length e1 - sent rs"
      "bytes_out s2 fd = bytes_out s1 fd @ take (nat (sent rs)) (drop (nat (ee_offset e1)) (ee_data e1))" "bytes_in s2 = bytes_in s1" by blast
  have n: "nat (ee_offset e1) = nat (sent [r]) + nat (ee_offset e)" "nat (sent (r # rs)) = nat (sent [r]) + nat (sent rs)"
    using s0(1) Cons.prems(2) partial_sent [OF r(4)] unfolding s1(4) by (auto simp: nat_add_distrib)
  let ?d = "drop (nat (ee_offset e)) (ee_data e)"
  have "bytes_out s2 fd = bytes_out s fd @ take (nat (sent [r])) ?d @ take (nat (sent rs)) (drop (nat (sent [r])) ?d)"
    unfolding s2(6) s1(6) s1(3) s0(2) n(1) by (simp only: append_assoc drop_drop)
  then have "bytes_out s2 fd = bytes_out s fd @ take (nat (sent (r # rs))) ?d" unfolding n(2) by (simp only: take_add)
  moreover have "echo_loop (map (write_event fd) (r # rs)) s = Inr s2" using s1(1) s2(1) by simp
  ultimately show ?case using s1(3,4,5,7) s2(2,3,4,5,7) by (intro exI [of _ s2] exI [of _ e2]) simp
qed auto

text \<open>One whole message: it is stored at the start of the buffer and echoed from the offset, in any number of partial writes.\<close>

definition echo_events :: "int \<Rightarrow> string \<Rightarrow> int list \<Rightarrow> echo_io list" where
  "echo_events fd m rs = Readable fd (int (length m)) m True True # map (write_event fd) (rs @ [int (length m) - sent rs])"

lemma echo_message:
  assumes "registered s fd p EPOLLIN e" "length (ee_data e) = MAXLEN" "ee_offset e = int off"
    and "off + length m \<le> MAXLEN" "partial_writes rs (int (length m))"
  shows "\<exists>s' e'. echo_loop (echo_events fd m rs) s = Inr s' \<and> registered s' fd p EPOLLIN e' \<and>
    ee_data e' = m @ drop (length m) (ee_data e) \<and> ee_offset e' = int off + sent rs \<and>
    bytes_out s' fd = bytes_out s fd @ take (length m) (drop off (m @ drop (length m) (ee_data e)))"
proof -
  have sr: "0 \<le> sent rs" "sent rs < int (length m)" using partial_sent [OF assms(5)] by auto
  then have m: "m \<noteq> []" "length m \<le> MAXLEN" using assms(4) by auto
  from read_message [OF assms(1) m assms(2)] obtain s1 e1 where
    s1: "on_event (Readable fd (int (length m)) m True True) s = Inr s1" "registered s1 fd p EPOLLOUT e1"
      "ee_data e1 = m @ drop (length m) (ee_data e)" "ee_offset e1 = int off" "ee_length e1 = int (length m)"
      "bytes_out s1 = bytes_out s" unfolding assms(3) by blast
  have "0 \<le> ee_offset e1" "ee_offset e1 + ee_length e1 \<le> int MAXLEN" "partial_writes rs (ee_length e1)"
    using assms(4,5) unfolding s1(4,5) by simp_all
  from writes_partial [OF s1(2) this] obtain s2 e2 where
    s2: "echo_loop (map (write_event fd) rs) s1 = Inr s2" "registered s2 fd p EPOLLOUT e2" "ee_data e2 = ee_data e1"
      "ee_offset e2 = int off + sent rs" "ee_length e2 = int (length m) - sent rs"
      "bytes_out s2 fd = bytes_out s1 fd @ take (nat (sent rs)) (drop (nat (ee_offset e1)) (ee_data e1))"
    unfolding s1(4,5) by blast
  have "0 \<le> ee_offset e2" "ee_offset e2 + ee_length e2 \<le> int MAXLEN" "0 < ee_length e2"
    using sr assms(4) unfolding s2(4,5) by simp_all
  from write_complete [OF s2(2) this] obtain s3 e3 where
    s3: "on_event (write_event fd (ee_length e2)) s2 = Inr s3" "registered s3 fd p EPOLLIN e3" "ee_data e3 = ee_data e2"
      "ee_offset e3 = ee_offset e2" "bytes_out s3 fd = bytes_out s2 fd @ take (nat (ee_length e2)) (drop (nat (ee_offset e2)) (ee_data e2))" by blast
  define k where "k = nat (sent rs)"
  have k: "nat (ee_offset e1) = off" "nat (ee_offset e2) = k + off" "nat (ee_length e2) = length m - k" "k + (length m - k) = length m"
    using sr unfolding s1(4) s2(4,5) k_def by auto
  have "take k (drop off (ee_data e1)) @ take (length m - k) (drop (k + off) (ee_data e1)) = take (k + (length m - k)) (drop off (ee_data e1))"
    by (simp only: take_add drop_drop)
  then have "bytes_out s3 fd = bytes_out s fd @ take (length m) (drop off (ee_data e1))"
    unfolding s3(5) s2(6) s2(3) s1(6) k(1-3) k_def [symmetric] k(4) by simp
  moreover have "echo_loop (echo_events fd m rs) s = Inr s3"
    using s1(1) s2(1) s3(1) by (simp add: echo_events_def echo_loop_append s2(5))
  ultimately show ?thesis using s3(2-4) s2(3,4) s1(3) by auto
qed

section \<open>Properties\<close>

text \<open>
  C36: a message is echoed byte for byte however the writes are cut and interrupted, until a write completes it.  But
  the offset is never reset: after \<open>k\<close> bytes of the first message went out in partial writes, the next message \<open>m2\<close> is
  echoed from position \<open>k\<close> of the buffer, so its first \<open>k\<close> bytes are lost and old bytes are sent instead.
\<close>

theorem echo_two_messages:
  assumes "registered s fd p EPOLLIN e" "ee_offset e = 0" "length (ee_data e) = MAXLEN"
    and "length m \<le> MAXLEN" "partial_writes rs (int (length m))" "k = nat (sent rs)"
    and "m2 \<noteq> []" "k + length m2 \<le> MAXLEN"
  shows "\<exists>s1 s2. echo_loop (echo_events fd m rs) s = Inr s1 \<and> bytes_out s1 fd = bytes_out s fd @ m \<and>
      echo_loop (echo_events fd m2 []) s1 = Inr s2 \<and>
      bytes_out s2 fd = bytes_out s1 fd @ take (length m2) (drop k (m2 @ drop (length m2) (m @ drop (length m) (ee_data e))))"
proof -
  have "ee_offset e = int 0" "0 + length m \<le> MAXLEN" using assms(2,4) by simp_all
  from echo_message [OF assms(1,3) this assms(5)] obtain s1 e1 where
    s1: "echo_loop (echo_events fd m rs) s = Inr s1" "registered s1 fd p EPOLLIN e1" "ee_data e1 = m @ drop (length m) (ee_data e)"
      "ee_offset e1 = sent rs" "bytes_out s1 fd = bytes_out s fd @ m" by auto
  have "length (ee_data e1) = MAXLEN" "ee_offset e1 = int k" "partial_writes [] (int (length m2))"
    using assms(3,4,6,7) partial_sent [OF assms(5)] unfolding s1(3,4) by auto
  from echo_message [OF s1(2) this(1,2) assms(8) this(3)] obtain s2 where
    "echo_loop (echo_events fd m2 []) s1 = Inr s2"
    "bytes_out s2 fd = bytes_out s1 fd @ take (length m2) (drop k (m2 @ drop (length m2) (ee_data e1)))" by blast
  then show ?thesis using s1(1,5) unfolding s1(3) by blast
qed

definition one_echo :: echo_server where
  "one_echo = \<lparr>conns = [0 \<mapsto> new_echo_event 7], next_ptr = 1, epoll_set = [7 \<mapsto> (0, EPOLLIN)],
     bytes_in = (\<lambda>_. []), bytes_out = (\<lambda>_. [])\<rparr>"

theorem echo_two_messages_witness:
  "\<exists>s1 s2. echo_loop [Readable 7 4 ''ping'' True True, write_event 7 2, write_event 7 2] one_echo = Inr s1 \<and> bytes_out s1 7 = ''ping'' \<and>
    echo_loop [Readable 7 4 ''pong'' True True, write_event 7 4] s1 = Inr s2 \<and>
    bytes_out s2 7 = ''pingng'' @ [CHR 0x00, CHR 0x00]"
  using echo_two_messages [of one_echo 7 0 "new_echo_event 7" "''ping''" "[2]" 2 "''pong''"]
  by (auto simp: echo_events_def registered_def one_echo_def new_echo_event_def MAXLEN_def)

end
