(* ===== verification/Memcached_Parser.thy ===== *)
theory Memcached_Parser
  imports Parser
begin

text \<open>
  The older parser \<open>Afina::Network::Memcached::Parser\<close> (src/src/network/memcached/Parser.h and Parser.cpp), from which
  the parser of src/src/protocol was made.  It keeps the current key, the sign of the expiry time and the end flag in
  local variables of \<open>Parse\<close>, so they are lost from one call to the next; the sign is not initialised.  The
  states are those of the protocol parser (its unused \<open>sRC\<close> is \<open>sCR\<close> here).
\<close>

section \<open>State\<close>

record mparser =
  m_state :: parser_state
  m_name :: string
  m_keys :: "string list"
  m_flags :: u32
  m_exprtime :: int
  m_bytes :: u32

record parse_locals =
  l_curKey :: string
  l_negative :: "bool option"
  l_complete :: bool

datatype legacy_error =
    Throw string
  | Read_uninitialised
  | Undefined_behaviour ub

definition Reset :: "mparser \<Rightarrow> mparser" where
  "Reset m = m\<lparr>m_state := sName, m_name := [], m_keys := [], m_flags := 0, m_bytes := 0, m_exprtime := 0\<rparr>"

definition new_mparser :: mparser where
  "new_mparser = Reset \<lparr>m_state = sCR, m_name = [], m_keys = [], m_flags = 0, m_exprtime = 0, m_bytes = 0\<rparr>"

section \<open>Parsing\<close>

type_synonym mstep = "(legacy_error \<times> mparser) + mparser \<times> parse_locals"

definition m_name_step :: "mparser \<Rightarrow> parse_locals \<Rightarrow> char \<Rightarrow> mstep" where
  "m_name_step m v c =
     (if c = sp then
        (if m_name m \<in> {''set'', ''add'', ''append'', ''prepend''} then Inr (m\<lparr>m_state := spKey\<rparr>, v)
         else if m_name m \<in> {''get'', ''gets''} then Inr (m\<lparr>m_state := sgKey\<rparr>, v)
         else Inl (Throw ''Unknown command name'', m))
      else Inr (m\<lparr>m_name := m_name m @ [c]\<rparr>, v))"

definition m_put_key_step :: "mparser \<Rightarrow> parse_locals \<Rightarrow> char \<Rightarrow> mstep" where
  "m_put_key_step m v c =
     (if c = sp then Inr (m\<lparr>m_state := spFlags, m_keys := m_keys m @ [l_curKey v]\<rparr>, v)
      else Inr (m, v\<lparr>l_curKey := l_curKey v @ [c]\<rparr>))"

definition m_get_key_step :: "mparser \<Rightarrow> parse_locals \<Rightarrow> char \<Rightarrow> mstep" where
  "m_get_key_step m v c =
     (if c = cr then
        let m1 = m\<lparr>m_keys := m_keys m @ [l_curKey v]\<rparr>
        in if length (m_keys m1) = 0 then Inl (Throw ''Client provides no key for retrive'', m1)
           else Inr (m1\<lparr>m_state := sLF\<rparr>, v\<lparr>l_curKey := []\<rparr>)
      else if c = sp then Inr (m\<lparr>m_state := sgKey, m_keys := m_keys m @ [l_curKey v]\<rparr>, v\<lparr>l_curKey := []\<rparr>)
      else Inr (m, v\<lparr>l_curKey := l_curKey v @ [c]\<rparr>))"

definition m_flags_step :: "mparser \<Rightarrow> parse_locals \<Rightarrow> char \<Rightarrow> mstep" where
  "m_flags_step m v c =
     (if c = sp then Inr (m\<lparr>m_state := spExprTimeStart\<rparr>, v\<lparr>l_negative := Some False\<rparr>)
      else if is_digit c then
        let f = m_flags m * 10 + of_nat (digit_val c)
        in if f < m_flags m then Inl (Throw ''Flags field overflow'', m) else Inr (m\<lparr>m_flags := f\<rparr>, v)
      else Inr (m, v))"

definition m_expr_time_start_step :: "mparser \<Rightarrow> parse_locals \<Rightarrow> char \<Rightarrow> mstep" where
  "m_expr_time_start_step m v c =
     (if c = CHR ''-'' then Inr (m\<lparr>m_state := spExprTime\<rparr>, v\<lparr>l_negative := Some True\<rparr>)
      else if is_digit c then Inr (m\<lparr>m_exprtime := int (digit_val c), m_state := spExprTime\<rparr>, v)
      else Inr (m, v))"

definition m_expr_time_step :: "mparser \<Rightarrow> parse_locals \<Rightarrow> char \<Rightarrow> mstep" where
  "m_expr_time_step m v c =
     (if c = sp then Inr (m\<lparr>m_state := spBytes\<rparr>, v)
      else if is_digit c then
        (case l_negative v of
           None \<Rightarrow> Inl (Read_uninitialised, m)
         | Some neg \<Rightarrow>
             let et = (if neg then m_exprtime m - int (digit_val c) else m_exprtime m + int (digit_val c))
             in if \<not> in_int et then Inl (Undefined_behaviour Signed_overflow, m)
                else if neg \<and> et > m_exprtime m \<or> \<not> neg \<and> et < m_exprtime m
                  then Inl (Throw ''Expire time field overflow'', m)
                else Inr (m\<lparr>m_exprtime := et\<rparr>, v))
      else Inr (m, v))"

definition m_bytes_step :: "mparser \<Rightarrow> parse_locals \<Rightarrow> char \<Rightarrow> mstep" where
  "m_bytes_step m v c =
     (if c = cr then Inr (m\<lparr>m_state := sLF\<rparr>, v)
      else if is_digit c then
        let b = m_bytes m * 10 + of_nat (digit_val c)
        in if b < m_bytes m then Inl (Throw ''Bytes field overflow'', m) else Inr (m\<lparr>m_bytes := b\<rparr>, v)
      else Inr (m, v))"

definition m_lf_step :: "mparser \<Rightarrow> parse_locals \<Rightarrow> char \<Rightarrow> mstep" where
  "m_lf_step m v c =
     (if c = lf then Inr (m, v\<lparr>l_complete := True\<rparr>) else Inl (Throw ''Invalid char'', m))"

definition m_step :: "mparser \<Rightarrow> parse_locals \<Rightarrow> char \<Rightarrow> mstep" where
  "m_step m v c =
     (case m_state m of
        sName \<Rightarrow> m_name_step m v c
      | spKey \<Rightarrow> m_put_key_step m v c
      | sgKey \<Rightarrow> m_get_key_step m v c
      | spFlags \<Rightarrow> m_flags_step m v c
      | spExprTimeStart \<Rightarrow> m_expr_time_start_step m v c
      | spExprTime \<Rightarrow> m_expr_time_step m v c
      | spBytes \<Rightarrow> m_bytes_step m v c
      | sLF \<Rightarrow> m_lf_step m v c
      | sCR \<Rightarrow> Inl (Throw ''Unknown state'', m))"

fun m_loop :: "mparser \<Rightarrow> parse_locals \<Rightarrow> nat \<Rightarrow> string \<Rightarrow> (legacy_error \<times> mparser) + mparser \<times> nat" where
  "m_loop m v pos [] = Inr (m, pos)"
| "m_loop m v pos (c # cs) =
     (if l_complete v then Inr (m, pos)
      else res_bind (m_step m v c) (\<lambda>(m', v'). m_loop m' v' (Suc pos) cs))"

definition fresh_locals :: parse_locals where
  "fresh_locals = \<lparr>l_curKey = [], l_negative = None, l_complete = False\<rparr>"

text \<open>\<open>Parse(input, size, parsed)\<close>: \<open>parsed\<close> is advanced, not set, and only when nothing was thrown.\<close>

definition Parse :: "mparser \<Rightarrow> string \<Rightarrow> nat \<Rightarrow> u64 \<Rightarrow> (legacy_error \<times> mparser) + mparser \<times> u64 \<times> bool" where
  "Parse m input sz parsed =
     res_bind (m_loop (m\<lparr>m_bytes := 0\<rparr>) fresh_locals 0 (take sz input))
       (\<lambda>(m', pos). Inr (m', parsed + of_nat pos, m_state m' = sLF))"

definition m_first_key :: "mparser \<Rightarrow> legacy_error + string" where
  "m_first_key m = (case m_keys m of [] \<Rightarrow> Inl (Undefined_behaviour Index_out_of_range) | k # _ \<Rightarrow> Inr k)"

definition Build :: "mparser \<Rightarrow> u32 \<Rightarrow> legacy_error + command option \<times> u32" where
  "Build m body_size =
     (if m_state m \<noteq> sLF then Inr (None, body_size)
      else if m_name m = ''set'' then
        res_bind (m_first_key m) (\<lambda>k. Inr (Some (new_Set k (m_flags m) (m_exprtime m)), m_bytes m))
      else if m_name m = ''add'' then
        res_bind (m_first_key m) (\<lambda>k. Inr (Some (new_Add k (m_flags m) (m_exprtime m)), m_bytes m))
      else if m_name m = ''append'' then
        res_bind (m_first_key m) (\<lambda>k. Inr (Some (new_Append k (m_flags m) (m_exprtime m)), m_bytes m))
      else if m_name m = ''get'' then Inr (Some (new_Get (m_keys m)), m_bytes m)
      else Inl (Throw ''Unsupported command''))"

section \<open>Agreement with the protocol parser\<close>

text \<open>
  The fields the two parsers share, and what the older one throws where the protocol parser reports an error.  The texts
  are the same but for two: the older parser words the error about a missing key differently, and says of an invalid
  character neither its code nor its position.
\<close>

definition shared_fields :: "parser \<Rightarrow> mparser" where
  "shared_fields p = \<lparr>m_state = p_state p, m_name = p_name p, m_keys = p_keys p, m_flags = p_flags p,
     m_exprtime = p_exprtime p, m_bytes = p_bytes p\<rparr>"

fun legacy_of :: "parse_error \<Rightarrow> legacy_error" where
  "legacy_of No_key_to_retrieve = Throw ''Client provides no key for retrive''"
| "legacy_of (Invalid_char c pos) = Throw ''Invalid char''"
| "legacy_of (Undefined u) = Undefined_behaviour u"
| "legacy_of e = Throw (parse_error_text e)"

text \<open>The local variables that stand for the fields the protocol parser added; the sign counts only where it is read.\<close>

definition locals_ok :: "parser \<Rightarrow> parse_locals \<Rightarrow> bool" where
  "locals_ok p v \<longleftrightarrow> l_curKey v = p_curKey p \<and> l_complete v = p_complete p \<and>
     (p_state p \<in> {spExprTimeStart, spExprTime} \<longrightarrow> l_negative v = Some (p_negative p))"

definition step_agrees :: "mstep \<Rightarrow> parse_result \<Rightarrow> bool" where
  "step_agrees r w \<longleftrightarrow>
     (case w of
        Inl (e, q) \<Rightarrow> r = Inl (legacy_of e, shared_fields q)
      | Inr q \<Rightarrow> p_state q \<noteq> sName \<and> (\<exists>v. r = Inr (shared_fields q, v) \<and> locals_ok q v))"

lemma step_agrees_char:
  assumes "p_state p \<noteq> sName" "locals_ok p v"
  shows "step_agrees (m_step (shared_fields p) v c) (parse_char p pos c)"
  using assms
  by (cases "p_state p")
    (auto simp: step_agrees_def parse_defs m_step_def shared_fields_def locals_ok_def m_put_key_step_def m_get_key_step_def
      m_flags_step_def m_expr_time_start_step_def m_expr_time_step_def m_bytes_step_def m_lf_step_def Let_def)

definition legacy_loop_result :: "(parse_error \<times> parser) + parser \<times> nat \<Rightarrow> (legacy_error \<times> mparser) + mparser \<times> nat" where
  "legacy_loop_result r = (case r of Inl (e, q) \<Rightarrow> Inl (legacy_of e, shared_fields q) | Inr (q, n) \<Rightarrow> Inr (shared_fields q, n))"

lemma loop_agrees:
  "p_state p \<noteq> sName \<Longrightarrow> locals_ok p v \<Longrightarrow>
     m_loop (shared_fields p) v pos cs = legacy_loop_result (parse_loop p pos cs)"
proof (induction cs arbitrary: p v pos)
  case (Cons c cs)
  have v: "l_complete v = p_complete p" using Cons.prems(2) by (simp add: locals_ok_def)
  show ?case
  proof (cases "parse_char p pos c")
    case (Inl a)
    then show ?thesis using step_agrees_char [OF Cons.prems, of c pos] v
      by (cases a) (simp add: step_agrees_def legacy_loop_result_def)
  next
    case (Inr q)
    then obtain v' where "p_state q \<noteq> sName" "m_step (shared_fields p) v c = Inr (shared_fields q, v')" "locals_ok q v'"
      using step_agrees_char [OF Cons.prems, of c pos] by (auto simp: step_agrees_def)
    then show ?thesis using Cons.IH [of q v' "Suc pos"] Inr v by (simp add: legacy_loop_result_def)
  qed
qed (simp add: legacy_loop_result_def)

text \<open>
  A call on a parser that is past the name: the current key and the byte count of the previous calls are forgotten, so
  it gives what the protocol parser gives after both were cleared.
\<close>

lemma continued_call_forgets:
  assumes "p_state p \<notin> {sName, spExprTimeStart, spExprTime}"
  shows "m_loop ((shared_fields p)\<lparr>m_bytes := 0\<rparr>) fresh_locals pos cs =
    legacy_loop_result (parse_loop (p\<lparr>p_curKey := [], p_bytes := 0, p_complete := False\<rparr>) pos cs)"
proof -
  let ?p = "p\<lparr>p_curKey := [], p_bytes := 0, p_complete := False\<rparr>"
  have "m_loop (shared_fields ?p) fresh_locals pos cs = legacy_loop_result (parse_loop ?p pos cs)"
    using assms by (intro loop_agrees) (auto simp: locals_ok_def fresh_locals_def)
  moreover have "(shared_fields p)\<lparr>m_bytes := 0\<rparr> = shared_fields ?p" by (simp add: shared_fields_def)
  ultimately show ?thesis by simp
qed

lemma m_loop_name:
  "sp \<notin> set nm \<Longrightarrow> m_state m = sName \<Longrightarrow> \<not> l_complete v \<Longrightarrow>
     m_loop m v pos (nm @ cs) = m_loop (m\<lparr>m_name := m_name m @ nm\<rparr>) v (pos + length nm) cs"
  by (induction nm arbitrary: m pos) (auto simp: m_step_def m_name_step_def)

lemma m_name_step_alt:
  "m_name_step m v c =
     (if c = sp then
        (if put_name (m_name m) then Inr (m\<lparr>m_state := spKey\<rparr>, v)
         else if get_name (m_name m) then Inr (m\<lparr>m_state := sgKey\<rparr>, v)
         else Inl (Throw ''Unknown command name'', m))
      else Inr (m\<lparr>m_name := m_name m @ [c]\<rparr>, v))"
  by (simp only: m_name_step_def put_name_def get_name_def)

lemma name_end_agrees:
  assumes "p_state p = sName" "p_name p \<noteq> ''stats''" "locals_ok p v" "\<not> p_complete p"
  shows "m_loop (shared_fields p) v pos (sp # cs) = legacy_loop_result (parse_loop p pos (sp # cs))"
proof -
  have v: "\<not> l_complete v" using assms(3,4) by (simp add: locals_ok_def)
  show ?thesis
  proof (cases "parse_char p pos sp")
    case (Inl a)
    then show ?thesis using assms(1,2,4) v
      by (auto simp: parse_char_def parse_name_alt legacy_loop_result_def m_step_def m_name_step_alt shared_fields_def split: if_splits)
  next
    case (Inr q)
    then have q: "p_state q \<noteq> sName" "locals_ok q v" "m_step (shared_fields p) v sp = Inr (shared_fields q, v)"
      using assms(1-3) by (auto simp: parse_char_def parse_name_alt m_step_def m_name_step_alt shared_fields_def locals_ok_def split: if_splits)
    then show ?thesis using loop_agrees [OF q(1,2), of "Suc pos" cs] Inr assms(4) v by (simp add: legacy_loop_result_def)
  qed
qed

lemma Build_agrees: "p_name p \<noteq> ''stats'' \<Longrightarrow> Build (shared_fields p) bs = map_sum legacy_of id (Parser.Build p bs)"
  by (auto simp: Build_def Parser.Build_def shared_fields_def m_first_key_def first_key_def split: list.split)

lemma parse_char_name:
  "p_state p \<noteq> sName \<Longrightarrow> parse_char p pos c = Inr q \<Longrightarrow> p_state q \<noteq> sName \<and> p_name q = p_name p"
  by (cases "p_state p") (auto simp: parse_defs Let_def split: if_splits)

lemma parse_loop_keeps_name:
  "p_state p \<noteq> sName \<Longrightarrow> parse_loop p pos cs = Inr (q, n) \<Longrightarrow> p_name q = p_name p"
proof (induction cs arbitrary: p pos)
  case (Cons c cs)
  then show ?case using parse_char_name [OF Cons.prems(1), of pos c] by (fastforce simp: res_simps split: if_splits)
qed simp

lemma header_name:
  assumes "p_state p = sName" "p_name p \<noteq> ''stats''" "parse_loop p pos (sp # cs) = Inr (q, n)"
  shows "p_name q = p_name p"
proof (cases "p_complete p")
  case False
  with assms(3) obtain p1 where p1: "parse_char p pos sp = Inr p1" "parse_loop p1 (Suc pos) cs = Inr (q, n)"
    by (auto simp: res_simps)
  then have "p_state p1 \<noteq> sName" "p_name p1 = p_name p"
    using assms(1,2) by (auto simp: parse_char_def parse_name_alt split: if_splits)
  with p1(2) parse_loop_keeps_name show ?thesis by metis
qed (use assms(3) in simp)

lemma legacy_of_text:
  "e \<noteq> No_key_to_retrieve \<Longrightarrow>
     legacy_of e = (case e of Invalid_char c pos \<Rightarrow> Throw ''Invalid char'' | Undefined u \<Rightarrow> Undefined_behaviour u
       | _ \<Rightarrow> Throw (parse_error_text e))"
  by (cases e) auto

section \<open>Properties\<close>

text \<open>
  C37: Take a header that arrives in one call, whose name is not \<open>stats\<close> and is ended by a space and holds no carriage
  return (only the protocol parser knows \<open>stats\<close> and ends a name at a carriage return).  Whatever follows the name, the
  older parser accepts it exactly when the protocol parser does, with the same fields and the same number of bytes
  consumed, and \<open>Build\<close> then gives the same command and body size, or refuses it in the same way.  Where the protocol
  parser throws, the older one throws at the same character, with the same fields and the same text, unless the error is
  an invalid character, of which it does not say the code and the position; a signed overflow happens in both.  The result
  \<open>true\<close> differs: the older parser gives it as soon as the carriage return was read.
\<close>

theorem legacy_parser_agrees:
  assumes "sp \<notin> set nm" "cr \<notin> set nm" "nm \<noteq> ''stats''" "txt = nm @ sp # rest"
  shows "(\<forall>e q. Parser.Parse (new_Parser neg) txt (length txt) = Inl (e, q) \<longrightarrow>
        Parse new_mparser txt (length txt) parsed =
          Inl (case e of Invalid_char c pos \<Rightarrow> Throw ''Invalid char'' | Undefined u \<Rightarrow> Undefined_behaviour u
               | _ \<Rightarrow> Throw (parse_error_text e), shared_fields q)) \<and>
    (\<forall>q n b. Parser.Parse (new_Parser neg) txt (length txt) = Inr (q, n, b) \<longrightarrow>
        Parse new_mparser txt (length txt) parsed = Inr (shared_fields q, parsed + of_nat n, p_state q = sLF) \<and>
        Build (shared_fields q) bs = map_sum legacy_of id (Parser.Build q bs))"
proof -
  let ?p = "(new_Parser neg)\<lparr>p_name := nm\<rparr>"
  have st: "p_state ?p = sName" "p_name ?p = nm" "\<not> p_complete ?p" "locals_ok ?p fresh_locals"
    by (simp_all add: new_Parser_fields locals_ok_def fresh_locals_def)
  have "parse_loop (new_Parser neg) 0 nm = Inr (?p, length nm)"
    using parse_loop_name [OF assms(1,2), of "new_Parser neg" 0] by (simp add: new_Parser_fields)
  then have new: "parse_loop (new_Parser neg) 0 txt = parse_loop ?p (length nm) (sp # rest)"
    unfolding assms(4) parse_loop_append by simp
  have "m_loop (new_mparser\<lparr>m_bytes := 0\<rparr>) fresh_locals 0 txt = m_loop (shared_fields ?p) fresh_locals (length nm) (sp # rest)"
    unfolding assms(4) using m_loop_name [OF assms(1), of "new_mparser\<lparr>m_bytes := 0\<rparr>" fresh_locals 0 "sp # rest"]
    by (simp add: new_mparser_def Reset_def fresh_locals_def shared_fields_def new_Parser_fields)
  then have old: "m_loop (new_mparser\<lparr>m_bytes := 0\<rparr>) fresh_locals 0 txt = legacy_loop_result (parse_loop ?p (length nm) (sp # rest))"
    using name_end_agrees [OF st(1) _ st(4,3)] assms(3) st(2) by simp
  have "p_name q = nm" if "parse_loop ?p (length nm) (sp # rest) = Inr (q, n)" for q n
    using header_name [OF st(1) _ that] assms(3) st(2) by simp
  then have "Build (shared_fields q) bs = map_sum legacy_of id (Parser.Build q bs)"
    if "parse_loop ?p (length nm) (sp # rest) = Inr (q, n)" for q n using Build_agrees assms(3) that by metis
  moreover have "parser_inv (new_Parser neg)" by (intro parser_reach_inv reach_new)
  then have "e \<noteq> No_key_to_retrieve" if "parse_loop ?p (length nm) (sp # rest) = Inl (e, q)" for e q
    using parse_loop_inv [of "new_Parser neg" 0 "txt"] that new by simp
  ultimately show ?thesis
    using old new by (auto simp: Parse_def Parser.Parse_def res_simps legacy_loop_result_def shared_fields_def legacy_of_text)
qed

theorem legacy_parser_agrees_witness:
  "\<exists>q. Parse new_mparser (store_header ''set'' ''k'' 7 ''60'' 300) (length (store_header ''set'' ''k'' 7 ''60'' 300)) 0 = Inr (shared_fields q, 16, True)"
proof -
  let ?t = "store_header ''set'' ''k'' 7 ''60'' 300"
  let ?r = "drop 4 ?t"
  have t: "?t = ''set'' @ sp # ?r" "length ?t = 16" by (simp_all add: store_header_def show_nat.simps digit_char_def)
  have "\<exists>q. parse_loop (new_Parser False) 0 (store_header ''set'' ''k'' 7 (expr_time_text False ''60'') 300)
      = Inr (q, length (store_header ''set'' ''k'' 7 (expr_time_text False ''60'') 300)) \<and> p_state q = sLF \<and> p_complete q"
    using parse_store_header [of "''set''" "''k''" 7 300 "''60''" False False] by (auto simp: is_digit_def)
  then obtain q where "Parser.Parse (new_Parser False) ?t (length ?t) = Inr (q, 16, True)" "p_state q = sLF"
    by (auto simp: Parser.Parse_def expr_time_text_def t(2))
  then show ?thesis using legacy_parser_agrees [OF _ _ _ t(1), where neg = False and parsed = 0 and bs = 0] by auto
qed

end
