(* ===== verification/Application.thy ===== *)
theory Application
  imports Prelude
begin

text \<open>
  The program itself: \<open>main\<close> of src/src/main.cpp.  The parsed command line is an argument (the option parser is a
  third-party header), the services and the event loop are calls recorded in order, and whether a call throws is a
  parameter.
\<close>

section \<open>State\<close>

record cmdline =
  opt_help :: bool
  opt_storage :: "string option"
  opt_network :: "string option"

datatype network_type = Net_uv | Net_blocking | Net_nonblocking

datatype app_call =
    Loop_init
  | Signal_start string
  | Timer_start nat nat
  | Storage_Start
  | Server_Start network_type nat nat
  | Uv_run
  | Server_Stop
  | Server_Join
  | Storage_Stop

text \<open>How \<open>main\<close> ends: it returns a status, or an exception leaves it; both with the calls made before.\<close>

datatype app_end = Returned int "app_call list" | Uncaught string "app_call list"

section \<open>Operations\<close>

definition pick_storage :: "cmdline \<Rightarrow> string + unit" where
  "pick_storage o1 =
     (let storage_type = (case opt_storage o1 of None \<Rightarrow> ''map_global'' | Some s \<Rightarrow> s)
      in if storage_type = ''map_global'' then Inr () else Inl ''Unknown storage type'')"

definition pick_network :: "cmdline \<Rightarrow> string + network_type" where
  "pick_network o1 =
     (let network_type = (case opt_network o1 of None \<Rightarrow> ''uv'' | Some s \<Rightarrow> s)
      in if network_type = ''uv'' then Inr Net_uv
         else if network_type = ''blocking'' then Inr Net_blocking
         else if network_type = ''nonblocking'' then Inr Net_nonblocking
         else Inl ''Unknown network type'')"

text \<open>The calls of a \<open>try\<close> block: those made, the one that throws included.\<close>

fun try_calls :: "(app_call \<Rightarrow> bool) \<Rightarrow> app_call list \<Rightarrow> app_call list" where
  "try_calls throws [] = []"
| "try_calls throws (c # cs) = c # (if throws c then [] else try_calls throws cs)"

definition loop_setup :: "app_call list" where
  "loop_setup = [Loop_init, Signal_start ''SIGTERM'', Signal_start ''SIGINT'', Timer_start 0 5000]"

definition services :: "network_type \<Rightarrow> app_call list" where
  "services nt = [Storage_Start, Server_Start nt 8080 4, Uv_run, Server_Stop, Server_Join, Storage_Stop]"

definition main :: "string + cmdline \<Rightarrow> (app_call \<Rightarrow> bool) \<Rightarrow> app_end" where
  "main args throws =
     (case args of
        Inl _ \<Rightarrow> Returned 1 []
      | Inr o1 \<Rightarrow>
          if opt_help o1 then Returned 0 []
          else (case pick_storage o1 of
                  Inl e \<Rightarrow> Uncaught e []
                | Inr _ \<Rightarrow>
                    (case pick_network o1 of
                       Inl e \<Rightarrow> Uncaught e []
                     | Inr nt \<Rightarrow> Returned 0 (loop_setup @ try_calls throws (services nt)))))"

section \<open>What a run does\<close>

lemma try_calls_prefix:
  "\<exists>rest. cs = try_calls throws cs @ rest \<and> (rest \<noteq> [] \<longrightarrow> throws (last (try_calls throws cs)))"
proof (induction cs)
  case (Cons c cs)
  then obtain rest where r: "cs = try_calls throws cs @ rest" "rest \<noteq> [] \<longrightarrow> throws (last (try_calls throws cs))" by blast
  show ?case
  proof (cases "throws c")
    case False
    then show ?thesis using r by (intro exI [of _ rest]) (cases cs; auto)
  qed auto
qed simp

text \<open>
  The services are stopped only after an orderly run of the loop: when \<open>Server_Start\<close> throws, neither \<open>Stop\<close> nor
  \<open>Join\<close> is called and the status is 0 all the same.
\<close>

lemma failed_start_returns_0:
  assumes "\<not> opt_help o1" "pick_storage o1 = Inr ()" "pick_network o1 = Inr nt"
    and "throws (Server_Start nt 8080 4)" "\<not> throws Storage_Start"
  shows "main (Inr o1) throws = Returned 0 (loop_setup @ [Storage_Start, Server_Start nt 8080 4])"
  using assms by (simp add: main_def services_def)

lemma orderly_run:
  assumes "\<forall>c. \<not> throws c" "opt_storage o1 = None" "opt_network o1 = None" "\<not> opt_help o1"
  shows "main (Inr o1) throws = Returned 0 (loop_setup @ services Net_uv)"
  using assms by (simp add: main_def services_def pick_storage_def pick_network_def)

end
