(* ===== verification/Count_Down_Latch.thy ===== *)
theory Count_Down_Latch
  imports Prelude
begin

text \<open>
  The countdown latch of src/materials/09-advanced-synchronization/code/count_down_latch.h and count_down_latch.cpp.
  Every operation runs under the mutex, so it is one step; \<open>await\<close> is the step that enters it and, when it had to wait,
  a second step that leaves it.  A wait on a condition variable ends after a notification, after the given time, or
  spuriously.
\<close>

section \<open>State\<close>

datatype await_pos = Running | Waiting bool | Notified | Returned_from_await

record latch =
  count :: u32
  waiters :: "nat \<Rightarrow> await_pos"

definition countdownlatch :: "u32 \<Rightarrow> latch" where
  "countdownlatch n = \<lparr>count = n, waiters = (\<lambda>_. Running)\<rparr>"

section \<open>Operations\<close>

text \<open>The start of \<open>await(nanosecs)\<close> by thread \<open>t\<close>; the flag of \<open>Waiting\<close> tells whether the wait has a limit.\<close>

definition await :: "nat \<Rightarrow> u64 \<Rightarrow> latch \<Rightarrow> latch" where
  "await t nanosecs l =
     (if count l = 0 then l\<lparr>waiters := (waiters l)(t := Returned_from_await)\<rparr>
      else l\<lparr>waiters := (waiters l)(t := Waiting (nanosecs > 0))\<rparr>)"

definition get_count :: "latch \<Rightarrow> u32" where
  "get_count l = count l"

definition notify_all :: "latch \<Rightarrow> latch" where
  "notify_all l = l\<lparr>waiters := (\<lambda>t. case waiters l t of Waiting _ \<Rightarrow> Notified | p \<Rightarrow> p)\<rparr>"

definition count_down :: "latch \<Rightarrow> latch" where
  "count_down l =
     (if count l = 0 then l
      else let l1 = l\<lparr>count := count l - 1\<rparr> in if count l1 = 0 then notify_all l1 else l1)"

definition leave :: "nat \<Rightarrow> latch \<Rightarrow> latch" where
  "leave t l = l\<lparr>waiters := (waiters l)(t := Returned_from_await)\<rparr>"

section \<open>Steps\<close>

inductive latch_step :: "latch \<Rightarrow> latch \<Rightarrow> bool" where
  step_await: "waiters l t \<in> {Running, Returned_from_await} \<Longrightarrow> latch_step l (await t ns l)"
| step_count_down: "latch_step l (count_down l)"
| step_notified: "waiters l t = Notified \<Longrightarrow> latch_step l (leave t l)"
| step_timeout: "waiters l t = Waiting True \<Longrightarrow> latch_step l (leave t l)"
| step_spurious: "waiters l t = Waiting lim \<Longrightarrow> latch_step l (leave t l)"

inductive latch_reach :: "u32 \<Rightarrow> latch \<Rightarrow> bool" for n where
  latch_init: "latch_reach n (countdownlatch n)"
| latch_next: "latch_reach n l \<Longrightarrow> latch_step l l' \<Longrightarrow> latch_reach n l'"

inductive_cases latch_stepE: "latch_step l l'"

section \<open>What the latch guarantees\<close>

text \<open>No thread is left waiting on an open latch, and a notified thread finds it open.\<close>

definition latch_inv :: "u32 \<Rightarrow> latch \<Rightarrow> bool" where
  "latch_inv n l \<longleftrightarrow> count l \<le> n \<and> (count l = 0 \<longrightarrow> (\<forall>t lim. waiters l t \<noteq> Waiting lim)) \<and>
     (\<forall>t. waiters l t = Notified \<longrightarrow> count l = 0)"

lemma count_down_le: "(c :: u32) \<noteq> 0 \<Longrightarrow> c \<le> n \<Longrightarrow> c - 1 \<le> n"
  by (simp add: word_le_nat_alt unat_minus_one)

lemma latch_inv_await: "latch_inv n l \<Longrightarrow> latch_inv n (await t ns l)"
  by (auto simp: latch_inv_def await_def)

lemma latch_inv_leave: "latch_inv n l \<Longrightarrow> latch_inv n (leave t l)"
  by (auto simp: latch_inv_def leave_def)

lemma latch_inv_count_down: "latch_inv n l \<Longrightarrow> latch_inv n (count_down l)"
  by (auto simp: latch_inv_def count_down_def notify_all_def Let_def count_down_le split: await_pos.splits)

lemma latch_inv_step: "latch_inv n l \<Longrightarrow> latch_step l l' \<Longrightarrow> latch_inv n l'"
  by (erule latch_stepE) (simp_all add: latch_inv_await latch_inv_leave latch_inv_count_down)

lemma latch_inv_reach: "latch_reach n l \<Longrightarrow> latch_inv n l"
  by (induction rule: latch_reach.induct) (simp_all add: latch_inv_step, simp add: latch_inv_def countdownlatch_def)

text \<open>\<open>n\<close> calls open a latch of \<open>n\<close>; the waiting threads are notified by the last of them and by no other.\<close>

lemma count_downs:
  "unat (count l) = n \<Longrightarrow> count ((count_down ^^ n) l) = 0"
proof (induction n arbitrary: l)
  case 0
  then show ?case by (simp add: unat_eq_zero)
next
  case (Suc n)
  then have nz: "count l \<noteq> 0" by auto
  then have "unat (count (count_down l)) = n" using Suc.prems by (auto simp: count_down_def notify_all_def Let_def unat_minus_one)
  from Suc.IH [OF this] show ?case by (simp add: funpow_swap1)
qed

text \<open>
  But \<open>await\<close> waits without a predicate: a spurious wake-up lets a thread that asked for an unlimited wait return from a
  latch that is still closed.
\<close>

lemma await_returns_closed:
  assumes "0 < n"
  shows "\<exists>l. latch_reach n l \<and> waiters l t = Returned_from_await \<and> count l = n"
proof (intro exI conjI)
  let ?l1 = "await t 0 (countdownlatch n)" and ?l = "leave t (await t 0 (countdownlatch n))"
  have w: "waiters ?l1 t = Waiting False" "count ?l1 = n" using assms by (auto simp: await_def countdownlatch_def)
  have "latch_step (countdownlatch n) ?l1" by (rule step_await) (simp add: countdownlatch_def)
  moreover have "latch_step ?l1 ?l" using w(1) by (rule step_spurious)
  ultimately show "latch_reach n ?l" using latch_init latch_next by metis
  show "waiters ?l t = Returned_from_await" "count ?l = n" using w(2) by (simp_all add: leave_def)
qed

end
