(* ===== verification/Latch_Demo.thy ===== *)
theory Latch_Demo
  imports Count_Down_Latch
begin

text \<open>
  The program src/materials/09-advanced-synchronization/code/count_down_latch_demo.cpp: two threads wait for a latch of ten
  that \<open>main\<close> counts down; then \<open>main\<close> joins them and deletes the latch.  The scheduler picks the thread that makes the
  next action, and may wake a waiting thread without a notification.
\<close>

section \<open>The program\<close>

datatype demo_print = Print_wait nat | Print_decrement nat | Print_over nat

text \<open>Where a thread stands: the name of a position is the action that comes next.\<close>

datatype fun_pc = Fun_absent | Fun_wait_text | Fun_await | Fun_in_await | Fun_over_text | Fun_end

datatype demo_pc = Demo_spawn nat | Demo_text nat | Demo_count nat | Demo_join nat | Demo_delete | Demo_end

text \<open>The pointer \<open>cl\<close> is dangling once the latch is deleted (\<open>None\<close>).\<close>

record demo =
  d_latch :: "latch option"
  d_fun :: "nat \<Rightarrow> fun_pc"
  d_main :: demo_pc
  d_printed :: "demo_print list"

definition demo_init :: demo where
  "demo_init = \<lparr>d_latch = Some (countdownlatch 10), d_fun = (\<lambda>_. Fun_absent), d_main = Demo_spawn 0, d_printed = []\<rparr>"

definition go_fun :: "nat \<Rightarrow> fun_pc \<Rightarrow> demo \<Rightarrow> demo" where
  "go_fun t pc d = d\<lparr>d_fun := (d_fun d)(t := pc)\<rparr>"

definition demo_out :: "demo_print \<Rightarrow> demo \<Rightarrow> demo" where
  "demo_out p d = d\<lparr>d_printed := d_printed d @ [p]\<rparr>"

text \<open>An operation on \<open>*cl\<close>.\<close>

definition on_latch :: "(latch \<Rightarrow> latch) \<Rightarrow> demo \<Rightarrow> ub + demo" where
  "on_latch f d = (case d_latch d of None \<Rightarrow> Inl Use_after_free | Some l \<Rightarrow> Inr (d\<lparr>d_latch := Some (f l)\<rparr>))"

text \<open>The function \<open>fun\<close> of thread \<open>t\<close>, one action; \<open>None\<close> when it cannot go on.\<close>

definition fun_step :: "nat \<Rightarrow> demo \<Rightarrow> (ub + demo) option" where
  "fun_step t d =
     (case d_fun d t of
        Fun_wait_text \<Rightarrow> Some (Inr (demo_out (Print_wait t) (go_fun t Fun_await d)))
      | Fun_await \<Rightarrow> Some (on_latch (await t 0) (go_fun t Fun_in_await d))
      | Fun_in_await \<Rightarrow>
          (case d_latch d of
             None \<Rightarrow> Some (Inl Use_after_free)
           | Some l \<Rightarrow>
               (case waiters l t of
                  Waiting _ \<Rightarrow> None
                | Notified \<Rightarrow> Some (on_latch (leave t) (go_fun t Fun_over_text d))
                | _ \<Rightarrow> Some (Inr (go_fun t Fun_over_text d))))
      | Fun_over_text \<Rightarrow> Some (Inr (demo_out (Print_over t) (go_fun t Fun_end d)))
      | _ \<Rightarrow> None)"

definition wake_spuriously :: "nat \<Rightarrow> demo \<Rightarrow> (ub + demo) option" where
  "wake_spuriously t d =
     (case d_latch d of
        Some l \<Rightarrow> if d_fun d t = Fun_in_await \<and> waiters l t = Waiting False
                  then Some (on_latch (leave t) (go_fun t Fun_over_text d)) else None
      | None \<Rightarrow> None)"

text \<open>\<open>main\<close>: the tests of its loops belong to the action before them.\<close>

definition demo_main_step :: "demo \<Rightarrow> (ub + demo) option" where
  "demo_main_step d =
     (case d_main d of
        Demo_spawn i \<Rightarrow>
          Some (Inr (go_fun i Fun_wait_text (d\<lparr>d_main := (if Suc i < 2 then Demo_spawn (Suc i) else Demo_text 0)\<rparr>)))
      | Demo_text i \<Rightarrow> Some (Inr (demo_out (Print_decrement (Suc i)) (d\<lparr>d_main := Demo_count i\<rparr>)))
      | Demo_count i \<Rightarrow>
          Some (on_latch count_down (d\<lparr>d_main := (if Suc i < 10 then Demo_text (Suc i) else Demo_join 0)\<rparr>))
      | Demo_join i \<Rightarrow>
          if d_fun d i = Fun_end then Some (Inr (d\<lparr>d_main := (if Suc i < 2 then Demo_join (Suc i) else Demo_delete)\<rparr>))
          else None
      | Demo_delete \<Rightarrow> Some (Inr (d\<lparr>d_latch := None, d_main := Demo_end\<rparr>))
      | Demo_end \<Rightarrow> None)"

datatype demo_action = Main_acts | Fun_acts nat | Fun_wakes nat

fun demo_step :: "demo_action \<Rightarrow> demo \<Rightarrow> (ub + demo) option" where
  "demo_step Main_acts d = demo_main_step d"
| "demo_step (Fun_acts t) d = fun_step t d"
| "demo_step (Fun_wakes t) d = wake_spuriously t d"

text \<open>A run takes its actions from the list; \<open>None\<close> when one of them is not possible.\<close>

fun demo_run :: "demo_action list \<Rightarrow> demo \<Rightarrow> (ub + demo) option" where
  "demo_run [] d = Some (Inr d)"
| "demo_run (a # as) d =
     (case demo_step a d of
        Some (Inr d') \<Rightarrow> demo_run as d'
      | Some (Inl u) \<Rightarrow> Some (Inl u)
      | None \<Rightarrow> None)"

section \<open>The invariant\<close>

text \<open>How many times \<open>main\<close> has counted the latch down, and which threads it has started and joined.\<close>

fun counted :: "demo_pc \<Rightarrow> nat" where
  "counted (Demo_spawn i) = 0"
| "counted (Demo_text i) = i"
| "counted (Demo_count i) = i"
| "counted _ = 10"

fun spawned :: "demo_pc \<Rightarrow> nat" where
  "spawned (Demo_spawn i) = i"
| "spawned _ = 2"

fun joined :: "demo_pc \<Rightarrow> nat" where
  "joined (Demo_join i) = i"
| "joined Demo_delete = 2"
| "joined Demo_end = 2"
| "joined _ = 0"

fun pc_ok :: "demo_pc \<Rightarrow> bool" where
  "pc_ok (Demo_spawn i) \<longleftrightarrow> i < 2"
| "pc_ok (Demo_text i) \<longleftrightarrow> i < 10"
| "pc_ok (Demo_count i) \<longleftrightarrow> i < 10"
| "pc_ok (Demo_join i) \<longleftrightarrow> i < 2"
| "pc_ok _ \<longleftrightarrow> True"

definition latch_ok :: "demo \<Rightarrow> latch \<Rightarrow> bool" where
  "latch_ok d l \<longleftrightarrow> latch_inv 10 l \<and> count l = 10 - of_nat (counted (d_main d)) \<and>
     (\<forall>t. d_fun d t \<in> {Fun_absent, Fun_wait_text, Fun_await} \<longrightarrow> waiters l t = Running) \<and>
     (\<forall>t lim. waiters l t = Waiting lim \<longrightarrow> \<not> lim)"

definition demo_inv :: "demo \<Rightarrow> bool" where
  "demo_inv d \<longleftrightarrow> pc_ok (d_main d) \<and> (\<forall>t. d_fun d t = Fun_absent \<longleftrightarrow> spawned (d_main d) \<le> t) \<and>
     (\<forall>t < joined (d_main d). d_fun d t = Fun_end) \<and>
     (case d_latch d of None \<Rightarrow> d_main d = Demo_end | Some l \<Rightarrow> d_main d \<noteq> Demo_end \<and> latch_ok d l)"

lemma demo_inv_init: "demo_inv demo_init"
  by (simp add: demo_inv_def demo_init_def latch_ok_def latch_inv_def countdownlatch_def)

lemmas demo_defs = demo_inv_def latch_ok_def go_fun_def demo_out_def on_latch_def

text \<open>How many actions are left at most.\<close>

fun fun_rank :: "fun_pc \<Rightarrow> nat" where
  "fun_rank Fun_absent = 5"
| "fun_rank Fun_wait_text = 4"
| "fun_rank Fun_await = 3"
| "fun_rank Fun_in_await = 2"
| "fun_rank Fun_over_text = 1"
| "fun_rank Fun_end = 0"

fun demo_pc_rank :: "demo_pc \<Rightarrow> nat" where
  "demo_pc_rank (Demo_spawn i) = 25 - i"
| "demo_pc_rank (Demo_text i) = 23 - 2 * i"
| "demo_pc_rank (Demo_count i) = 22 - 2 * i"
| "demo_pc_rank (Demo_join i) = 3 - i"
| "demo_pc_rank Demo_delete = 1"
| "demo_pc_rank Demo_end = 0"

definition demo_rank :: "demo \<Rightarrow> nat" where
  "demo_rank d = demo_pc_rank (d_main d) + fun_rank (d_fun d 0) + fun_rank (d_fun d 1)"

definition advances :: "demo \<Rightarrow> ub + demo \<Rightarrow> bool" where
  "advances d r \<longleftrightarrow> (case r of Inl u \<Rightarrow> False | Inr d' \<Rightarrow> demo_inv d' \<and> demo_rank d' < demo_rank d)"

lemma demo_thread_bound: "demo_inv d \<Longrightarrow> d_fun d t \<noteq> Fun_absent \<Longrightarrow> t = 0 \<or> t = 1"
  by (cases "d_main d") (auto simp: demo_inv_def less_2_cases_iff not_le dest: spec [of _ t])

lemma demo_latch: "demo_inv d \<Longrightarrow> d_fun d t \<notin> {Fun_absent, Fun_end} \<Longrightarrow> \<exists>l. d_latch d = Some l \<and> d_main d \<noteq> Demo_end \<and> latch_ok d l"
  using demo_thread_bound [of d t] by (cases "d_latch d") (auto simp: demo_inv_def)

text \<open>The steps of a thread keep the invariant when the latch allows them.\<close>

lemma thread_moves:
  assumes "demo_inv d" "d_fun d t \<notin> {Fun_absent, Fun_end}" "fun_rank pc < fun_rank (d_fun d t)"
    and "d_latch d = Some l" "latch_inv 10 l'" "count l' = count l"
    and "\<forall>t'. t' \<noteq> t \<longrightarrow> waiters l' t' = waiters l t'" "pc \<in> {Fun_wait_text, Fun_await} \<longrightarrow> waiters l' t = Running"
    and "waiters l' t \<noteq> Waiting True" "d' = go_fun t pc d\<lparr>d_latch := Some l', d_printed := out\<rparr>"
  shows "advances d (Inr d')"
proof -
  have pc: "pc \<noteq> Fun_absent" using assms(3) by (cases "d_fun d t") auto
  have j: "t \<ge> joined (d_main d)" using assms(1,2) by (force simp: demo_inv_def)
  have ok: "latch_ok d l" "d_main d \<noteq> Demo_end" using assms(1,4) by (simp_all add: demo_inv_def)
  have d': "d_main d' = d_main d" "d_fun d' = (d_fun d)(t := pc)" "d_latch d' = Some l'"
    by (simp_all add: assms(10) go_fun_def)
  have "latch_ok d' l'" unfolding latch_ok_def d'
  proof (intro conjI allI impI)
    show "latch_inv 10 l'" "count l' = 10 - of_nat (counted (d_main d))" using ok(1) assms(5,6) by (simp_all add: latch_ok_def)
    show "waiters l' t' = Running" if "((d_fun d)(t := pc)) t' \<in> {Fun_absent, Fun_wait_text, Fun_await}" for t'
      using that assms(7,8) pc ok(1) by (cases "t' = t") (auto simp: latch_ok_def)
    show "\<not> lim" if "waiters l' t' = Waiting lim" for t' lim
      using that assms(7,9) ok(1) by (cases "t' = t") (auto simp: latch_ok_def)
  qed
  moreover have "\<forall>t'. ((d_fun d)(t := pc)) t' = Fun_absent \<longleftrightarrow> spawned (d_main d) \<le> t'"
    using assms(1,2) pc by (auto simp: demo_inv_def)
  ultimately have "demo_inv d'" using assms(1) j ok(2) by (auto simp: demo_inv_def d')
  moreover have "demo_rank d' < demo_rank d"
    using assms(3,10) demo_thread_bound [OF assms(1), of t] assms(2) by (auto simp: demo_rank_def go_fun_def)
  ultimately show ?thesis by (simp add: advances_def)
qed

lemma go_fun_sel [simp]:
  "d_latch (go_fun t pc d) = d_latch d" "d_main (go_fun t pc d) = d_main d" "d_printed (go_fun t pc d) = d_printed d"
  by (simp_all add: go_fun_def)

lemma latch_ok_not_timed: "latch_ok d l \<Longrightarrow> waiters l t \<noteq> Waiting True"
  by (auto simp: latch_ok_def)

lemma fun_step_advances:
  assumes "demo_inv d" "fun_step t d = Some r"
  shows "advances d r"
proof -
  have a: "d_fun d t \<notin> {Fun_absent, Fun_end}" using assms(2) by (auto simp: fun_step_def)
  from demo_latch [OF assms(1) a] obtain l where l: "d_latch d = Some l" "latch_ok d l" by blast
  have i: "latch_inv 10 l" "waiters l t \<noteq> Waiting True" using l(2) by (auto simp: latch_ok_def)
  note move = thread_moves [OF assms(1) a _ l(1)]
  show ?thesis
  proof (cases "d_fun d t")
    case Fun_wait_text
    then have r: "r = Inr (demo_out (Print_wait t) (go_fun t Fun_await d))" using assms(2) by (simp add: fun_step_def)
    have "waiters l t = Running" using l(2) Fun_wait_text by (simp add: latch_ok_def)
    then show ?thesis using Fun_wait_text i l(1)
      unfolding r by (intro move [where l' = l and pc = Fun_await and out = "d_printed d @ [Print_wait t]"])
        (simp_all add: demo_out_def go_fun_def)
  next
    case Fun_await
    then have r: "r = Inr (go_fun t Fun_in_await d\<lparr>d_latch := Some (await t 0 l)\<rparr>)"
      using assms(2) l(1) by (simp add: fun_step_def on_latch_def)
    show ?thesis using Fun_await i latch_inv_await [OF i(1), of t 0]
      unfolding r by (intro move [where l' = "await t 0 l" and pc = Fun_in_await and out = "d_printed d"])
        (simp_all add: go_fun_def await_def)
  next
    case Fun_in_await
    show ?thesis
    proof (cases "waiters l t = Notified")
      case True
      then have r: "r = Inr (go_fun t Fun_over_text d\<lparr>d_latch := Some (leave t l)\<rparr>)"
        using assms(2) l(1) Fun_in_await by (simp add: fun_step_def on_latch_def)
      show ?thesis using Fun_in_await i latch_inv_leave [OF i(1), of t]
        unfolding r by (intro move [where l' = "leave t l" and pc = Fun_over_text and out = "d_printed d"])
          (simp_all add: go_fun_def leave_def)
    next
      case False
      then have r: "r = Inr (go_fun t Fun_over_text d)"
        using assms(2) l(1) Fun_in_await by (simp add: fun_step_def split: await_pos.splits)
      show ?thesis using Fun_in_await i l(1)
        unfolding r by (intro move [where l' = l and pc = Fun_over_text and out = "d_printed d"]) (simp_all add: go_fun_def)
    qed
  next
    case Fun_over_text
    then have r: "r = Inr (demo_out (Print_over t) (go_fun t Fun_end d))" using assms(2) by (simp add: fun_step_def)
    show ?thesis using Fun_over_text i l(1)
      unfolding r by (intro move [where l' = l and pc = Fun_end and out = "d_printed d @ [Print_over t]"])
        (simp_all add: demo_out_def go_fun_def)
  qed (use a in simp_all)
qed

lemma wake_advances:
  assumes "demo_inv d" "wake_spuriously t d = Some r"
  shows "advances d r"
proof -
  from assms(2) obtain l where l: "d_latch d = Some l" "d_fun d t = Fun_in_await"
    and r: "r = Inr (go_fun t Fun_over_text d\<lparr>d_latch := Some (leave t l)\<rparr>)"
    by (auto simp: wake_spuriously_def on_latch_def split: option.splits if_splits)
  have "latch_inv 10 l" using assms(1) l(1) by (simp add: demo_inv_def latch_ok_def)
  then show ?thesis
    using l latch_inv_leave [of 10 l t] unfolding r
    by (intro thread_moves [OF assms(1) _ _ l(1), where l' = "leave t l" and t = t and pc = Fun_over_text and out = "d_printed d"])
      (simp_all add: go_fun_def leave_def)
qed

lemma count_downs_left: "i < 10 \<Longrightarrow> (10 - of_nat i :: u32) \<noteq> 0"
proof
  assume i: "i < 10" and "(10 - of_nat i :: u32) = 0"
  then have "(of_nat i :: u32) = of_nat 10" by simp
  then have "unat (of_nat i :: u32) = unat (of_nat 10 :: u32)" by (rule arg_cong)
  moreover have "unat (of_nat i :: u32) = i" using i by (simp add: unat_of_nat take_bit_nat_eq_self)
  ultimately show False using i by simp
qed

lemma main_step_advances:
  assumes "demo_inv d" "demo_main_step d = Some r"
  shows "advances d r"
proof (cases "d_main d")
  case (Demo_spawn i)
  then have i: "i < 2" "d_fun d i = Fun_absent" using assms(1) by (simp_all add: demo_inv_def)
  then have rank: "fun_rank (d_fun d i) = 5" by simp
  obtain l where l: "d_latch d = Some l" "latch_ok d l" using assms(1) Demo_spawn by (auto simp: demo_inv_def split: option.splits)
  show ?thesis using assms i rank l Demo_spawn
    by (auto simp: advances_def demo_main_step_def demo_inv_def latch_ok_def go_fun_def demo_rank_def less_2_cases_iff)
next
  case (Demo_text i)
  then show ?thesis using assms
    by (auto simp: advances_def demo_main_step_def demo_inv_def latch_ok_def demo_out_def demo_rank_def split: option.splits)
next
  case (Demo_count i)
  obtain l where l: "d_latch d = Some l" "latch_ok d l" using assms(1) Demo_count by (auto simp: demo_inv_def split: option.splits)
  have i: "i < 10" using assms(1) Demo_count by (simp add: demo_inv_def)
  define m where "m = (if Suc i < 10 then Demo_text (Suc i) else Demo_join 0)"
  have r: "r = Inr (d\<lparr>d_main := m, d_latch := Some (count_down l)\<rparr>)"
    using assms(2) Demo_count l(1) by (simp add: demo_main_step_def on_latch_def m_def)
  have c: "count l = 10 - of_nat i" using l(2) Demo_count by (simp add: latch_ok_def)
  have m: "counted m = Suc i" "pc_ok m" "m \<noteq> Demo_end" "spawned m = 2" "joined m = 0" "demo_pc_rank m < 22 - 2 * i"
    using i by (auto simp: m_def)
  have "count (count_down l) = 10 - of_nat (Suc i)"
    using c count_downs_left [OF i] by (simp add: count_down_def notify_all_def Let_def)
  moreover have "waiters l t = Running \<Longrightarrow> waiters (count_down l) t = Running" for t
    by (simp add: count_down_def notify_all_def Let_def)
  moreover have "waiters (count_down l) t = Waiting lim \<Longrightarrow> \<not> lim" for t lim
    using l(2) by (auto simp: latch_ok_def count_down_def notify_all_def Let_def split: if_splits await_pos.splits)
  ultimately have "latch_ok (d\<lparr>d_main := m, d_latch := Some (count_down l)\<rparr>) (count_down l)"
    using l(2) latch_inv_count_down [of 10 l] m(1) by (auto simp: latch_ok_def)
  then show ?thesis using assms(1) Demo_count m l(1)
    by (auto simp: r advances_def demo_inv_def demo_rank_def)
next
  case (Demo_join i)
  then have "i = 0 \<or> i = 1" using assms(1) by (auto simp: demo_inv_def)
  then show ?thesis using assms Demo_join
    by (auto simp: advances_def demo_main_step_def demo_inv_def latch_ok_def demo_rank_def less_2_cases_iff
        split: option.splits if_splits)
next
  case Demo_delete
  then show ?thesis using assms by (auto simp: advances_def demo_main_step_def demo_inv_def demo_rank_def)
next
  case Demo_end
  then show ?thesis using assms(2) by (simp add: demo_main_step_def)
qed

lemma demo_step_advances: "demo_inv d \<Longrightarrow> demo_step a d = Some r \<Longrightarrow> advances d r"
  by (cases a) (auto dest: main_step_advances fun_step_advances wake_advances)

lemma demo_run_safe:
  "demo_inv d \<Longrightarrow> demo_run as d = Some r \<Longrightarrow> \<exists>d'. r = Inr d' \<and> demo_inv d' \<and> length as + demo_rank d' \<le> demo_rank d"
proof (induction as arbitrary: d)
  case (Cons a as)
  from Cons.prems obtain r1 where r1: "demo_step a d = Some r1" by (auto split: option.splits)
  from demo_step_advances [OF Cons.prems(1) this] obtain d1 where d1: "r1 = Inr d1" "demo_inv d1" "demo_rank d1 < demo_rank d"
    by (auto simp: advances_def split: sum.splits)
  from Cons.IH [OF d1(2)] Cons.prems(2) r1 d1(1,3) show ?case by force
qed auto

section \<open>What the program does\<close>

text \<open>Until \<open>main\<close> has returned, some thread can make its next action without a spurious wake-up.\<close>

lemma demo_not_stuck:
  assumes "demo_inv d" "d_main d \<noteq> Demo_end"
  shows "\<exists>r. demo_step Main_acts d = Some r \<or> (\<exists>t < 2. demo_step (Fun_acts t) d = Some r)"
proof (cases "\<exists>i. d_main d = Demo_join i")
  case True
  then obtain i where i: "d_main d = Demo_join i" by blast
  from assms i obtain l where l: "d_latch d = Some l" "latch_ok d l" by (auto simp: demo_inv_def split: option.splits)
  have "count l = 0" "i < 2" using l(2) i assms(1) by (simp_all add: latch_ok_def demo_inv_def)
  then have w: "\<And>lim. waiters l i \<noteq> Waiting lim" using l(2) by (simp add: latch_ok_def latch_inv_def)
  have "d_fun d i \<noteq> Fun_absent" using assms(1) i \<open>i < 2\<close> by (simp add: demo_inv_def)
  then have "(\<exists>r. demo_main_step d = Some r) \<or> (\<exists>r. fun_step i d = Some r)"
    using i l(1) w by (cases "d_fun d i") (auto simp: demo_main_step_def fun_step_def split: await_pos.splits)
  then show ?thesis using \<open>i < 2\<close> by auto
next
  case False
  then show ?thesis using assms(2) by (cases "d_main d") (auto simp: demo_main_step_def)
qed

text \<open>
  Every run is finite and free of undefined behaviour, a run that has not come to its end can go on, and at the end both
  threads have returned: the latch is deleted after its last use, although a spurious wake-up may let a thread pass it
  while it is closed.
\<close>

theorem latch_demo_ends:
  assumes "demo_run as demo_init = Some r"
  shows "\<exists>d. r = Inr d \<and> length as \<le> 35 \<and>
    (if d_main d = Demo_end then d_latch d = None \<and> d_fun d 0 = Fun_end \<and> d_fun d 1 = Fun_end
     else d_latch d \<noteq> None \<and> (\<exists>r. demo_step Main_acts d = Some r \<or> (\<exists>t < 2. demo_step (Fun_acts t) d = Some r)))"
proof -
  have "demo_rank demo_init = 35" by (simp add: demo_rank_def demo_init_def)
  with demo_run_safe [OF demo_inv_init assms] obtain d where d: "r = Inr d" "demo_inv d" "length as \<le> 35" by auto
  have "d_main d = Demo_end \<Longrightarrow> d_latch d = None \<and> d_fun d 0 = Fun_end \<and> d_fun d 1 = Fun_end"
    "d_main d \<noteq> Demo_end \<Longrightarrow> d_latch d \<noteq> None"
    using d(2) by (auto simp: demo_inv_def split: option.splits)
  with d demo_not_stuck [OF d(2)] show ?thesis by auto
qed

text \<open>Without spurious wake-ups no thread passes the latch before it was counted down ten times.\<close>

definition may_pass :: "latch \<Rightarrow> nat \<Rightarrow> fun_pc \<Rightarrow> bool" where
  "may_pass l t pc \<longleftrightarrow> pc \<in> {Fun_over_text, Fun_end} \<or> pc = Fun_in_await \<and> waiters l t \<notin> {Waiting False, Waiting True}"

definition passed_open :: "demo \<Rightarrow> bool" where
  "passed_open d \<longleftrightarrow> counted (d_main d) = 10 \<or> (\<forall>l t. d_latch d = Some l \<longrightarrow> \<not> may_pass l t (d_fun d t))"

lemma counted_le: "pc_ok m \<Longrightarrow> counted m \<le> 10"
  by (cases m) auto

lemma open_counted: "demo_inv d \<Longrightarrow> d_latch d = Some l \<Longrightarrow> count l = 0 \<Longrightarrow> counted (d_main d) = 10"
  using count_downs_left [of "counted (d_main d)"] counted_le [of "d_main d"]
  by (cases "counted (d_main d) < 10") (auto simp: demo_inv_def latch_ok_def)

lemma passed_open_fun:
  assumes "demo_inv d" "passed_open d" "fun_step t d = Some (Inr d')"
  shows "passed_open d'"
proof (cases "counted (d_main d) = 10")
  case True
  then show ?thesis using assms(3)
    by (auto simp: passed_open_def fun_step_def on_latch_def demo_out_def split: fun_pc.splits option.splits await_pos.splits)
next
  case False
  have a: "d_fun d t \<notin> {Fun_absent, Fun_end}" using assms(3) by (auto simp: fun_step_def)
  from demo_latch [OF assms(1) a] obtain l where l: "d_latch d = Some l" by blast
  have np: "\<forall>t'. \<not> may_pass l t' (d_fun d t')" using assms(2) False l by (simp add: passed_open_def)
  have "count l \<noteq> 0" using open_counted [OF assms(1) l] False by blast
  moreover have "d_fun d t \<noteq> Fun_in_await" using np [rule_format, of t] assms(3) l by (auto simp: may_pass_def fun_step_def)
  ultimately show ?thesis using np assms(3) l
    by (auto simp: passed_open_def may_pass_def fun_step_def on_latch_def demo_out_def go_fun_def await_def
        split: fun_pc.splits await_pos.splits if_splits) blast
qed

lemma passed_open_main:
  assumes "demo_inv d" "passed_open d" "demo_main_step d = Some (Inr d')"
  shows "passed_open d'"
proof (cases "d_main d")
  case (Demo_count i)
  then obtain l where l: "d_latch d = Some l" "d_latch d' = Some (count_down l)" "d_fun d' = d_fun d"
    "d_main d' = (if Suc i < 10 then Demo_text (Suc i) else Demo_join 0)" and i: "i < 10"
    using assms(1,3) by (auto simp: demo_main_step_def on_latch_def demo_inv_def split: option.splits)
  have "demo_inv d'" using demo_step_advances [OF assms(1), of Main_acts "Inr d'"] assms(3) by (simp add: advances_def)
  then have "count (count_down l) = 0 \<Longrightarrow> counted (d_main d') = 10" using open_counted l(2) by blast
  moreover have "waiters (count_down l) = waiters l" if "count (count_down l) \<noteq> 0"
    using that by (simp add: count_down_def notify_all_def Let_def split: if_splits)
  ultimately show ?thesis
    using assms(2) l i Demo_count by (cases "count (count_down l) = 0") (auto simp: passed_open_def may_pass_def)
qed (use assms in \<open>auto simp: passed_open_def may_pass_def demo_main_step_def demo_out_def go_fun_def split: if_splits\<close>)

lemma passes_only_open:
  "demo_inv d \<Longrightarrow> passed_open d \<Longrightarrow> demo_run as d = Some (Inr d') \<Longrightarrow> \<forall>t. Fun_wakes t \<notin> set as \<Longrightarrow> passed_open d'"
proof (induction as arbitrary: d)
  case (Cons a as)
  from Cons.prems(3) obtain d1 where d1: "demo_step a d = Some (Inr d1)" "demo_run as d1 = Some (Inr d')"
    by (auto split: option.splits sum.splits)
  have "demo_inv d1" using demo_step_advances [OF Cons.prems(1) d1(1)] by (simp add: advances_def)
  moreover have "passed_open d1"
    using passed_open_main [OF Cons.prems(1,2)] passed_open_fun [OF Cons.prems(1,2)] d1(1) Cons.prems(4) by (cases a) auto
  ultimately show ?case using Cons.IH d1(2) Cons.prems(4) by simp
qed simp

text \<open>So ten calls of \<open>count_down\<close> precede every return from \<open>await\<close>, when no wake-up is spurious.\<close>

lemma over_after_ten:
  assumes "demo_run as demo_init = Some (Inr d)" "\<forall>t. Fun_wakes t \<notin> set as" "d_fun d t \<in> {Fun_over_text, Fun_end}"
  shows "counted (d_main d) = 10"
proof -
  have "passed_open demo_init" by (simp add: passed_open_def may_pass_def demo_init_def)
  from passes_only_open [OF demo_inv_init this assms(1,2)] have "passed_open d" .
  moreover have "demo_inv d" using demo_run_safe [OF demo_inv_init assms(1)] by simp
  ultimately show ?thesis using assms(3) by (cases "d_latch d") (auto simp: passed_open_def may_pass_def demo_inv_def)
qed

end
