(* ===== verification/Shared_Lock.thy ===== *)
theory Shared_Lock
  imports Prelude
begin

text \<open>
  The wrapper \<open>shared_lock\<close> of src/materials/09-advanced-synchronization/code/shared_mutex.h, which holds a shared ownership of
  a mutex and gives it back in its destructor.  The objects of one thread are a table; the mutexes are numbers, and
  \<open>held\<close> counts for each of them how often the thread called \<open>lock_shared\<close> without \<open>unlock_shared\<close>.  The answers of
  \<open>try_lock_shared\<close> are arguments.  The timed members call functions the mutex does not have and cannot be
  instantiated.
\<close>

section \<open>State\<close>

record slock =
  M_pm :: "nat option"
  M_owns :: bool

record lock_table =
  locks :: "nat \<Rightarrow> slock option"
  held :: "nat \<Rightarrow> int"

datatype lock_error = No_lock | Deadlock | Not_owned | Lock_ub ub

section \<open>One object\<close>

definition empty_lock :: slock where
  "empty_lock = \<lparr>M_pm = None, M_owns = False\<rparr>"

definition M_lockable :: "slock \<Rightarrow> lock_error + nat" where
  "M_lockable l =
     (case M_pm l of
        None \<Rightarrow> Inl No_lock
      | Some m \<Rightarrow> if M_owns l then Inl Deadlock else Inr m)"

definition put_lock :: "nat \<Rightarrow> slock \<Rightarrow> lock_table \<Rightarrow> lock_table" where
  "put_lock i l s = s\<lparr>locks := (locks s)(i \<mapsto> l)\<rparr>"

definition add_held :: "nat \<Rightarrow> int \<Rightarrow> lock_table \<Rightarrow> lock_table" where
  "add_held m d s = s\<lparr>held := (held s)(m := held s m + d)\<rparr>"

text \<open>The constructors, on a new object \<open>i\<close>.\<close>

definition ctor_default :: "nat \<Rightarrow> lock_table \<Rightarrow> lock_table" where
  "ctor_default i s = put_lock i empty_lock s"

definition ctor_lock :: "nat \<Rightarrow> nat \<Rightarrow> lock_table \<Rightarrow> lock_table" where
  "ctor_lock i m s = add_held m 1 (put_lock i \<lparr>M_pm = Some m, M_owns = True\<rparr> s)"

definition ctor_defer :: "nat \<Rightarrow> nat \<Rightarrow> lock_table \<Rightarrow> lock_table" where
  "ctor_defer i m s = put_lock i \<lparr>M_pm = Some m, M_owns = False\<rparr> s"

definition ctor_try :: "nat \<Rightarrow> nat \<Rightarrow> bool \<Rightarrow> lock_table \<Rightarrow> lock_table" where
  "ctor_try i m ok s = add_held m (if ok then 1 else 0) (put_lock i \<lparr>M_pm = Some m, M_owns = ok\<rparr> s)"

definition ctor_adopt :: "nat \<Rightarrow> nat \<Rightarrow> lock_table \<Rightarrow> lock_table" where
  "ctor_adopt i m s = put_lock i \<lparr>M_pm = Some m, M_owns = True\<rparr> s"

text \<open>The effect of the destructor on the mutex of \<open>l\<close>.\<close>

definition release_of :: "slock \<Rightarrow> lock_table \<Rightarrow> lock_error + lock_table" where
  "release_of l s =
     (if M_owns l then (case M_pm l of None \<Rightarrow> Inl (Lock_ub Null_dereference) | Some m \<Rightarrow> Inr (add_held m (- 1) s))
      else Inr s)"

definition with_lock :: "nat \<Rightarrow> lock_table \<Rightarrow> (slock \<Rightarrow> lock_error + 'a) \<Rightarrow> lock_error + 'a" where
  "with_lock i s f = (case locks s i of None \<Rightarrow> Inl (Lock_ub Use_after_free) | Some l \<Rightarrow> f l)"

definition destroy :: "nat \<Rightarrow> lock_table \<Rightarrow> lock_error + lock_table" where
  "destroy i s = with_lock i s (\<lambda>l. release_of l (s\<lparr>locks := (locks s)(i := None)\<rparr>))"

definition swap_locks :: "nat \<Rightarrow> nat \<Rightarrow> lock_table \<Rightarrow> lock_error + lock_table" where
  "swap_locks i j s = with_lock i s (\<lambda>a. with_lock j s (\<lambda>b. Inr (put_lock j a (put_lock i b s))))"

text \<open>The move constructor of \<open>i\<close> from \<open>j\<close>; the move assignment goes through a temporary, which is destroyed.\<close>

definition ctor_move :: "nat \<Rightarrow> nat \<Rightarrow> lock_table \<Rightarrow> lock_error + lock_table" where
  "ctor_move i j s = swap_locks i j (ctor_default i s)"

definition move_assign :: "nat \<Rightarrow> nat \<Rightarrow> lock_table \<Rightarrow> lock_error + lock_table" where
  "move_assign i j s =
     with_lock j s (\<lambda>tmp. let s1 = put_lock j empty_lock s
       in with_lock i s1 (\<lambda>old. release_of old (put_lock i tmp s1)))"

definition lock :: "nat \<Rightarrow> lock_table \<Rightarrow> lock_error + lock_table" where
  "lock i s = with_lock i s (\<lambda>l. res_bind (M_lockable l) (\<lambda>m. Inr (add_held m 1 (put_lock i (l\<lparr>M_owns := True\<rparr>) s))))"

definition try_lock :: "nat \<Rightarrow> bool \<Rightarrow> lock_table \<Rightarrow> lock_error + lock_table \<times> bool" where
  "try_lock i ok s = with_lock i s (\<lambda>l. res_bind (M_lockable l) (\<lambda>m.
     Inr (add_held m (if ok then 1 else 0) (put_lock i (l\<lparr>M_owns := ok\<rparr>) s), ok)))"

definition unlock :: "nat \<Rightarrow> lock_table \<Rightarrow> lock_error + lock_table" where
  "unlock i s = with_lock i s (\<lambda>l.
     if \<not> M_owns l then Inl Not_owned
     else res_bind (release_of l s) (\<lambda>s1. Inr (put_lock i (l\<lparr>M_owns := False\<rparr>) s1)))"

definition release :: "nat \<Rightarrow> lock_table \<Rightarrow> lock_error + lock_table \<times> nat option" where
  "release i s = with_lock i s (\<lambda>l. Inr (put_lock i empty_lock s, M_pm l))"

definition owns_lock :: "nat \<Rightarrow> lock_table \<Rightarrow> lock_error + bool" where
  "owns_lock i s = with_lock i s (\<lambda>l. Inr (M_owns l))"

definition mutex :: "nat \<Rightarrow> lock_table \<Rightarrow> lock_error + nat option" where
  "mutex i s = with_lock i s (\<lambda>l. Inr (M_pm l))"

section \<open>Histories\<close>

datatype lock_op =
    Ctor nat | Ctor_lock nat nat | Ctor_defer nat nat | Ctor_try nat nat bool | Ctor_move nat nat
  | Move_assign nat nat | Swap nat nat | Lock nat | Try_lock nat bool | Unlock nat | Destroy nat

fun new_object :: "lock_op \<Rightarrow> nat option" where
  "new_object (Ctor i) = Some i"
| "new_object (Ctor_lock i m) = Some i"
| "new_object (Ctor_defer i m) = Some i"
| "new_object (Ctor_try i m ok) = Some i"
| "new_object (Ctor_move i j) = Some i"
| "new_object _ = None"

fun run_lock_op :: "lock_op \<Rightarrow> lock_table \<Rightarrow> lock_error + lock_table" where
  "run_lock_op (Ctor i) s = Inr (ctor_default i s)"
| "run_lock_op (Ctor_lock i m) s = Inr (ctor_lock i m s)"
| "run_lock_op (Ctor_defer i m) s = Inr (ctor_defer i m s)"
| "run_lock_op (Ctor_try i m ok) s = Inr (ctor_try i m ok s)"
| "run_lock_op (Ctor_move i j) s = ctor_move i j s"
| "run_lock_op (Move_assign i j) s = move_assign i j s"
| "run_lock_op (Swap i j) s = swap_locks i j s"
| "run_lock_op (Lock i) s = lock i s"
| "run_lock_op (Try_lock i ok) s = res_bind (try_lock i ok s) (\<lambda>(s', _). Inr s')"
| "run_lock_op (Unlock i) s = unlock i s"
| "run_lock_op (Destroy i) s = destroy i s"

section \<open>Every ownership is in one object\<close>

definition owned :: "slock option \<Rightarrow> nat \<Rightarrow> int" where
  "owned l m = (case l of None \<Rightarrow> 0 | Some l \<Rightarrow> if M_owns l \<and> M_pm l = Some m then 1 else 0)"

definition good_lock :: "slock \<Rightarrow> bool" where
  "good_lock l \<longleftrightarrow> (M_owns l \<longrightarrow> M_pm l \<noteq> None)"

text \<open>
  \<open>balanced B s\<close>: all objects are among the finitely many of \<open>B\<close>, each owns at most the mutex it points to, and the
  thread holds every mutex as often as its objects say.
\<close>

definition balanced :: "nat set \<Rightarrow> lock_table \<Rightarrow> bool" where
  "balanced B s \<longleftrightarrow> finite B \<and> dom (locks s) \<subseteq> B \<and> (\<forall>l \<in> ran (locks s). good_lock l) \<and>
     (\<forall>m. held s m = (\<Sum>i \<in> B. owned (locks s i) m))"

lemma owned_None [simp]: "owned None m = 0"
  by (simp add: owned_def)

lemma sum_upd:
  "finite B \<Longrightarrow> i \<in> B \<Longrightarrow> (\<Sum>k \<in> B. owned ((f(i := v)) k) m) = (\<Sum>k \<in> B. owned (f k) m) - owned (f i) m + owned v m"
  by (simp add: sum.remove [of B i])

text \<open>Writing one object and moving the count of the mutexes by the difference keeps the balance.\<close>

lemma balanced_upd:
  assumes "balanced B s" "i \<in> B" "\<And>l. v = Some l \<Longrightarrow> good_lock l"
    and "locks s' = (locks s)(i := v)" "\<And>m. held s' m = held s m - owned (locks s i) m + owned v m"
  shows "balanced B s'"
proof -
  have "dom (locks s') \<subseteq> B" using assms(1,2) by (auto simp: balanced_def assms(4) split: if_splits)
  moreover have "\<forall>l \<in> ran (locks s'). good_lock l"
    using assms(1,3) by (auto simp: balanced_def assms(4) ran_def split: if_splits)
  moreover have "held s' m = (\<Sum>k \<in> B. owned (locks s' k) m)" for m
    using assms(1,2) unfolding assms(4,5) balanced_def by (subst sum_upd) auto
  ultimately show ?thesis using assms(1) by (simp add: balanced_def)
qed

lemmas lock_defs = put_lock_def add_held_def empty_lock_def good_lock_def owned_def

lemma balanced_good: "balanced B s \<Longrightarrow> locks s i = Some l \<Longrightarrow> good_lock l \<and> i \<in> B"
  by (auto simp: balanced_def ran_def)

text \<open>Two objects are written, and what they own together changes as the counts do.\<close>

lemma balanced_upd2:
  assumes "balanced B s" "i \<in> B" "j \<in> B" "i \<noteq> j" "good_lock a" "good_lock b"
    and "locks s' = (locks s)(i \<mapsto> a, j \<mapsto> b)"
    and "\<And>m. held s' m = held s m - owned (locks s i) m - owned (locks s j) m + owned (Some a) m + owned (Some b) m"
  shows "balanced B s'"
proof -
  let ?s = "s\<lparr>locks := (locks s)(i \<mapsto> a), held := (\<lambda>m. held s m - owned (locks s i) m + owned (Some a) m)\<rparr>"
  have "balanced B ?s" by (rule balanced_upd [OF assms(1,2), of "Some a"]) (use assms(5) in auto)
  then show ?thesis by (rule balanced_upd [OF _ assms(3), of _ "Some b"]) (use assms(4,6,7,8) in auto)
qed

lemma balanced_release_of:
  assumes "balanced B s" "locks s i = Some l" "v = None \<or> v = Some (l\<lparr>M_owns := False\<rparr>)" "locks s' = (locks s)(i := v)" "held s' = held s"
  shows "\<exists>s2. release_of l s' = Inr s2 \<and> balanced B s2 \<and> locks s2 = locks s'"
proof -
  have g: "good_lock l" "i \<in> B" using balanced_good [OF assms(1,2)] by auto
  then obtain s2 where s2: "release_of l s' = Inr s2" "locks s2 = locks s'" "\<And>m. held s2 m = held s m - owned (Some l) m"
    using assms(5) by (cases "M_owns l") (auto simp: release_of_def lock_defs)
  have "owned v m = 0" for m using assms(3) by (auto simp: owned_def)
  then have "balanced B s2"
    by (intro balanced_upd [OF assms(1) g(2), of v]) (use assms(2-4) s2 in \<open>auto simp: good_lock_def\<close>)
  with s2 show ?thesis by blast
qed

text \<open>The operations one by one.\<close>

lemma balanced_new:
  assumes "balanced B s" "i \<in> B" "locks s i = None" "good_lock l"
    and "locks s' = (locks s)(i \<mapsto> l)" "\<And>m. held s' m = held s m + owned (Some l) m"
  shows "balanced B s'"
  by (rule balanced_upd [OF assms(1,2), of "Some l"]) (use assms(3-6) in auto)

lemma balanced_ctor:
  assumes "balanced B s" "i \<in> B" "locks s i = None"
  shows "balanced B (ctor_default i s)" "balanced B (ctor_lock i m s)" "balanced B (ctor_defer i m s)"
    "balanced B (ctor_try i m ok s)"
proof -
  show "balanced B (ctor_default i s)"
    by (rule balanced_new [OF assms, of empty_lock]) (auto simp: lock_defs ctor_default_def)
  show "balanced B (ctor_lock i m s)"
    by (rule balanced_new [OF assms, of "\<lparr>M_pm = Some m, M_owns = True\<rparr>"]) (auto simp: lock_defs ctor_lock_def)
  show "balanced B (ctor_defer i m s)"
    by (rule balanced_new [OF assms, of "\<lparr>M_pm = Some m, M_owns = False\<rparr>"]) (auto simp: lock_defs ctor_defer_def)
  show "balanced B (ctor_try i m ok s)"
    by (rule balanced_new [OF assms, of "\<lparr>M_pm = Some m, M_owns = ok\<rparr>"]) (auto simp: lock_defs ctor_try_def)
qed

lemma balanced_swap:
  assumes "balanced B s" "locks s i = Some a" "locks s j = Some b"
  shows "swap_locks i j s = Inr (put_lock j a (put_lock i b s)) \<and> balanced B (put_lock j a (put_lock i b s))"
proof (cases "i = j")
  case True
  then have "put_lock j a (put_lock i b s) = s" using assms(2,3) by (simp add: put_lock_def fun_upd_idem)
  then show ?thesis using assms by (simp add: swap_locks_def with_lock_def)
next
  case False
  note g = balanced_good [OF assms(1,2)] balanced_good [OF assms(1,3)]
  have "balanced B (put_lock j a (put_lock i b s))"
    by (rule balanced_upd2 [OF assms(1), of i j b a]) (use g False assms(2,3) in \<open>auto simp: put_lock_def\<close>)
  then show ?thesis using assms by (simp add: swap_locks_def with_lock_def)
qed

lemma balanced_move_assign:
  assumes "balanced B s" "move_assign i j s = Inr s'"
  shows "balanced B s'"
proof -
  from assms(2) obtain tmp where tmp: "locks s j = Some tmp" by (auto simp: move_assign_def with_lock_def split: option.splits)
  note g = balanced_good [OF assms(1) tmp]
  show ?thesis
  proof (cases "i = j")
    case True
    then have "s' = s\<lparr>locks := (locks s)(j \<mapsto> tmp)\<rparr>"
      using assms(2) tmp by (simp add: move_assign_def with_lock_def put_lock_def empty_lock_def release_of_def Let_def)
    then show ?thesis using assms(1) tmp by (simp add: fun_upd_idem)
  next
    case False
    with assms(2) tmp obtain old where old: "locks s i = Some old" "release_of old (put_lock i tmp (put_lock j empty_lock s)) = Inr s'"
      by (auto simp: move_assign_def with_lock_def put_lock_def Let_def split: option.splits)
    note o = balanced_good [OF assms(1) old(1)]
    have "locks s' = (locks s)(i \<mapsto> tmp, j \<mapsto> empty_lock)" "\<And>m. held s' m = held s m - owned (Some old) m"
      using old(2) o False by (auto simp: release_of_def lock_defs fun_upd_twist split: if_splits option.splits)
    then show ?thesis
      by (intro balanced_upd2 [OF assms(1), of i j tmp empty_lock]) (use g o False tmp old(1) in \<open>auto simp: lock_defs\<close>)
  qed
qed

lemma balanced_lock:
  assumes "balanced B s" "locks s i = Some l" "M_lockable l = Inr m"
  shows "balanced B (add_held m (if ok then 1 else 0) (put_lock i (l\<lparr>M_owns := ok\<rparr>) s))"
proof -
  have "M_pm l = Some m" "\<not> M_owns l" using assms(3) by (auto simp: M_lockable_def split: option.splits if_splits)
  then show ?thesis
    using balanced_good [OF assms(1,2)] assms(2)
    by (intro balanced_upd [OF assms(1), of i "Some (l\<lparr>M_owns := ok\<rparr>)"]) (auto simp: lock_defs)
qed

text \<open>
  Every history keeps the balance, whatever is moved or swapped and wherever an exception stops it: after the
  objects were destroyed the thread holds nothing.  The constructors are those of new objects; \<open>release\<close> and the adopting
  constructor, which hand an ownership over by hand, are left out.
\<close>

lemma balanced_run:
  assumes "balanced B s" "run_lock_op op s = Inr s'" "\<And>i. new_object op = Some i \<Longrightarrow> i \<in> B \<and> locks s i = None"
  shows "balanced B s'"
proof (cases op)
  case (Ctor_move i j)
  let ?s = "ctor_default i s"
  have b: "balanced B ?s" "locks ?s i = Some empty_lock"
    using assms(1,3) Ctor_move balanced_ctor(1) by (auto simp: ctor_default_def put_lock_def)
  with assms(2) Ctor_move obtain l where l: "locks ?s j = Some l"
    by (auto simp: ctor_move_def swap_locks_def with_lock_def split: option.splits)
  from balanced_swap [OF b l] assms(2) Ctor_move show ?thesis by (simp add: ctor_move_def)
next
  case (Swap i j)
  with assms(2) obtain a b where "locks s i = Some a" "locks s j = Some b"
    by (auto simp: swap_locks_def with_lock_def split: option.splits)
  from balanced_swap [OF assms(1) this] assms(2) Swap show ?thesis by simp
next
  case (Lock i)
  with assms(2) obtain l m where l: "locks s i = Some l" "M_lockable l = Inr m"
    and s': "s' = add_held m (if True then 1 else 0) (put_lock i (l\<lparr>M_owns := True\<rparr>) s)"
    by (auto simp: lock_def with_lock_def res_simps split: option.splits)
  show ?thesis unfolding s' by (rule balanced_lock [OF assms(1) l])
next
  case (Try_lock i ok)
  with assms(2) obtain l m where l: "locks s i = Some l" "M_lockable l = Inr m"
    and s': "s' = add_held m (if ok then 1 else 0) (put_lock i (l\<lparr>M_owns := ok\<rparr>) s)"
    by (auto simp: try_lock_def with_lock_def res_simps split: option.splits)
  show ?thesis unfolding s' by (rule balanced_lock [OF assms(1) l])
next
  case (Unlock i)
  with assms(2) obtain l s1 where l: "locks s i = Some l" "release_of l s = Inr s1" "s' = put_lock i (l\<lparr>M_owns := False\<rparr>) s1"
    by (auto simp: unlock_def with_lock_def res_simps split: option.splits if_splits)
  have "release_of l (put_lock i (l\<lparr>M_owns := False\<rparr>) s) = Inr s'"
    using l(2,3) by (auto simp: release_of_def put_lock_def add_held_def split: if_splits option.splits)
  then show ?thesis
    using balanced_release_of [OF assms(1) l(1), of "Some (l\<lparr>M_owns := False\<rparr>)" "put_lock i (l\<lparr>M_owns := False\<rparr>) s"]
    by (auto simp: put_lock_def)
next
  case (Destroy i)
  with assms(2) obtain l where l: "locks s i = Some l" "release_of l (s\<lparr>locks := (locks s)(i := None)\<rparr>) = Inr s'"
    by (auto simp: destroy_def with_lock_def split: option.splits)
  then show ?thesis using balanced_release_of [OF assms(1) l(1), of None "s\<lparr>locks := (locks s)(i := None)\<rparr>"] by auto
qed (use assms balanced_ctor balanced_move_assign in auto)

lemma destroyed_holds_nothing: "balanced B s \<Longrightarrow> locks s = Map.empty \<Longrightarrow> held s m = 0"
  by (simp add: balanced_def)

end
