(* ===== verification/Epoll_Example.thy ===== *)
theory Epoll_Example
  imports Prelude
begin

text \<open>
  The edge-triggered example server of src/materials/05-non-blocking-network/code/epoll-example.c, which prints what its clients
  send.  The answers of the system are arguments: what one readiness event delivers before the descriptor is drained, and
  the results of the calls in between.  \<open>abort\<close> and \<open>exit\<close> are the left summand.
\<close>

section \<open>State\<close>

datatype stop = Abort | Exit_failure

record printer =
  watched :: "int set"
  closed_fds :: "int list"
  printed :: string

section \<open>Set-up\<close>

definition make_socket_non_blocking :: "int \<Rightarrow> int \<Rightarrow> int" where
  "make_socket_non_blocking getfl setfl = (if getfl = - 1 then - 1 else if setfl = - 1 then - 1 else 0)"

text \<open>The loop of \<open>create_and_bind\<close> over the addresses: what \<open>socket\<close> and \<open>bind\<close> return for each; the sockets it closes.\<close>

fun bind_first :: "(int \<times> int) list \<Rightarrow> int option \<times> int list" where
  "bind_first [] = (None, [])"
| "bind_first ((sfd, s) # rps) =
     (if sfd = - 1 then bind_first rps
      else if s = 0 then (Some sfd, [])
      else let (r, cl) = bind_first rps in (r, sfd # cl))"

definition create_and_bind :: "int \<Rightarrow> (int \<times> int) list \<Rightarrow> int \<times> int list" where
  "create_and_bind gai rps =
     (if gai \<noteq> 0 then (- 1, [])
      else case bind_first rps of (None, cl) \<Rightarrow> (- 1, cl) | (Some sfd, cl) \<Rightarrow> (sfd, cl))"

definition main_start :: "nat \<Rightarrow> int \<Rightarrow> (int \<times> int) list \<Rightarrow> int \<Rightarrow> int \<Rightarrow> int \<Rightarrow> int \<Rightarrow> int \<Rightarrow> stop + int \<times> printer" where
  "main_start argc gai rps getfl setfl listening efd ctl =
     (if argc \<noteq> 2 then Inl Exit_failure
      else let (sfd, cl) = create_and_bind gai rps
           in if sfd = - 1 then Inl Abort
              else if make_socket_non_blocking getfl setfl = - 1 then Inl Abort
              else if listening = - 1 then Inl Abort
              else if efd = - 1 then Inl Abort
              else if ctl = - 1 then Inl Abort
              else Inr (sfd, \<lparr>watched = {sfd}, closed_fds = cl, printed = []\<rparr>))"

section \<open>The event loop\<close>

definition close_fd :: "int \<Rightarrow> printer \<Rightarrow> printer" where
  "close_fd fd p = p\<lparr>watched := watched p - {fd}, closed_fds := closed_fds p @ [fd]\<rparr>"

text \<open>The accept loop: the connections it is given, each with the results of the calls on it, until \<open>accept\<close> fails.\<close>

fun accept_loop :: "(int \<times> int \<times> int \<times> int) list \<Rightarrow> printer \<Rightarrow> stop + printer" where
  "accept_loop [] p = Inr p"
| "accept_loop ((infd, getfl, setfl, ctl) # cs) p =
     (if infd = - 1 then Inr p
      else if make_socket_non_blocking getfl setfl = - 1 then Inl Abort
      else if ctl = - 1 then Inl Abort
      else accept_loop cs (p\<lparr>watched := insert infd (watched p)\<rparr>))"

text \<open>How a sequence of reads ends.  A read delivers at most 512 bytes; \<open>s\<close> is what the write to the standard output returns.\<close>

datatype read_end = Eagain | Eof | Read_error

fun read_loop :: "(string \<times> int) list \<Rightarrow> read_end \<Rightarrow> string \<Rightarrow> stop + string \<times> bool" where
  "read_loop [] e out = Inr (out, e \<noteq> Eagain)"
| "read_loop ((buf, s) # rs) e out =
     (if s = - 1 then Inl Abort else read_loop rs e (out @ take (nat s) buf))"

datatype io_event =
    Ev_error int
  | Ev_accept "(int \<times> int \<times> int \<times> int) list"
  | Ev_data int "(string \<times> int) list" read_end

fun on_io_event :: "io_event \<Rightarrow> printer \<Rightarrow> stop + printer" where
  "on_io_event (Ev_error fd) p = Inr (close_fd fd p)"
| "on_io_event (Ev_accept cs) p = accept_loop cs p"
| "on_io_event (Ev_data fd rs e) p =
     res_bind (read_loop rs e (printed p)) (\<lambda>(out, fin).
       let p1 = p\<lparr>printed := out\<rparr> in Inr (if fin then close_fd fd p1 else p1))"

fun event_loop :: "io_event list \<Rightarrow> printer \<Rightarrow> stop + printer" where
  "event_loop [] p = Inr p"
| "event_loop (ev # evs) p = res_bind (on_io_event ev p) (event_loop evs)"

section \<open>What it does\<close>

lemma bind_first_closes:
  "bind_first rps = (r, cl) \<Longrightarrow>
     cl = map fst (filter (\<lambda>(sfd, s). sfd \<noteq> - 1) (takeWhile (\<lambda>(sfd, s). sfd = - 1 \<or> s \<noteq> 0) rps)) \<and>
     r = map_option fst (find (\<lambda>(sfd, s). sfd \<noteq> - 1 \<and> s = 0) rps)"
  by (induction rps arbitrary: r cl rule: bind_first.induct) (auto split: prod.splits if_splits)

text \<open>A drained descriptor: everything is printed as far as the writes went, and only an end or an error closes it.\<close>

lemma read_loop_prints:
  "\<forall>(buf, s) \<in> set rs. s \<noteq> - 1 \<Longrightarrow>
     read_loop rs e out = Inr (out @ concat (map (\<lambda>(buf, s). take (nat s) buf) rs), e \<noteq> Eagain)"
  by (induction rs arbitrary: out) auto

lemma full_writes_print_all:
  assumes "\<forall>(buf, s) \<in> set rs. s = int (length buf)"
  shows "read_loop rs e out = Inr (out @ concat (map fst rs), e \<noteq> Eagain)"
proof -
  have m: "map (\<lambda>(buf, s). take (nat s) buf) rs = map fst rs" using assms by (induction rs) auto
  have "\<forall>(buf, s) \<in> set rs. s \<noteq> - 1" using assms by auto
  from read_loop_prints [OF this] show ?thesis unfolding m .
qed

text \<open>A descriptor leaves the set of the watched ones only when it is closed.\<close>

lemma closed_not_watched:
  "on_io_event ev p = Inr p' \<Longrightarrow> fd \<in> watched p \<Longrightarrow> fd \<notin> watched p' \<Longrightarrow> closed_fds p' = closed_fds p @ [fd]"
proof (cases ev)
  case (Ev_accept cs)
  assume "on_io_event ev p = Inr p'" "fd \<in> watched p" "fd \<notin> watched p'"
  moreover have "accept_loop cs p = Inr p' \<Longrightarrow> watched p \<subseteq> watched p'"
    by (induction cs p rule: accept_loop.induct) (auto split: if_splits)
  ultimately show ?thesis using Ev_accept by auto
qed (auto simp: close_fd_def res_simps Let_def split: if_splits)

end
