(* ===== verification/Sync_Examples.thy ===== *)
theory Sync_Examples
  imports Prelude
begin

text \<open>
  The examples of src/materials/07-synchronization-primitives/code as interleavings of atomic actions: the hand-over with a
  condition variable (cv.cpp), the transfer between two boxes (lock.cpp) and the shared map (mutex.cpp).  A wait may wake
  up without a notification; the scheduler may do that at any time.  Console output is left out, except for what \<open>main\<close>
  prints of the data.
\<close>

section \<open>Hand-over with a condition variable\<close>

text \<open>Where a thread stands: the name of a position is the action that comes next.\<close>

datatype main_pc = M_data | M_lock1 | M_ready | M_unlock1 | M_notify | M_lock2 | M_test | M_wait | M_relock
  | M_unlock2 | M_print | M_join | M_done

datatype worker_pc = W_lock | W_test | W_wait | W_relock | W_append | W_processed | W_unlock | W_notify | W_done

datatype owner = Nobody | Main_thread | Worker_thread

record cv_state =
  cv_owner :: owner
  cv_data :: string
  cv_ready :: bool
  cv_processed :: bool
  cv_main :: main_pc
  cv_worker :: worker_pc
  cv_printed :: "string option"

definition cv_init :: cv_state where
  "cv_init = \<lparr>cv_owner = Nobody, cv_data = [], cv_ready = False, cv_processed = False, cv_main = M_data,
     cv_worker = W_lock, cv_printed = None\<rparr>"

definition example_data :: string where
  "example_data = ''Example data''"

definition after_processing :: string where
  "after_processing = '' after processing''"

text \<open>\<open>worker_thread\<close>, one action; \<open>None\<close> when it cannot go on.\<close>

definition worker_thread :: "cv_state \<Rightarrow> cv_state option" where
  "worker_thread s =
     (case cv_worker s of
        W_lock \<Rightarrow> if cv_owner s = Nobody then Some (s\<lparr>cv_owner := Worker_thread, cv_worker := W_test\<rparr>) else None
      | W_test \<Rightarrow> if cv_ready s then Some (s\<lparr>cv_worker := W_append\<rparr>) else Some (s\<lparr>cv_owner := Nobody, cv_worker := W_wait\<rparr>)
      | W_wait \<Rightarrow> None
      | W_relock \<Rightarrow> if cv_owner s = Nobody then Some (s\<lparr>cv_owner := Worker_thread, cv_worker := W_test\<rparr>) else None
      | W_append \<Rightarrow> Some (s\<lparr>cv_data := cv_data s @ after_processing, cv_worker := W_processed\<rparr>)
      | W_processed \<Rightarrow> Some (s\<lparr>cv_processed := True, cv_worker := W_unlock\<rparr>)
      | W_unlock \<Rightarrow> Some (s\<lparr>cv_owner := Nobody, cv_worker := W_notify\<rparr>)
      | W_notify \<Rightarrow> Some (s\<lparr>cv_main := (if cv_main s = M_wait then M_relock else cv_main s), cv_worker := W_done\<rparr>)
      | W_done \<Rightarrow> None)"

text \<open>\<open>main\<close> after it created the thread.\<close>

definition cv_main_thread :: "cv_state \<Rightarrow> cv_state option" where
  "cv_main_thread s =
     (case cv_main s of
        M_data \<Rightarrow> Some (s\<lparr>cv_data := example_data, cv_main := M_lock1\<rparr>)
      | M_lock1 \<Rightarrow> if cv_owner s = Nobody then Some (s\<lparr>cv_owner := Main_thread, cv_main := M_ready\<rparr>) else None
      | M_ready \<Rightarrow> Some (s\<lparr>cv_ready := True, cv_main := M_unlock1\<rparr>)
      | M_unlock1 \<Rightarrow> Some (s\<lparr>cv_owner := Nobody, cv_main := M_notify\<rparr>)
      | M_notify \<Rightarrow> Some (s\<lparr>cv_worker := (if cv_worker s = W_wait then W_relock else cv_worker s), cv_main := M_lock2\<rparr>)
      | M_lock2 \<Rightarrow> if cv_owner s = Nobody then Some (s\<lparr>cv_owner := Main_thread, cv_main := M_test\<rparr>) else None
      | M_test \<Rightarrow> if cv_processed s then Some (s\<lparr>cv_main := M_unlock2\<rparr>) else Some (s\<lparr>cv_owner := Nobody, cv_main := M_wait\<rparr>)
      | M_wait \<Rightarrow> None
      | M_relock \<Rightarrow> if cv_owner s = Nobody then Some (s\<lparr>cv_owner := Main_thread, cv_main := M_test\<rparr>) else None
      | M_unlock2 \<Rightarrow> Some (s\<lparr>cv_owner := Nobody, cv_main := M_print\<rparr>)
      | M_print \<Rightarrow> Some (s\<lparr>cv_printed := Some (cv_data s), cv_main := M_join\<rparr>)
      | M_join \<Rightarrow> if cv_worker s = W_done then Some (s\<lparr>cv_main := M_done\<rparr>) else None
      | M_done \<Rightarrow> None)"

datatype cv_action = Main_acts | Worker_acts | Main_wakes | Worker_wakes

fun cv_step :: "cv_action \<Rightarrow> cv_state \<Rightarrow> cv_state option" where
  "cv_step Main_acts s = cv_main_thread s"
| "cv_step Worker_acts s = worker_thread s"
| "cv_step Main_wakes s = (if cv_main s = M_wait then Some (s\<lparr>cv_main := M_relock\<rparr>) else None)"
| "cv_step Worker_wakes s = (if cv_worker s = W_wait then Some (s\<lparr>cv_worker := W_relock\<rparr>) else None)"

text \<open>A run takes its actions from the list; \<open>None\<close> when one of them is not possible.\<close>

fun cv_run :: "cv_action list \<Rightarrow> cv_state \<Rightarrow> cv_state option" where
  "cv_run [] s = Some s"
| "cv_run (a # as) s = (case cv_step a s of None \<Rightarrow> None | Some s' \<Rightarrow> cv_run as s')"

definition main_holds :: "main_pc \<Rightarrow> bool" where
  "main_holds pc \<longleftrightarrow> pc \<in> {M_ready, M_unlock1, M_test, M_unlock2}"

definition worker_holds :: "worker_pc \<Rightarrow> bool" where
  "worker_holds pc \<longleftrightarrow> pc \<in> {W_test, W_append, W_processed, W_unlock}"

text \<open>
  The invariant: the owner of the mutex, the meaning of the two flags, the data at every position, and that a thread
  sleeps only as long as its notification is still to come.
\<close>

definition cv_inv :: "cv_state \<Rightarrow> bool" where
  "cv_inv s \<longleftrightarrow>
     (main_holds (cv_main s) \<longleftrightarrow> cv_owner s = Main_thread) \<and> (worker_holds (cv_worker s) \<longleftrightarrow> cv_owner s = Worker_thread) \<and>
     (cv_ready s \<longleftrightarrow> cv_main s \<notin> {M_data, M_lock1, M_ready}) \<and>
     (cv_processed s \<longleftrightarrow> cv_worker s \<in> {W_unlock, W_notify, W_done}) \<and>
     (cv_worker s \<in> {W_append, W_processed, W_unlock, W_notify, W_done} \<longrightarrow> cv_ready s) \<and>
     (cv_main s \<in> {M_unlock2, M_print, M_join, M_done} \<longrightarrow> cv_processed s) \<and>
     (cv_main s \<noteq> M_data \<longrightarrow>
        cv_data s = (if cv_worker s \<in> {W_processed, W_unlock, W_notify, W_done} then example_data @ after_processing else example_data)) \<and>
     (cv_worker s = W_wait \<longrightarrow> cv_main s \<in> {M_data, M_lock1, M_ready, M_unlock1, M_notify}) \<and>
     (cv_main s = M_wait \<longrightarrow> cv_worker s \<noteq> W_done) \<and>
     (cv_main s = M_done \<longrightarrow> cv_worker s = W_done) \<and>
     cv_printed s = (if cv_main s \<in> {M_join, M_done} then Some (example_data @ after_processing) else None)"

lemma cv_inv_init: "cv_inv cv_init"
  by (simp add: cv_inv_def cv_init_def main_holds_def worker_holds_def)

lemmas cv_inv_defs = cv_inv_def main_holds_def worker_holds_def

lemma main_thread_inv: "cv_inv s \<Longrightarrow> pred_option cv_inv (cv_main_thread s)"
  by (cases "cv_main s"; cases "cv_worker s"; cases "cv_owner s") (auto simp: cv_main_thread_def cv_inv_defs)

lemma worker_thread_inv: "cv_inv s \<Longrightarrow> pred_option cv_inv (worker_thread s)"
  by (cases "cv_worker s"; cases "cv_main s"; cases "cv_owner s") (auto simp: worker_thread_def cv_inv_defs)

lemma cv_step_inv:
  assumes "cv_inv s" "cv_step a s = Some s'"
  shows "cv_inv s'"
proof -
  have "cv_main s = M_wait \<Longrightarrow> cv_inv (s\<lparr>cv_main := M_relock\<rparr>)" "cv_worker s = W_wait \<Longrightarrow> cv_inv (s\<lparr>cv_worker := W_relock\<rparr>)"
    using assms(1) by (auto simp: cv_inv_defs)
  then show ?thesis
    using assms main_thread_inv [OF assms(1)] worker_thread_inv [OF assms(1)] by (cases a) (auto split: if_splits)
qed

lemma cv_run_inv: "cv_inv s \<Longrightarrow> cv_run as s = Some s' \<Longrightarrow> cv_inv s'"
  by (induction as arbitrary: s) (auto split: option.splits dest: cv_step_inv)

text \<open>Some thread can always go on by itself until \<open>main\<close> has returned.\<close>

lemma cv_progress:
  assumes "cv_inv s" "cv_main s \<noteq> M_done"
  shows "cv_main_thread s \<noteq> None \<or> worker_thread s \<noteq> None"
  using assms
  by (cases "cv_main s"; cases "cv_worker s"; cases "cv_owner s") (auto simp: cv_main_thread_def worker_thread_def cv_inv_defs)

text \<open>How many actions of their own the threads have left at most.\<close>

fun main_rank :: "bool \<Rightarrow> main_pc \<Rightarrow> nat" where
  "main_rank p M_data = 15" | "main_rank p M_lock1 = 14" | "main_rank p M_ready = 13" | "main_rank p M_unlock1 = 12"
| "main_rank p M_notify = 11" | "main_rank p M_lock2 = 10" | "main_rank p M_relock = (if p then 5 else 9)"
| "main_rank p M_test = (if p then 4 else 8)" | "main_rank p M_wait = 7" | "main_rank p M_unlock2 = 3"
| "main_rank p M_print = 2" | "main_rank p M_join = 1" | "main_rank p M_done = 0"

fun worker_rank :: "bool \<Rightarrow> worker_pc \<Rightarrow> nat" where
  "worker_rank r W_lock = 11" | "worker_rank r W_relock = (if r then 6 else 10)" | "worker_rank r W_test = (if r then 5 else 9)"
| "worker_rank r W_wait = 8" | "worker_rank r W_append = 4" | "worker_rank r W_processed = 3" | "worker_rank r W_unlock = 2"
| "worker_rank r W_notify = 1" | "worker_rank r W_done = 0"

definition cv_rank :: "cv_state \<Rightarrow> nat" where
  "cv_rank s = main_rank (cv_processed s) (cv_main s) + worker_rank (cv_ready s) (cv_worker s)"

lemma cv_rank_main: "cv_inv s \<Longrightarrow> pred_option (\<lambda>s'. cv_rank s' < cv_rank s) (cv_main_thread s)"
  by (cases "cv_main s"; cases "cv_worker s"; cases "cv_owner s") (auto simp: cv_main_thread_def cv_inv_defs cv_rank_def)

lemma cv_rank_worker: "cv_inv s \<Longrightarrow> pred_option (\<lambda>s'. cv_rank s' < cv_rank s) (worker_thread s)"
  by (cases "cv_worker s"; cases "cv_main s"; cases "cv_owner s") (auto simp: worker_thread_def cv_inv_defs cv_rank_def)

lemma cv_run_rank:
  "cv_inv s \<Longrightarrow> set as \<subseteq> {Main_acts, Worker_acts} \<Longrightarrow> cv_run as s = Some s' \<Longrightarrow> length as + cv_rank s' \<le> cv_rank s"
proof (induction as arbitrary: s)
  case (Cons a as)
  from Cons.prems(3) obtain s1 where s1: "cv_step a s = Some s1" "cv_run as s1 = Some s'" by (auto split: option.splits)
  have "cv_rank s1 < cv_rank s"
    using Cons.prems(2) s1(1) cv_rank_main [OF Cons.prems(1)] cv_rank_worker [OF Cons.prems(1)] by (cases a) auto
  moreover have "length as + cv_rank s' \<le> cv_rank s1"
    using Cons.IH [OF cv_step_inv [OF Cons.prems(1) s1(1)] _ s1(2)] Cons.prems(2) by simp
  ultimately show ?case by simp
qed simp

section \<open>Transfer between two boxes\<close>

datatype box_id = Acc1 | Acc2

record box =
  num_things :: int
  box_m :: "nat option"

datatype transfer_pc = T_lock | T_from | T_to | T_unlock_to | T_unlock_from | T_done

record bank =
  boxes :: "box_id \<Rightarrow> box"
  transfers :: "nat \<Rightarrow> transfer_pc"

text \<open>
  One action of \<open>transfer\<close> in thread \<open>t\<close>.  \<open>std::lock\<close> takes both mutexes without deadlock: it returns when both were
  free for it.  The destructors release the mutex of \<open>to\<close> first.
\<close>

definition transfer :: "box_id \<Rightarrow> box_id \<Rightarrow> int \<Rightarrow> nat \<Rightarrow> bank \<Rightarrow> bank option" where
  "transfer from to num t k =
     (let bs = boxes k; goes = (\<lambda>bs pc. Some (k\<lparr>boxes := bs, transfers := (transfers k)(t := pc)\<rparr>))
      in case transfers k t of
        T_lock \<Rightarrow>
          if box_m (bs from) = None \<and> box_m (bs to) = None
          then goes (bs(from := bs from\<lparr>box_m := Some t\<rparr>, to := bs to\<lparr>box_m := Some t\<rparr>)) T_from else None
      | T_from \<Rightarrow> goes (bs(from := bs from\<lparr>num_things := num_things (bs from) - num\<rparr>)) T_to
      | T_to \<Rightarrow> goes (bs(to := bs to\<lparr>num_things := num_things (bs to) + num\<rparr>)) T_unlock_to
      | T_unlock_to \<Rightarrow> goes (bs(to := bs to\<lparr>box_m := None\<rparr>)) T_unlock_from
      | T_unlock_from \<Rightarrow> goes (bs(from := bs from\<lparr>box_m := None\<rparr>)) T_done
      | T_done \<Rightarrow> None)"

definition bank_init :: bank where
  "bank_init = \<lparr>boxes = (\<lambda>b. \<lparr>num_things = (if b = Acc1 then 100 else 50), box_m = None\<rparr>), transfers = (\<lambda>_. T_lock)\<rparr>"

text \<open>The two threads of \<open>main\<close>.\<close>

definition bank_step :: "bool \<Rightarrow> bank \<Rightarrow> bank option" where
  "bank_step first k = (if first then transfer Acc1 Acc2 10 1 k else transfer Acc2 Acc1 5 2 k)"

fun bank_run :: "bool list \<Rightarrow> bank \<Rightarrow> bank option" where
  "bank_run [] k = Some k"
| "bank_run (a # as) k = (case bank_step a k of None \<Rightarrow> None | Some k' \<Rightarrow> bank_run as k')"

fun transfer_rank :: "transfer_pc \<Rightarrow> nat" where
  "transfer_rank T_lock = 5" | "transfer_rank T_from = 4" | "transfer_rank T_to = 3" | "transfer_rank T_unlock_to = 2"
| "transfer_rank T_unlock_from = 1" | "transfer_rank T_done = 0"

definition bank_inv :: "bank \<Rightarrow> bool" where
  "bank_inv k \<longleftrightarrow>
     (let r1 = transfer_rank (transfers k 1); r2 = transfer_rank (transfers k 2); held = (\<lambda>m r. m \<le> r \<and> r \<le> 4)
      in num_things (boxes k Acc1) = 100 - (if r1 \<le> 3 then 10 else 0) + (if r2 \<le> 2 then 5 else 0) \<and>
         num_things (boxes k Acc2) = 50 + (if r1 \<le> 2 then 10 else 0) - (if r2 \<le> 3 then 5 else 0) \<and>
         \<not> (held 1 r1 \<and> held 2 r2) \<and> \<not> (held 2 r1 \<and> held 1 r2) \<and>
         box_m (boxes k Acc1) = (if held 1 r1 then Some 1 else if held 2 r2 then Some 2 else None) \<and>
         box_m (boxes k Acc2) = (if held 2 r1 then Some 1 else if held 1 r2 then Some 2 else None))"

definition bank_rank :: "bank \<Rightarrow> nat" where
  "bank_rank k = transfer_rank (transfers k 1) + transfer_rank (transfers k 2)"

lemma bank_inv_init: "bank_inv bank_init"
  by (simp add: bank_inv_def bank_init_def)

lemma bank_step_ok: "bank_inv k \<Longrightarrow> pred_option (\<lambda>k'. bank_inv k' \<and> Suc (bank_rank k') = bank_rank k) (bank_step a k)"
  by (cases "transfers k 1"; cases "transfers k 2"; cases a)
    (auto simp: bank_step_def transfer_def bank_inv_def bank_rank_def Let_def)

lemma bank_run_ok: "bank_inv k \<Longrightarrow> bank_run as k = Some k' \<Longrightarrow> bank_inv k' \<and> length as + bank_rank k' = bank_rank k"
proof (induction as arbitrary: k)
  case (Cons a as)
  from Cons.prems(2) obtain k1 where k1: "bank_step a k = Some k1" "bank_run as k1 = Some k'" by (auto split: option.splits)
  with bank_step_ok [OF Cons.prems(1), of a] have "bank_inv k1" "Suc (bank_rank k1) = bank_rank k" by auto
  with Cons.IH [of k1] k1(2) show ?case by simp
qed simp

lemma bank_progress: "bank_inv k \<Longrightarrow> bank_rank k \<noteq> 0 \<Longrightarrow> \<exists>a. bank_step a k \<noteq> None"
  by (cases "transfers k 1"; cases "transfers k 2")
    (auto simp: bank_step_def transfer_def bank_inv_def bank_rank_def Let_def ex_bool_eq)

text \<open>Every schedule that lets the threads act as often as they need moves the things as if the transfers were atomic.\<close>

lemma transfers_complete:
  assumes "bank_run as bank_init = Some k"
  shows "length as \<le> 10" "length as < 10 \<Longrightarrow> \<exists>a. bank_step a k \<noteq> None"
    "length as = 10 \<Longrightarrow> num_things (boxes k Acc1) = 95 \<and> num_things (boxes k Acc2) = 55"
proof -
  have r: "bank_inv k" "length as + bank_rank k = 10"
    using bank_run_ok [OF bank_inv_init assms] by (simp_all add: bank_rank_def bank_init_def)
  from r(2) show "length as \<le> 10" by simp
  from bank_progress [OF r(1)] r(2) show "length as < 10 \<Longrightarrow> \<exists>a. bank_step a k \<noteq> None" by simp
  assume "length as = 10"
  then have "transfer_rank (transfers k 1) = 0" "transfer_rank (transfers k 2) = 0" using r(2) by (simp_all add: bank_rank_def)
  then show "num_things (boxes k Acc1) = 95 \<and> num_things (boxes k Acc2) = 55" using r(1) by (simp add: bank_inv_def)
qed

section \<open>A shared map\<close>

datatype saver_pc = S_fetch | S_lock | S_store | S_unlock | S_done

record pages_state =
  g_pages :: "string \<rightharpoonup> string"
  g_pages_mutex :: "nat option"
  savers :: "nat \<Rightarrow> saver_pc"

definition save_page :: "string \<Rightarrow> nat \<Rightarrow> pages_state \<Rightarrow> pages_state option" where
  "save_page url t s =
     (let goes = (\<lambda>s pc. Some (s\<lparr>savers := (savers s)(t := pc)\<rparr>))
      in case savers s t of
        S_fetch \<Rightarrow> goes s S_lock
      | S_lock \<Rightarrow> if g_pages_mutex s = None then goes (s\<lparr>g_pages_mutex := Some t\<rparr>) S_store else None
      | S_store \<Rightarrow> goes (s\<lparr>g_pages := (g_pages s)(url \<mapsto> ''fake content'')\<rparr>) S_unlock
      | S_unlock \<Rightarrow> goes (s\<lparr>g_pages_mutex := None\<rparr>) S_done
      | S_done \<Rightarrow> None)"

text \<open>Threads \<open>0\<close> to \<open>length urls - 1\<close>, each with its page; \<open>main\<close> starts two.\<close>

fun pages_run :: "string list \<Rightarrow> nat list \<Rightarrow> pages_state \<Rightarrow> pages_state option" where
  "pages_run urls [] s = Some s"
| "pages_run urls (t # ts) s =
     (if t < length urls then case save_page (urls ! t) t s of None \<Rightarrow> None | Some s' \<Rightarrow> pages_run urls ts s' else None)"

definition pages_init :: pages_state where
  "pages_init = \<lparr>g_pages = Map.empty, g_pages_mutex = None, savers = (\<lambda>_. S_fetch)\<rparr>"

definition pages_inv :: "string list \<Rightarrow> pages_state \<Rightarrow> bool" where
  "pages_inv urls s \<longleftrightarrow>
     (\<forall>t. savers s t \<in> {S_store, S_unlock} \<longleftrightarrow> g_pages_mutex s = Some t) \<and>
     (\<forall>u c. g_pages s u = Some c \<longleftrightarrow>
        c = ''fake content'' \<and> (\<exists>t < length urls. urls ! t = u \<and> savers s t \<in> {S_unlock, S_done}))"

lemma save_page_inv:
  assumes "pages_inv urls s" "t < length urls" "save_page (urls ! t) t s = Some s'"
  shows "pages_inv urls s'"
proof -
  have lock: "savers s x \<in> {S_store, S_unlock} \<longleftrightarrow> g_pages_mutex s = Some x" for x using assms(1) by (simp add: pages_inv_def)
  have pages: "g_pages s u = Some c \<longleftrightarrow> c = ''fake content'' \<and>
      (\<exists>x < length urls. urls ! x = u \<and> savers s x \<in> {S_unlock, S_done})" for u c
    using assms(1) by (simp only: pages_inv_def)
  have "savers s' x \<in> {S_store, S_unlock} \<longleftrightarrow> g_pages_mutex s' = Some x" for x
    using assms(3) lock [of x] lock [of t] by (cases "savers s t") (auto simp: save_page_def Let_def split: if_splits)
  moreover have "(\<exists>x < length urls. urls ! x = u \<and> savers s' x \<in> {S_unlock, S_done}) \<longleftrightarrow>
      (\<exists>x < length urls. urls ! x = u \<and> savers s x \<in> {S_unlock, S_done}) \<or> savers s t = S_store \<and> urls ! t = u" for u
    using assms(2,3) by (cases "savers s t") (auto simp: save_page_def Let_def split: if_splits)
  moreover have "g_pages s' = (if savers s t = S_store then (g_pages s)(urls ! t \<mapsto> ''fake content'') else g_pages s)"
    using assms(3) by (cases "savers s t") (auto simp: save_page_def Let_def split: if_splits)
  ultimately show ?thesis unfolding pages_inv_def using pages by auto
qed

lemma pages_run_inv: "pages_inv urls s \<Longrightarrow> pages_run urls ts s = Some s' \<Longrightarrow> pages_inv urls s'"
  by (induction ts arbitrary: s) (auto split: if_splits option.splits dest: save_page_inv)

text \<open>When all threads are joined the map holds exactly the pages, whatever the schedule was.\<close>

lemma pages_saved:
  assumes "pages_run urls ts pages_init = Some s" "\<forall>t < length urls. savers s t = S_done"
  shows "g_pages s = (\<lambda>u. if u \<in> set urls then Some ''fake content'' else None)"
proof
  have "pages_inv urls pages_init" by (simp add: pages_inv_def pages_init_def)
  from pages_run_inv [OF this assms(1)] have
    "g_pages s u = Some c \<longleftrightarrow> c = ''fake content'' \<and> (\<exists>t < length urls. urls ! t = u \<and> savers s t \<in> {S_unlock, S_done})" for u c
    by (simp only: pages_inv_def)
  moreover have "(\<exists>t < length urls. urls ! t = u \<and> savers s t \<in> {S_unlock, S_done}) \<longleftrightarrow> u \<in> set urls" for u
    unfolding in_set_conv_nth using assms(2) by blast
  ultimately have "g_pages s u = Some c \<longleftrightarrow> c = ''fake content'' \<and> u \<in> set urls" for u c by (simp only:)
  then show "g_pages s u = (if u \<in> set urls then Some ''fake content'' else None)" for u
    by (metis not_None_eq)
qed

section \<open>Property of the hand-over\<close>

text \<open>
  C39: The hand-over with the condition variable.  Under every schedule, with any number of spurious wake-ups: the two
  threads never touch the data at the same time; what \<open>main\<close> prints in the end is the data as the worker left it; as long
  as \<open>main\<close> has not returned one of the threads can go on by itself, so no notification is lost; and without spurious
  wake-ups the program is over after at most 26 actions.
\<close>

theorem handover_correct:
  assumes "cv_run as cv_init = Some s"
  shows "\<not> ((cv_main s = M_data \<or> cv_main s = M_print) \<and> cv_worker s = W_append) \<and>
    (cv_main s = M_done \<longrightarrow> cv_printed s = Some ''Example data after processing'') \<and>
    (cv_main s \<noteq> M_done \<longrightarrow> cv_step Main_acts s \<noteq> None \<or> cv_step Worker_acts s \<noteq> None) \<and>
    (set as \<subseteq> {Main_acts, Worker_acts} \<longrightarrow> length as \<le> 26)"
proof -
  have inv: "cv_inv s" by (rule cv_run_inv [OF cv_inv_init assms])
  have "length as \<le> 26" if "set as \<subseteq> {Main_acts, Worker_acts}"
    using cv_run_rank [OF cv_inv_init that assms] by (simp add: cv_rank_def cv_init_def)
  moreover have "example_data @ after_processing = ''Example data after processing''" by code_simp
  with inv have "cv_main s = M_done \<Longrightarrow> cv_printed s = Some ''Example data after processing''" by (simp only: cv_inv_def) simp
  moreover have "\<not> ((cv_main s = M_data \<or> cv_main s = M_print) \<and> cv_worker s = W_append)"
    using inv by (cases "cv_main s"; cases "cv_worker s") (auto simp: cv_inv_def)
  ultimately show ?thesis using cv_progress [OF inv] by (simp only: cv_step.simps) blast
qed

text \<open>The worker comes first, sleeps, is woken up without reason once, and then by \<open>main\<close>.\<close>

theorem handover_correct_witness:
  "\<exists>s. cv_run ([Worker_acts, Worker_acts, Worker_wakes, Worker_acts, Worker_acts] @ replicate 7 Main_acts @
      replicate 6 Worker_acts @ replicate 5 Main_acts) cv_init = Some s \<and> cv_printed s = Some ''Example data after processing''"
proof -
  let ?as = "[Worker_acts, Worker_acts, Worker_wakes, Worker_acts, Worker_acts] @ replicate 7 Main_acts @
      replicate 6 Worker_acts @ replicate 5 Main_acts"
  have "map_option cv_main (cv_run ?as cv_init) = Some M_done" by code_simp
  then obtain s where "cv_run ?as cv_init = Some s" "cv_main s = M_done" by auto
  with handover_correct [of ?as s] show ?thesis by blast
qed

end
