(* ===== verification/Pipe_Examples.thy ===== *)
theory Pipe_Examples
  imports Prelude
begin

text \<open>
  Two copying programs of the course: cat.c (src/materials/03-process-threads-files/code/fileio) and simple_pipe.c
  (src/materials/08-pipes/examples), in which a parent process sends its argument to a child through a pipe.
\<close>

section \<open>cat\<close>

datatype io_read = Read_bytes string | Read_end | Read_error

text \<open>
  \<open>rd i\<close> is what the read number \<open>i\<close> gives, \<open>wr i n\<close> what the write number \<open>i\<close> of \<open>n\<close> bytes answers; the bytes it
  answers are on the standard output.  The value is the exit code and all that was put out, the message at exit included;
  \<open>None\<close> when the input never ends.
\<close>

abbreviation newline :: string where
  "newline \<equiv> [CHR 0x0A]"

partial_function (option) cat_loop ::
  "(nat \<Rightarrow> io_read) \<Rightarrow> (nat \<Rightarrow> nat \<Rightarrow> int) \<Rightarrow> nat \<Rightarrow> string \<Rightarrow> (int \<times> string) option" where
  "cat_loop rd wr i out =
     (case rd i of
        Read_bytes cs \<Rightarrow>
          (if wr i (length cs) \<noteq> int (length cs)
           then Some (1, out @ take (nat (wr i (length cs))) cs @ ''write error'' @ newline)
           else cat_loop rd wr (Suc i) (out @ cs))
      | Read_end \<Rightarrow> Some (0, out)
      | Read_error \<Rightarrow> Some (2, out @ ''read error'' @ newline))"

definition cat_main :: "(nat \<Rightarrow> io_read) \<Rightarrow> (nat \<Rightarrow> nat \<Rightarrow> int) \<Rightarrow> (int \<times> string) option" where
  "cat_main rd wr = cat_loop rd wr 0 []"

lemma cat_loop_reads:
  "\<forall>j < length css. rd (i + j) = Read_bytes (css ! j) \<and> wr (i + j) (length (css ! j)) = int (length (css ! j)) \<Longrightarrow>
   cat_loop rd wr i out = cat_loop rd wr (i + length css) (out @ concat css)"
proof (induction css arbitrary: i out)
  case (Cons cs css)
  have "cat_loop rd wr i out = cat_loop rd wr (Suc i) (out @ cs)" using Cons.prems by (subst cat_loop.simps) auto
  moreover have "cat_loop rd wr (Suc i) (out @ cs) = cat_loop rd wr (Suc i + length css) ((out @ cs) @ concat css)"
  proof (rule Cons.IH, intro allI impI)
    fix j assume "j < length css"
    then show "rd (Suc i + j) = Read_bytes (css ! j) \<and> wr (Suc i + j) (length (css ! j)) = int (length (css ! j))"
      using Cons.prems [rule_format, of "Suc j"] by simp
  qed
  ultimately show ?case by simp
qed simp

text \<open>Reads and full writes up to the end of the input copy it; a read error or a short write ends with its code.\<close>

lemma cat_copies:
  assumes "\<forall>j < length css. rd j = Read_bytes (css ! j) \<and> wr j (length (css ! j)) = int (length (css ! j))"
  shows "rd (length css) = Read_end \<Longrightarrow> cat_main rd wr = Some (0, concat css)"
    and "rd (length css) = Read_error \<Longrightarrow> cat_main rd wr = Some (2, concat css @ ''read error'' @ newline)"
    and "rd (length css) = Read_bytes cs \<Longrightarrow> wr (length css) (length cs) \<noteq> int (length cs) \<Longrightarrow>
      \<exists>n. cat_main rd wr = Some (1, concat css @ take n cs @ ''write error'' @ newline)"
proof -
  have "cat_main rd wr = cat_loop rd wr (length css) (concat css)"
    using cat_loop_reads [of css rd 0 wr "[]"] assms by (simp add: cat_main_def)
  then show "rd (length css) = Read_end \<Longrightarrow> cat_main rd wr = Some (0, concat css)"
    "rd (length css) = Read_error \<Longrightarrow> cat_main rd wr = Some (2, concat css @ ''read error'' @ newline)"
    "rd (length css) = Read_bytes cs \<Longrightarrow> wr (length css) (length cs) \<noteq> int (length cs) \<Longrightarrow>
      \<exists>n. cat_main rd wr = Some (1, concat css @ take n cs @ ''write error'' @ newline)"
    by (simp_all add: cat_loop.simps [of _ _ "length css"]) blast
qed

section \<open>Parent and child\<close>

text \<open>
  Up to the fork, for the number of arguments and the answers of \<open>pipe\<close>, \<open>fork\<close> and the first \<open>close\<close> of the child: the
  exit code and the message of an error, or which of the two processes goes on.
\<close>

datatype pipe_role = Parent_role | Child_role

definition simple_pipe_main :: "nat \<Rightarrow> int \<Rightarrow> int \<Rightarrow> int \<Rightarrow> int \<times> string + pipe_role" where
  "simple_pipe_main argc pipe_rc fork_rc close_rc =
     (if argc \<noteq> 2 then Inl (- 1, ''Expected 1 command line argument'')
      else if pipe_rc = - 1 then Inl (- 1, ''Error: pipe'')
      else if fork_rc = - 1 then Inl (- 1, ''Error: fork'')
      else if fork_rc = 0 then (if close_rc = - 1 then Inl (- 1, ''Error: close'') else Inr Child_role)
      else Inr Parent_role)"

text \<open>A process goes on only when every call it made succeeded, and the child is the one that got 0 from \<open>fork\<close>.\<close>

lemma simple_pipe_main_roles:
  "simple_pipe_main argc pipe_rc fork_rc close_rc = Inr Child_role \<longleftrightarrow> argc = 2 \<and> pipe_rc \<noteq> - 1 \<and> fork_rc = 0 \<and> close_rc \<noteq> - 1"
  "simple_pipe_main argc pipe_rc fork_rc close_rc = Inr Parent_role \<longleftrightarrow> argc = 2 \<and> pipe_rc \<noteq> - 1 \<and> fork_rc \<noteq> 0 \<and> fork_rc \<noteq> - 1"
  by (auto simp: simple_pipe_main_def)

text \<open>
  After the fork.  A position is the call that comes next: the parent's close of the descriptor \<open>pfd[0] == -1\<close>, its write
  of the rest of the argument, its close of the write end and its wait; the child's close of its write end, its read, its
  write of what it has read, the final line end and the last close.  Two fields are there for the statements: the bytes
  the parent had not written when it gave up, and whether the line end was written.
\<close>

datatype parent_pc = P_close_0 | P_write string | P_close | P_wait | P_exit int

datatype child_pc = C_close | C_read | C_write string | C_newline | C_close_read | C_exit int

record pipe_state =
  pipe_bytes :: string
  parent_writes :: bool
  child_writes :: bool
  stdin_open :: bool
  unwritten :: string
  child_out :: string
  line_ended :: bool
  parent_at :: parent_pc
  child_at :: child_pc

definition pipe_init :: "string \<Rightarrow> pipe_state" where
  "pipe_init arg = \<lparr>pipe_bytes = [], parent_writes = True, child_writes = True, stdin_open = True, unwritten = [],
     child_out = [], line_ended = False,
     parent_at = P_close_0, child_at = C_close\<rparr>"

definition BUF_SIZE :: nat where
  "BUF_SIZE = 10"

text \<open>
  One call of the parent.  A write moves \<open>n\<close> bytes as soon as the pipe has room for them and goes on with the rest, as a
  blocking write does; \<open>cap\<close> is the capacity of the pipe.  The comparison \<open>pfd[0] == -1\<close> is false, so the parent closes
  the descriptor 0.
\<close>

definition parent_step :: "nat \<Rightarrow> string \<Rightarrow> nat \<Rightarrow> pipe_state \<Rightarrow> pipe_state option" where
  "parent_step cap arg n s =
     (case parent_at s of
        P_close_0 \<Rightarrow>
          if stdin_open s then Some (s\<lparr>stdin_open := False, parent_at := P_write arg\<rparr>)
          else Some (s\<lparr>parent_at := P_exit (-1), parent_writes := False\<rparr>)
      | P_write rest \<Rightarrow>
          if rest = [] then Some (s\<lparr>parent_at := P_close\<rparr>)
          else if 0 < n \<and> n \<le> length rest \<and> length (pipe_bytes s) + n \<le> cap
          then Some (s\<lparr>pipe_bytes := pipe_bytes s @ take n rest, parent_at := P_write (drop n rest)\<rparr>)
          else None
      | P_close \<Rightarrow> Some (s\<lparr>parent_writes := False, parent_at := P_wait\<rparr>)
      | P_wait \<Rightarrow> (case child_at s of C_exit _ \<Rightarrow> Some (s\<lparr>parent_at := P_exit 0\<rparr>) | _ \<Rightarrow> None)
      | P_exit _ \<Rightarrow> None)"

text \<open>One call of the child; a read takes \<open>n\<close> bytes, and is at the end when the pipe is empty and no write end is open.\<close>

definition child_step :: "nat \<Rightarrow> pipe_state \<Rightarrow> pipe_state option" where
  "child_step n s =
     (case child_at s of
        C_close \<Rightarrow> Some (s\<lparr>child_writes := False, child_at := C_read\<rparr>)
      | C_read \<Rightarrow>
          if pipe_bytes s = [] then
            (if parent_writes s \<or> child_writes s then None else Some (s\<lparr>child_at := C_newline\<rparr>))
          else if 0 < n \<and> n \<le> BUF_SIZE \<and> n \<le> length (pipe_bytes s)
          then Some (s\<lparr>pipe_bytes := drop n (pipe_bytes s), child_at := C_write (take n (pipe_bytes s))\<rparr>)
          else None
      | C_write cs \<Rightarrow> Some (s\<lparr>child_out := child_out s @ cs, child_at := C_read\<rparr>)
      | C_newline \<Rightarrow> Some (s\<lparr>child_out := child_out s @ newline, line_ended := True, child_at := C_close_read\<rparr>)
      | C_close_read \<Rightarrow> Some (s\<lparr>child_at := C_exit 0\<rparr>)
      | C_exit _ \<Rightarrow> None)"

text \<open>
  A call of the child that fails, a write after \<open>n\<close> bytes.  The child returns -1, after a message when its first close
  fails; but it ignores the result of the write of the line end and goes on.
\<close>

definition child_fails :: "nat \<Rightarrow> pipe_state \<Rightarrow> pipe_state option" where
  "child_fails n s =
     (case child_at s of
        C_close \<Rightarrow> Some (s\<lparr>child_writes := False, child_out := child_out s @ ''Error: close'', child_at := C_exit (-1)\<rparr>)
      | C_read \<Rightarrow> Some (s\<lparr>child_at := C_exit (-1)\<rparr>)
      | C_write cs \<Rightarrow>
          if n < length cs then Some (s\<lparr>child_out := child_out s @ take n cs, child_at := C_exit (-1)\<rparr>) else None
      | C_newline \<Rightarrow> Some (s\<lparr>child_at := C_close_read\<rparr>)
      | C_close_read \<Rightarrow> Some (s\<lparr>child_at := C_exit (-1)\<rparr>)
      | C_exit _ \<Rightarrow> None)"

text \<open>A call of the parent that fails, the write after \<open>n\<close> more bytes: it returns -1, which closes its write end.\<close>

definition parent_fails :: "nat \<Rightarrow> string \<Rightarrow> nat \<Rightarrow> pipe_state \<Rightarrow> pipe_state option" where
  "parent_fails cap arg n s =
     (case parent_at s of
        P_close_0 \<Rightarrow> Some (s\<lparr>stdin_open := False, unwritten := arg, parent_writes := False, parent_at := P_exit (-1)\<rparr>)
      | P_write rest \<Rightarrow>
          if n < length rest \<and> length (pipe_bytes s) + n \<le> cap
          then Some (s\<lparr>pipe_bytes := pipe_bytes s @ take n rest, unwritten := drop n rest, parent_writes := False,
                 parent_at := P_exit (-1)\<rparr>)
          else None
      | P_close \<Rightarrow> Some (s\<lparr>parent_writes := False, parent_at := P_exit (-1)\<rparr>)
      | _ \<Rightarrow> None)"

datatype pipe_action = Parent nat | Child nat | Parent_fails nat | Child_fails nat

fun pipe_step :: "nat \<Rightarrow> string \<Rightarrow> pipe_action \<Rightarrow> pipe_state \<Rightarrow> pipe_state option" where
  "pipe_step cap arg (Parent n) s = parent_step cap arg n s"
| "pipe_step cap arg (Child n) s = child_step n s"
| "pipe_step cap arg (Parent_fails n) s = parent_fails cap arg n s"
| "pipe_step cap arg (Child_fails n) s = child_fails n s"

fun pipe_run :: "nat \<Rightarrow> string \<Rightarrow> pipe_action list \<Rightarrow> pipe_state \<Rightarrow> pipe_state option" where
  "pipe_run cap arg [] s = Some s"
| "pipe_run cap arg (a # as) s = (case pipe_step cap arg a s of None \<Rightarrow> None | Some s' \<Rightarrow> pipe_run cap arg as s')"

section \<open>What the child prints\<close>

definition unsent :: "string \<Rightarrow> pipe_state \<Rightarrow> string" where
  "unsent arg s = (case parent_at s of P_close_0 \<Rightarrow> arg | P_write rest \<Rightarrow> rest | _ \<Rightarrow> [])"

text \<open>
  The bytes of the argument are put out, in the child's buffer, in the pipe, still to be sent or never written, in this
  order; the child sees the end only after the parent has closed its write end.
\<close>

definition line_end :: "pipe_state \<Rightarrow> string" where
  "line_end s = (if line_ended s then newline else [])"

definition printed_all :: "string \<Rightarrow> pipe_state \<Rightarrow> bool" where
  "printed_all arg s \<longleftrightarrow> (\<exists>xs. xs @ unwritten s = arg \<and> child_out s = xs @ line_end s)"

definition child_ok :: "string \<Rightarrow> pipe_state \<Rightarrow> bool" where
  "child_ok arg s \<longleftrightarrow>
     (case child_at s of
        C_close \<Rightarrow> child_out s = [] \<and> pipe_bytes s @ unsent arg s @ unwritten s = arg \<and> \<not> line_ended s
      | C_read \<Rightarrow> child_out s @ pipe_bytes s @ unsent arg s @ unwritten s = arg \<and> \<not> line_ended s
      | C_write cs \<Rightarrow> child_out s @ cs @ pipe_bytes s @ unsent arg s @ unwritten s = arg \<and> \<not> line_ended s
      | C_newline \<Rightarrow> child_out s @ unwritten s = arg \<and> pipe_bytes s = [] \<and> \<not> line_ended s
      | C_close_read \<Rightarrow> printed_all arg s \<and> pipe_bytes s = []
      | C_exit r \<Rightarrow> r = 0 \<and> printed_all arg s \<and> pipe_bytes s = [] \<or>
          r = -1 \<and> (child_out s = ''Error: close'' \<or> (\<exists>ys. child_out s @ ys = arg) \<or>
            printed_all arg s \<and> \<not> parent_writes s))"

definition pipe_inv :: "nat \<Rightarrow> string \<Rightarrow> pipe_state \<Rightarrow> bool" where
  "pipe_inv cap arg s \<longleftrightarrow> child_ok arg s \<and>
     (stdin_open s \<longleftrightarrow> parent_at s = P_close_0) \<and>
     (parent_writes s \<longleftrightarrow> parent_at s \<noteq> P_wait \<and> (\<forall>r. parent_at s \<noteq> P_exit r)) \<and>
     (unwritten s \<noteq> [] \<longrightarrow> parent_at s = P_exit (-1)) \<and>
     (child_writes s \<longleftrightarrow> child_at s = C_close) \<and> length (pipe_bytes s) \<le> cap \<and>
     (\<forall>r. parent_at s = P_exit r \<longrightarrow> r = -1 \<or> r = 0 \<and> (\<exists>r'. child_at s = C_exit r')) \<and>
     (child_at s \<in> {C_newline, C_close_read, C_exit 0} \<longrightarrow> \<not> parent_writes s)"

lemma pipe_inv_init: "pipe_inv cap arg (pipe_init arg)"
  by (simp add: pipe_inv_def child_ok_def pipe_init_def unsent_def)

lemmas pipe_defs = pipe_inv_def child_ok_def unsent_def printed_all_def line_end_def

lemma parent_step_inv: "pipe_inv cap arg s \<Longrightarrow> pred_option (pipe_inv cap arg) (parent_step cap arg n s)"
  by (cases "parent_at s"; cases "child_at s") (auto simp: parent_step_def pipe_defs)

lemma parent_fails_inv: "pipe_inv cap arg s \<Longrightarrow> pred_option (pipe_inv cap arg) (parent_fails cap arg n s)"
  by (cases "parent_at s"; cases "child_at s") (auto simp: parent_fails_def pipe_defs)

lemma child_step_inv: "pipe_inv cap arg s \<Longrightarrow> pred_option (pipe_inv cap arg) (child_step n s)"
  by (cases "child_at s"; cases "parent_at s") (auto simp: child_step_def pipe_defs)

lemma take_more: "\<exists>ys. take n xs @ ys = xs @ zs"
  by (rule exI [of _ "drop n xs @ zs"]) simp

lemma child_fails_inv: "pipe_inv cap arg s \<Longrightarrow> pred_option (pipe_inv cap arg) (child_fails n s)"
  by (cases "child_at s"; cases "parent_at s")
    (auto simp: child_fails_def pipe_defs take_more intro: exI [of _ "[]"])

lemma pipe_step_inv: "pipe_inv cap arg s \<Longrightarrow> pipe_step cap arg a s = Some s' \<Longrightarrow> pipe_inv cap arg s'"
  using parent_step_inv [of cap arg s] child_step_inv [of cap arg s] child_fails_inv [of cap arg s] parent_fails_inv [of cap arg s]
  by (cases a) (metis pipe_step.simps option.pred_inject(2))+

lemma pipe_run_inv: "pipe_inv cap arg s \<Longrightarrow> pipe_run cap arg as s = Some s' \<Longrightarrow> pipe_inv cap arg s'"
  by (induction as arbitrary: s) (auto split: option.splits dest: pipe_step_inv)

text \<open>The calls that are left at most: three for each byte still to be sent, two for each byte in the pipe.\<close>

fun parent_rank :: "string \<Rightarrow> parent_pc \<Rightarrow> nat" where
  "parent_rank arg P_close_0 = 4 + 3 * length arg" | "parent_rank arg (P_write rest) = 3 + 3 * length rest"
| "parent_rank arg P_close = 2" | "parent_rank arg P_wait = 1" | "parent_rank arg (P_exit r) = 0"

fun child_rank :: "child_pc \<Rightarrow> nat" where
  "child_rank C_close = 5" | "child_rank (C_write cs) = 4" | "child_rank C_read = 3" | "child_rank C_newline = 2"
| "child_rank C_close_read = 1" | "child_rank (C_exit r) = 0"

definition pipe_rank :: "string \<Rightarrow> pipe_state \<Rightarrow> nat" where
  "pipe_rank arg s = parent_rank arg (parent_at s) + child_rank (child_at s) + 2 * length (pipe_bytes s)"

lemma parent_step_rank: "parent_step cap arg n s = Some s' \<Longrightarrow> pipe_rank arg s' < pipe_rank arg s"
  by (auto simp: parent_step_def pipe_rank_def min_def split: parent_pc.splits child_pc.splits if_splits)

lemma child_step_rank: "child_step n s = Some s' \<Longrightarrow> pipe_rank arg s' < pipe_rank arg s"
  by (auto simp: child_step_def pipe_rank_def split: child_pc.splits if_splits)

lemma child_fails_rank: "child_fails n s = Some s' \<Longrightarrow> pipe_rank arg s' < pipe_rank arg s"
  by (auto simp: child_fails_def pipe_rank_def split: child_pc.splits if_splits)

lemma parent_fails_rank: "parent_fails cap arg n s = Some s' \<Longrightarrow> pipe_rank arg s' < pipe_rank arg s"
  by (auto simp: parent_fails_def pipe_rank_def min_def split: parent_pc.splits child_pc.splits if_splits)

lemma pipe_run_rank: "pipe_run cap arg as s = Some s' \<Longrightarrow> length as + pipe_rank arg s' \<le> pipe_rank arg s"
proof (induction as arbitrary: s)
  case (Cons a as)
  from Cons.prems obtain s1 where s1: "pipe_step cap arg a s = Some s1" "pipe_run cap arg as s1 = Some s'"
    by (auto split: option.splits)
  then have "pipe_rank arg s1 < pipe_rank arg s"
    by (cases a) (auto dest: parent_step_rank child_step_rank child_fails_rank parent_fails_rank)
  with Cons.IH [OF s1(2)] show ?case by simp
qed simp

text \<open>As long as the child has not failed, one of the processes can go on.\<close>

lemma pipe_progress:
  assumes inv: "pipe_inv cap arg s" "0 < cap" and s: "\<forall>r. parent_at s \<noteq> P_exit r" "child_at s \<noteq> C_exit (-1)"
  shows "parent_step cap arg 1 s \<noteq> None \<or> child_step 1 s \<noteq> None"
proof (cases "child_step 1 s = None")
  case True
  then consider "child_at s = C_read" "pipe_bytes s = []" "parent_writes s" | "child_at s = C_exit 0"
    using inv s(2) by (cases "child_at s") (auto simp: child_step_def pipe_inv_def child_ok_def BUF_SIZE_def Suc_le_eq split: if_splits)
  then show ?thesis
    by cases (use inv s(1) in \<open>cases "parent_at s"; auto simp: parent_step_def pipe_inv_def Suc_le_eq\<close>)+
qed simp

text \<open>When no call of the child fails, it ends with the line end; the parent gives up only when a call of it fails.\<close>

lemma no_failure_run:
  assumes "pipe_run cap arg as s = Some s'"
  shows "\<forall>n. Child_fails n \<notin> set as \<Longrightarrow> child_at s \<in> {C_close_read, C_exit 0} \<longrightarrow> line_ended s \<Longrightarrow> child_at s \<noteq> C_exit (-1) \<Longrightarrow>
      (child_at s' \<in> {C_close_read, C_exit 0} \<longrightarrow> line_ended s') \<and> child_at s' \<noteq> C_exit (-1)"
    and "\<forall>n. Parent_fails n \<notin> set as \<Longrightarrow> pipe_inv cap arg s \<Longrightarrow> parent_at s \<noteq> P_exit (-1) \<Longrightarrow> parent_at s' \<noteq> P_exit (-1)"
  using assms
proof (induction as arbitrary: s)
  case (Cons a as)
  {
    case 1
    then obtain s1 where s1: "pipe_step cap arg a s = Some s1" "pipe_run cap arg as s1 = Some s'" by (auto split: option.splits)
    have "(child_at s1 \<in> {C_close_read, C_exit 0} \<longrightarrow> line_ended s1) \<and> child_at s1 \<noteq> C_exit (-1)"
      using 1 s1(1)
      by (cases a) (auto simp: parent_step_def child_step_def parent_fails_def split: parent_pc.splits child_pc.splits if_splits)
    with Cons.IH(1) [of s1] 1(1) s1(2) show ?case by auto
  next
    case 2
    then obtain s1 where s1: "pipe_step cap arg a s = Some s1" "pipe_run cap arg as s1 = Some s'" by (auto split: option.splits)
    have "parent_at s1 \<noteq> P_exit (-1)"
      using 2 s1(1)
      by (cases a) (auto simp: parent_step_def child_step_def child_fails_def pipe_inv_def split: parent_pc.splits child_pc.splits if_splits)
    with Cons.IH(2) [of s1] 2(1) s1 pipe_step_inv [OF 2(2) s1(1)] show ?case by auto
  }
qed auto

section \<open>Properties\<close>

text \<open>
  C40: Through a pipe of any capacity and under every schedule, with reads and writes of any sizes of which any may fail, a
  child that ends with code 0 has printed the argument of the parent but for the bytes that were not written when the
  parent gave up, and then the line end or nothing (the result of writing it is ignored).  When no call fails it has
  printed exactly the argument and a line end.  A child that ends with -1 has printed its message, a beginning of the
  argument, or, when only its last close failed, the same as one that ends with 0.  Every run is finite; and unless the child
  fails some process can go on until the parent has returned.
\<close>

theorem pipe_sends_argument:
  assumes "pipe_run cap arg as (pipe_init arg) = Some s" "0 < cap"
  shows "(child_at s = C_exit 0 \<longrightarrow> (\<exists>xs. xs @ unwritten s = arg \<and> child_out s = xs @ (if line_ended s then newline else []))) \<and>
    (unwritten s \<noteq> [] \<longrightarrow> parent_at s = P_exit (-1)) \<and>
    ((\<forall>n. Parent_fails n \<notin> set as \<and> Child_fails n \<notin> set as) \<longrightarrow>
       child_at s \<noteq> C_exit (-1) \<and> parent_at s \<noteq> P_exit (-1) \<and> (child_at s = C_exit 0 \<longrightarrow> child_out s = arg @ newline)) \<and>
    (child_at s = C_exit (-1) \<longrightarrow> child_out s = ''Error: close'' \<or> (\<exists>ys. child_out s @ ys = arg) \<or>
       (\<exists>xs. xs @ unwritten s = arg \<and> child_out s = xs @ (if line_ended s then newline else []))) \<and>
    length as \<le> 3 * length arg + 9 \<and>
    (child_at s \<noteq> C_exit (-1) \<longrightarrow> (\<forall>r. parent_at s \<noteq> P_exit r) \<longrightarrow>
       pipe_step cap arg (Parent 1) s \<noteq> None \<or> pipe_step cap arg (Child 1) s \<noteq> None)"
proof -
  have inv: "pipe_inv cap arg s" by (rule pipe_run_inv [OF pipe_inv_init assms(1)])
  then have child: "child_ok arg s" and un: "unwritten s \<noteq> [] \<longrightarrow> parent_at s = P_exit (-1)" by (simp_all add: pipe_inv_def)
  have out: "child_at s = C_exit 0 \<Longrightarrow> \<exists>xs. xs @ unwritten s = arg \<and> child_out s = xs @ (if line_ended s then newline else [])"
    using child by (simp add: child_ok_def printed_all_def line_end_def)
  have bad: "child_at s = C_exit (-1) \<Longrightarrow> child_out s = ''Error: close'' \<or> (\<exists>ys. child_out s @ ys = arg) \<or>
       (\<exists>xs. xs @ unwritten s = arg \<and> child_out s = xs @ (if line_ended s then newline else []))"
    using child by (auto simp: child_ok_def printed_all_def line_end_def)
  have len: "length as \<le> 3 * length arg + 9"
    using pipe_run_rank [OF assms(1)] by (simp add: pipe_rank_def pipe_init_def)
  have no: "child_at s \<noteq> C_exit (-1) \<and> parent_at s \<noteq> P_exit (-1) \<and> (child_at s = C_exit 0 \<longrightarrow> child_out s = arg @ newline)"
    if "\<forall>n. Parent_fails n \<notin> set as \<and> Child_fails n \<notin> set as"
  proof -
    have p: "parent_at s \<noteq> P_exit (-1)"
      using no_failure_run(2) [OF assms(1) _ pipe_inv_init] that by (simp add: pipe_init_def)
    moreover have "(child_at s = C_exit 0 \<longrightarrow> line_ended s) \<and> child_at s \<noteq> C_exit (-1)"
      using no_failure_run(1) [OF assms(1)] that by (simp add: pipe_init_def)
    ultimately show ?thesis using out un by auto
  qed
  show ?thesis using out un bad len no pipe_progress [OF inv assms(2)] by (intro conjI impI) auto
qed

theorem pipe_sends_argument_witness:
  "\<exists>s. pipe_run 4 ''hello'' [Parent 0, Child 0, Parent 4, Child 3, Parent 1, Child 0, Parent 0, Parent 0, Child 2, Child 0,
      Child 0, Child 0, Child 0] (pipe_init ''hello'') = Some s \<and> child_out s = ''hello'' @ newline"
proof -
  let ?as = "[Parent 0, Child 0, Parent 4, Child 3, Parent 1, Child 0, Parent 0, Parent 0, Child 2, Child 0,
      Child 0, Child 0, Child 0]"
  have "map_option child_at (pipe_run 4 ''hello'' ?as (pipe_init ''hello'')) = Some (C_exit 0)" by code_simp
  then obtain s where s: "pipe_run 4 ''hello'' ?as (pipe_init ''hello'') = Some s" "child_at s = C_exit 0" by auto
  from pipe_sends_argument [OF s(1)] s show ?thesis by (intro exI [of _ s]) simp
qed

text \<open>The child ignores that it cannot write the line end: it ends with code 0 and has printed none.\<close>

lemma line_end_lost:
  "map_option (\<lambda>s. (child_at s, child_out s)) (pipe_run 4 ''hi'' [Parent 0, Parent 2, Parent 0, Parent 0, Child 0, Child 2, Child 0,
     Child 0, Child_fails 0, Child 0] (pipe_init ''hi'')) = Some (C_exit 0, ''hi'')"
  by code_simp

text \<open>
  The parent means to close its read end and closes its standard input.  It is then itself a reader of the pipe, so that a
  child that fails does not make its write fail: with an argument that is longer than the pipe it waits for ever.
\<close>

lemma parent_never_returns:
  assumes "cap < length arg" "0 < cap"
  shows "\<exists>s. pipe_run cap arg [Parent 0, Parent cap, Child 0, Child_fails 0] (pipe_init arg) = Some s \<and> \<not> stdin_open s \<and>
    parent_at s = P_write (drop cap arg) \<and>
    (\<forall>n. pipe_step cap arg (Parent n) s = None \<and> pipe_step cap arg (Child n) s = None \<and> pipe_step cap arg (Child_fails n) s = None)"
proof -
  let ?s = "(pipe_init arg)\<lparr>stdin_open := False, child_writes := False, pipe_bytes := take cap arg,
    parent_at := P_write (drop cap arg), child_at := C_exit (-1)\<rparr>"
  have "arg \<noteq> []" using assms by auto
  then have "pipe_run cap arg [Parent 0, Parent cap, Child 0, Child_fails 0] (pipe_init arg) = Some ?s"
    using assms by (simp add: parent_step_def child_step_def child_fails_def pipe_init_def)
  moreover have "pipe_step cap arg (Parent n) ?s = None" "pipe_step cap arg (Child n) ?s = None"
    "pipe_step cap arg (Child_fails n) ?s = None" for n
    using assms by (auto simp: parent_step_def child_step_def child_fails_def)
  ultimately show ?thesis by auto
qed

end
