(* ===== verification/Socket_Examples.thy ===== *)
theory Socket_Examples
  imports Pipe_Examples
begin

text \<open>
  The examples of src/materials/04-network-blocking/examples: a server that greets every client (server.c), a client that
  prints what it is sent (client.c) and a server that prints what its clients send (server2.c), with a process for each of
  them.  No program looks at the answers of its set-up; the calls are recorded in order.
\<close>

abbreviation nul_char :: char where
  "nul_char \<equiv> CHR 0x00"

text \<open>Printing a zeroed buffer of \<open>n\<close> bytes after \<open>cs\<close> was read into it, as a C string.\<close>

definition print_buffer :: "nat \<Rightarrow> string \<Rightarrow> ub + string" where
  "print_buffer n cs =
     (let buf = cs @ replicate (n - length cs) nul_char
      in if n < length cs \<or> nul_char \<notin> set buf then Inl Index_out_of_range else Inr (takeWhile (\<lambda>c. c \<noteq> nul_char) buf))"

section \<open>Greeting server and client\<close>

datatype sock_call = Sc_socket | Sc_setsockopt | Sc_bind nat | Sc_listen nat | Sc_connect string nat | Sc_accept | Sc_fork
  | Sc_write int string | Sc_shutdown int | Sc_close int

definition set_up :: "sock_call list" where
  "set_up = [Sc_socket, Sc_setsockopt, Sc_bind 1234, Sc_listen 10]"

definition greeting :: string where
  "greeting = ''HELLO!'' @ [CHR 0x0D, CHR 0x0A]"

text \<open>The body of the loop for the answer of \<open>accept\<close>, which is not checked; \<open>strlen(str)+1\<close> bytes are written.\<close>

definition greet :: "int \<Rightarrow> sock_call list" where
  "greet SlaveSock = [Sc_accept, Sc_write SlaveSock (greeting @ [nul_char]), Sc_shutdown SlaveSock, Sc_close SlaveSock]"

text \<open>The calls up to the answers of \<open>accept\<close> in the list.\<close>

definition server_main :: "int list \<Rightarrow> sock_call list" where
  "server_main answers = set_up @ concat (map greet answers)"

text \<open>The client connects and reads once, at most 100 bytes; it does not look at any result.\<close>

definition client_connect :: "sock_call list" where
  "client_connect = [Sc_socket, Sc_connect ''127.0.0.1'' 1234]"

definition client_print :: "io_read \<Rightarrow> ub + string" where
  "client_print r =
     (case r of Read_bytes cs \<Rightarrow> print_buffer 100 cs | Read_end \<Rightarrow> print_buffer 100 [] | Read_error \<Rightarrow> print_buffer 100 [])"

definition client_main :: "io_read \<Rightarrow> sock_call list \<times> (ub + string)" where
  "client_main r = (client_connect, client_print r)"

lemma takeWhile_text: "nul_char \<notin> set cs \<Longrightarrow> takeWhile (\<lambda>c. c \<noteq> nul_char) (cs @ nul_char # zs) = cs"
  by (induction cs) auto

lemma print_text:
  assumes "nul_char \<notin> set cs" "length cs < n"
  shows "print_buffer n cs = Inr cs" "print_buffer n (cs @ [nul_char]) = Inr cs"
proof -
  obtain k where k: "n - length cs = Suc k" using assms(2) by (cases "n - length cs") auto
  then show "print_buffer n cs = Inr cs" using assms by (simp add: print_buffer_def takeWhile_text)
  show "print_buffer n (cs @ [nul_char]) = Inr cs" using assms by (simp add: print_buffer_def takeWhile_text)
qed

text \<open>A client of the server prints the greeting, or the part of it that has arrived.\<close>

lemma client_prints_greeting:
  assumes "Sc_write fd bytes \<in> set (server_main answers)"
  shows "snd (client_main (Read_bytes (take n bytes))) = Inr (take n greeting)"
proof -
  have b: "bytes = greeting @ [nul_char]" using assms by (auto simp: server_main_def set_up_def greet_def split: if_splits)
  have g: "nul_char \<notin> set greeting" "length greeting = 8" by (simp_all add: greeting_def)
  then have t: "nul_char \<notin> set (take n greeting)" "length (take n greeting) < 100" by (auto dest: in_set_takeD)
  show ?thesis
  proof (cases "n \<le> 8")
    case True
    then show ?thesis using print_text(1) [OF t] g by (simp add: client_main_def client_print_def b)
  next
    case False
    then show ?thesis using print_text(2) [OF t] g by (simp add: client_main_def client_print_def b)
  qed
qed

section \<open>Printing server\<close>

text \<open>The parent: whatever \<open>accept\<close> and \<open>fork\<close> answer, it closes the socket and goes on.\<close>

definition server2_main :: "int list \<Rightarrow> sock_call list" where
  "server2_main answers = set_up @ concat (map (\<lambda>SlaveSock. [Sc_accept, Sc_fork, Sc_close SlaveSock]) answers)"

text \<open>
  The loop of the child: \<open>rd i\<close> is what the read number \<open>i\<close> gives, the value is all that was printed on the standard
  output.  The buffer has 100 bytes, and up to 1024 are read into it.
\<close>

partial_function (option) print_loop :: "(nat \<Rightarrow> io_read) \<Rightarrow> nat \<Rightarrow> string \<Rightarrow> (ub + string) option" where
  "print_loop rd i out =
     (case rd i of
        Read_error \<Rightarrow> Some (Inr out)
      | Read_end \<Rightarrow> Some (Inr (out @ ''client disconnected'' @ newline))
      | Read_bytes cs \<Rightarrow>
          (case print_buffer 100 cs of
             Inl u \<Rightarrow> Some (Inl u)
           | Inr text \<Rightarrow> print_loop rd (Suc i) (out @ ''-->'' @ text @ newline)))"

text \<open>The child closes the listening socket and serves its client until the reads end.\<close>

definition server2_child :: "int \<Rightarrow> (nat \<Rightarrow> io_read) \<Rightarrow> sock_call list \<times> (ub + string) option" where
  "server2_child MasterSock rd = ([Sc_close MasterSock], print_loop rd 0 [])"

text \<open>A client connects to the port the servers listen on.\<close>

lemma client_finds_server: "Sc_connect host port \<in> set client_connect \<Longrightarrow> Sc_bind port \<in> set set_up"
  by (simp add: client_connect_def set_up_def)

text \<open>What a child prints of a client that sends short texts and disconnects.\<close>

lemma print_loop_texts:
  "\<forall>j < length css. rd (i + j) = Read_bytes (css ! j) \<and> nul_char \<notin> set (css ! j) \<and> length (css ! j) < 100 \<Longrightarrow>
   rd (i + length css) = Read_end \<Longrightarrow>
   print_loop rd i out = Some (Inr (out @ concat (map (\<lambda>cs. ''-->'' @ cs @ newline) css) @ ''client disconnected'' @ newline))"
proof (induction css arbitrary: i out)
  case Nil
  then show ?case by (subst print_loop.simps) simp
next
  case (Cons cs css)
  have cs: "rd i = Read_bytes cs" "nul_char \<notin> set cs" "length cs < 100" using Cons.prems(1) [rule_format, of 0] by auto
  have "print_loop rd (Suc i) (out @ ''-->'' @ cs @ newline) = Some (Inr ((out @ ''-->'' @ cs @ newline) @
      concat (map (\<lambda>cs. ''-->'' @ cs @ newline) css) @ ''client disconnected'' @ newline))"
  proof (rule Cons.IH, intro allI impI)
    fix j assume "j < length css"
    then show "rd (Suc i + j) = Read_bytes (css ! j) \<and> nul_char \<notin> set (css ! j) \<and> length (css ! j) < 100"
      using Cons.prems(1) [rule_format, of "Suc j"] by simp
  qed (use Cons.prems(2) in simp)
  then show ?case using cs by (subst print_loop.simps) (simp add: print_text(1))
qed

text \<open>A read of 100 bytes or more, of the 1024 that are asked for, leaves the buffer.\<close>

lemma print_loop_overruns:
  assumes "rd i = Read_bytes cs" "100 \<le> length cs" "nul_char \<notin> set cs"
  shows "print_loop rd i out = Some (Inl Index_out_of_range)"
  using assms by (subst print_loop.simps) (simp add: print_buffer_def)

end
