(* ===== verification/Thread_Examples.thy ===== *)
theory Thread_Examples
  imports Schedules
begin

text \<open>
  The thread programs of src/materials/03-process-threads-files/code/threads: exitstatus.c, cleanup.c, badexit.c and id.c.
  Every one is \<open>main\<close> and one or two threads, straight-line code around the calls of pthreads, so a function of the
  program is the list of its actions and \<open>pthread_step\<close> is what the calls do.  The answers of \<open>pthread_create\<close> and
  \<open>pthread_join\<close>, the addresses and the identifiers are parameters; \<open>sleep\<close> takes no action, because every schedule is
  considered.
\<close>

section \<open>Actions\<close>

text \<open>
  What a thread hands to \<open>pthread_join\<close>: a number, or the address of a variable on its own stack.
\<close>

datatype exit_value = Number int | Own_variable nat

datatype thread_fault = Return_inside_cleanup | Variable_of_ended_thread | Not_a_pointer

record foo =
  foo_a :: int
  foo_b :: int
  foo_c :: int
  foo_d :: int

datatype thread_action = Print string | Cleanup_push string | Cleanup_pop bool | Return exit_value | Exit exit_value

text \<open>\<open>Create t msg\<close> and \<open>Join t msg\<close> print \<open>msg\<close> and leave \<open>main\<close> with the answer of the call when it is not zero.\<close>

datatype main_action = Create nat string | Join nat string | Say string | Say_code string | Show_foo string | Finish int

datatype thread_state = Absent | Alive "thread_action list" "string list" | Ended exit_value

record program =
  pr_main :: "main_action list"
  pr_body :: "nat \<Rightarrow> thread_action list"

record pthreads =
  pt_main :: "main_action list"
  pt_thread :: "nat \<Rightarrow> thread_state"
  pt_tret :: "exit_value option"
  pt_out :: "string list"
  pt_code :: "int option"

record pthread_env =
  en_create :: "nat \<Rightarrow> int"
  en_join :: "nat \<Rightarrow> int"
  en_address :: "nat \<Rightarrow> nat"

definition pt_init :: "program \<Rightarrow> pthreads" where
  "pt_init p = \<lparr>pt_main = pr_main p, pt_thread = (\<lambda>_. Absent), pt_tret = None, pt_out = [], pt_code = None\<rparr>"

definition say :: "string \<Rightarrow> pthreads \<Rightarrow> pthreads" where
  "say s p = p\<lparr>pt_out := pt_out p @ [s]\<rparr>"

definition set_thread :: "nat \<Rightarrow> thread_state \<Rightarrow> pthreads \<Rightarrow> pthreads" where
  "set_thread t x p = p\<lparr>pt_thread := (pt_thread p)(t := x)\<rparr>"

abbreviation line_end :: string where
  "line_end \<equiv> [CHR 0x0A]"

definition show_int :: "int \<Rightarrow> string" where
  "show_int n = (if n < 0 then CHR ''-'' # show_nat (nat (- n)) else show_nat (nat n))"

definition hex_char :: "nat \<Rightarrow> char" where
  "hex_char d = (if d < 10 then digit_char d else char_of (87 + d))"

fun show_hex :: "nat \<Rightarrow> string" where
  "show_hex n = (if n < 16 then [hex_char n] else show_hex (n div 16) @ [hex_char (n mod 16)])"

declare show_hex.simps [simp del]

section \<open>The calls\<close>

text \<open>
  Thread \<open>t\<close>.  \<open>pthread_exit\<close> runs the handlers that are still pushed, the last one first; to leave their block with
  \<open>return\<close> is undefined.
\<close>

definition cleanup :: "string \<Rightarrow> string" where
  "cleanup arg = ''cleanup: '' @ arg @ line_end"

definition thread_step :: "nat \<Rightarrow> pthreads \<Rightarrow> (thread_fault + pthreads) option" where
  "thread_step t p =
     (case pt_thread p t of
        Alive (Print s # as) hs \<Rightarrow> Some (Inr (say s (set_thread t (Alive as hs) p)))
      | Alive (Cleanup_push s # as) hs \<Rightarrow> Some (Inr (set_thread t (Alive as (s # hs)) p))
      | Alive (Cleanup_pop ex # as) (h # hs) \<Rightarrow>
          Some (Inr ((if ex then say (cleanup h) else id) (set_thread t (Alive as hs) p)))
      | Alive (Return v # as) hs \<Rightarrow>
          Some (if hs = [] then Inr (set_thread t (Ended v) p) else Inl Return_inside_cleanup)
      | Alive (Exit v # as) [] \<Rightarrow> Some (Inr (set_thread t (Ended v) p))
      | Alive (Exit v # as) (h # hs) \<Rightarrow> Some (Inr (say (cleanup h) (set_thread t (Alive (Exit v # as) hs) p)))
      | _ \<Rightarrow> None)"

text \<open>The structure of the first thread of badexit.c and how it is printed; it ends with its thread.\<close>

definition printfoo :: "string \<Rightarrow> nat \<Rightarrow> foo \<Rightarrow> string" where
  "printfoo s fp x = s @ ''  structure at 0x'' @ show_hex fp @ line_end @
     ''  foo.a = '' @ show_int (foo_a x) @ line_end @ ''  foo.b = '' @ show_int (foo_b x) @ line_end @
     ''  foo.c = '' @ show_int (foo_c x) @ line_end @ ''  foo.d = '' @ show_int (foo_d x) @ line_end"

definition thread_foo :: foo where
  "thread_foo = \<lparr>foo_a = 1, foo_b = 2, foo_c = 3, foo_d = 4\<rparr>"

definition main_step :: "pthread_env \<Rightarrow> program \<Rightarrow> pthreads \<Rightarrow> (thread_fault + pthreads) option" where
  "main_step env prog p =
     (case pt_main p of
        [] \<Rightarrow> None
      | act # as \<Rightarrow>
          let p1 = p\<lparr>pt_main := as\<rparr>
          in case act of
               Create t msg \<Rightarrow>
                 Some (Inr (if en_create env t \<noteq> 0 then say msg (p\<lparr>pt_main := [], pt_code := Some (en_create env t)\<rparr>)
                            else set_thread t (Alive (pr_body prog t) []) p1))
             | Join t msg \<Rightarrow>
                 if en_join env t \<noteq> 0 then Some (Inr (say msg (p\<lparr>pt_main := [], pt_code := Some (en_join env t)\<rparr>)))
                 else (case pt_thread p t of Ended v \<Rightarrow> Some (Inr (p1\<lparr>pt_tret := Some v\<rparr>)) | _ \<Rightarrow> None)
             | Say s \<Rightarrow> Some (Inr (say s p1))
             | Say_code s \<Rightarrow>
                 (case pt_tret p of
                    Some (Number n) \<Rightarrow> Some (Inr (say (s @ show_int n @ line_end) p1))
                  | Some (Own_variable t) \<Rightarrow> Some (Inr (say (s @ show_nat (en_address env t) @ line_end) p1))
                  | None \<Rightarrow> Some (Inl Not_a_pointer))
             | Show_foo s \<Rightarrow>
                 (case pt_tret p of
                    Some (Own_variable t) \<Rightarrow>
                      (case pt_thread p t of
                         Alive _ _ \<Rightarrow> Some (Inr (say (printfoo s (en_address env t) thread_foo) p1))
                       | _ \<Rightarrow> Some (Inl Variable_of_ended_thread))
                  | _ \<Rightarrow> Some (Inl Not_a_pointer))
             | Finish c \<Rightarrow> Some (Inr (p\<lparr>pt_main := [], pt_code := Some c\<rparr>)))"

text \<open>The process ends when \<open>main\<close> returns.\<close>

definition pthread_step :: "pthread_env \<Rightarrow> program \<Rightarrow> nat \<Rightarrow> pthreads \<Rightarrow> (thread_fault + pthreads) option" where
  "pthread_step env prog a p =
     (if pt_code p \<noteq> None then None else if a = 0 then main_step env prog p else thread_step a p)"

section \<open>The programs\<close>

definition exitstatus_thr_fn1 :: "thread_action list" where
  "exitstatus_thr_fn1 = [Print (''thread 1 returning'' @ line_end), Return (Number 1)]"

definition exitstatus_thr_fn2 :: "thread_action list" where
  "exitstatus_thr_fn2 = [Print (''thread 2 exiting'' @ line_end), Exit (Number 2)]"

text \<open>\<open>main\<close> of exitstatus.c.\<close>

definition exitstatus_main :: "main_action list" where
  "exitstatus_main = [Create 1 ''can't create thread 1'', Create 2 ''can't create thread 2'',
     Join 1 ''can't join with thread 1'', Say_code ''thread 1 exit code '',
     Join 2 ''can't join with thread 2'', Say_code ''thread 2 exit code '', Finish 0]"

definition exitstatus :: program where
  "exitstatus = \<lparr>pr_main = exitstatus_main,
     pr_body = (\<lambda>t. if t = 1 then exitstatus_thr_fn1 else exitstatus_thr_fn2)\<rparr>"

definition cleanup_thr_fn1 :: "bool \<Rightarrow> thread_action list" where
  "cleanup_thr_fn1 arg =
     [Print (''thread 1 start'' @ line_end), Cleanup_push ''thread 1 first handler'', Cleanup_push ''thread 1 second handler'',
      Print (''thread 1 push complete'' @ line_end)] @
     (if arg then [Return (Number 1)] else [Cleanup_pop False, Cleanup_pop False, Return (Number 1)])"

definition cleanup_thr_fn2 :: "bool \<Rightarrow> thread_action list" where
  "cleanup_thr_fn2 arg =
     [Print (''thread 2 start'' @ line_end), Cleanup_push ''thread 2 first handler'', Cleanup_push ''thread 2 second handler'',
      Print (''thread 2 push complete'' @ line_end)] @
     (if arg then [Exit (Number 2)] else [Cleanup_pop False, Cleanup_pop False, Exit (Number 2)])"

text \<open>\<open>main\<close> of cleanup.c passes both threads an argument that is not null.\<close>

definition cleanup_main :: "main_action list" where
  "cleanup_main = [Create 1 ''can't create thread 1'', Create 2 ''can't create thread 2'',
     Join 1 ''can't join with thread 1'', Say_code ''thread 1 exit code '',
     Join 2 ''can't join with thread 2'', Say_code ''thread 2 exit code '', Finish 0]"

definition cleanup_program :: program where
  "cleanup_program = \<lparr>pr_main = cleanup_main,
     pr_body = (\<lambda>t. if t = 1 then cleanup_thr_fn1 True else cleanup_thr_fn2 True)\<rparr>"

definition badexit_thr_fn1 :: "nat \<Rightarrow> thread_action list" where
  "badexit_thr_fn1 foo_address =
     [Print (printfoo (''thread 1:'' @ line_end) foo_address thread_foo), Exit (Own_variable 1)]"

definition badexit_thr_fn2 :: "nat \<Rightarrow> thread_action list" where
  "badexit_thr_fn2 self = [Print (''thread 2: ID is '' @ show_nat self @ line_end), Exit (Number 0)]"

definition badexit_main :: "main_action list" where
  "badexit_main = [Create 1 ''can't create thread 1'', Join 1 ''can't join with thread 1'',
     Say (''parent starting second thread'' @ line_end), Create 2 ''can't create thread 2'',
     Show_foo (''parent:'' @ line_end), Finish 0]"

definition badexit :: "pthread_env \<Rightarrow> nat \<Rightarrow> program" where
  "badexit env self = \<lparr>pr_main = badexit_main,
     pr_body = (\<lambda>t. if t = 1 then badexit_thr_fn1 (en_address env 1) else badexit_thr_fn2 self)\<rparr>"

definition printids :: "string \<Rightarrow> nat \<Rightarrow> nat \<Rightarrow> string" where
  "printids s pid tid = s @ '' pid '' @ show_nat pid @ '' tid '' @ show_nat tid @ '' (0x'' @ show_hex tid @ '')'' @ line_end"

definition thr_fn :: "nat \<Rightarrow> nat \<Rightarrow> thread_action list" where
  "thr_fn pid tid = [Print (printids ''new thread: '' pid tid), Return (Number 0)]"

definition id_main :: "nat \<Rightarrow> nat \<Rightarrow> main_action list" where
  "id_main pid main_tid = [Create 1 ''can't create thread'', Say (printids ''main thread:'' pid main_tid), Finish 0]"

definition id_program :: "nat \<Rightarrow> nat \<Rightarrow> nat \<Rightarrow> program" where
  "id_program pid main_tid tid = \<lparr>pr_main = id_main pid main_tid, pr_body = (\<lambda>t. thr_fn pid tid)\<rparr>"

section \<open>Every schedule\<close>

definition all_well :: "(nat \<Rightarrow> nat) \<Rightarrow> pthread_env" where
  "all_well addr = \<lparr>en_create = (\<lambda>_. 0), en_join = (\<lambda>_. 0), en_address = addr\<rparr>"

text \<open>What is seen of an end: a fault, or the exit code and the output.\<close>

definition seen :: "thread_fault + pthreads \<Rightarrow> thread_fault + int option \<times> string list" where
  "seen r = (case r of Inl f \<Rightarrow> Inl f | Inr p \<Rightarrow> Inr (pt_code p, pt_out p))"

definition all_seen :: "pthread_env \<Rightarrow> program \<Rightarrow> nat \<Rightarrow> (thread_fault + int option \<times> string list) list option" where
  "all_seen env prog n = map_option (\<lambda>rs. remdups (map seen rs)) (explore (pthread_step env prog) [0, 1, 2] n (pt_init prog))"

lemma all_seen_runs:
  assumes "all_seen env prog n = Some vs" "set as \<subseteq> {0, 1, 2}" "run_schedule (pthread_step env prog) as (pt_init prog) = Some r"
  shows "length as \<le> n \<and>
    (seen r \<in> set vs \<or> (\<exists>a \<in> {0, 1, 2}. \<exists>r'. run_schedule (pthread_step env prog) (as @ [a]) (pt_init prog) = Some r'))"
proof -
  from assms(1) obtain rs where rs: "explore (pthread_step env prog) [0, 1, 2] n (pt_init prog) = Some rs"
    "vs = remdups (map seen rs)" by (auto simp: all_seen_def)
  have "set as \<subseteq> set [0, 1, 2]" using assms(2) by simp
  from explore_runs [OF rs(1) this assms(3)] not_ended_goes_on [OF assms(3), of "[0, 1, 2]"] rs(2) show ?thesis
    by (cases "ended (pthread_step env prog) [0, 1, 2] r") auto
qed

text \<open>
  exitstatus.c: under every schedule the program ends with code 0 and prints the exit codes 1 and 2 in this order, each
  after the line of its thread.
\<close>

lemma exitstatus_seen:
  "all_seen (all_well addr) exitstatus 12 = Some (map (\<lambda>out. Inr (Some 0, map (\<lambda>s. s @ line_end) out))
    [[''thread 2 exiting'', ''thread 1 returning'', ''thread 1 exit code 1'', ''thread 2 exit code 2''],
     [''thread 1 returning'', ''thread 1 exit code 1'', ''thread 2 exiting'', ''thread 2 exit code 2''],
     [''thread 1 returning'', ''thread 2 exiting'', ''thread 1 exit code 1'', ''thread 2 exit code 2'']])"
  by code_simp

lemmas exitstatus_runs = all_seen_runs [OF exitstatus_seen]

text \<open>When a thread cannot be created, \<open>main\<close> says so and returns the error; the other thread may have run or not.\<close>

lemma exitstatus_create_fails:
  assumes "en_create env 1 \<noteq> 0" "run_schedule (pthread_step env exitstatus) as (pt_init exitstatus) = Some r"
  shows "as = [] \<or> seen r = Inr (Some (en_create env 1), [''can't create thread 1''])"
proof (cases as)
  case (Cons a as')
  have "pthread_step env exitstatus a (pt_init exitstatus) =
      (if a = 0 then Some (Inr (say ''can't create thread 1'' ((pt_init exitstatus)\<lparr>pt_main := [], pt_code := Some (en_create env 1)\<rparr>)))
       else None)"
    using assms(1) by (simp add: pthread_step_def pt_init_def main_step_def thread_step_def exitstatus_def exitstatus_main_def)
  moreover have "pthread_step env exitstatus b p = None" if "pt_code p \<noteq> None" for b p
    using that by (simp add: pthread_step_def)
  ultimately show ?thesis
    using assms(2) Cons by (cases as') (auto simp: say_def seen_def pt_init_def split: if_splits)
qed simp

text \<open>
  badexit.c: under every schedule \<open>main\<close> reads the structure of the first thread, which has ended.
\<close>

lemma badexit_seen:
  "all_seen (all_well addr) (badexit (all_well addr) self) 12 = Some [Inl Variable_of_ended_thread]"
  by code_simp

lemmas badexit_runs = all_seen_runs [OF badexit_seen]

text \<open>id.c: nobody waits for the new thread but for a second, so its line comes before the other one, after it or not at all.\<close>

lemma id_lines:
  "\<exists>r. run_schedule (pthread_step (all_well addr) (id_program pid mtid tid)) [0, 0, 0] (pt_init (id_program pid mtid tid)) = Some r \<and>
     seen r = Inr (Some 0, [printids ''main thread:'' pid mtid])"
  "\<exists>r. run_schedule (pthread_step (all_well addr) (id_program pid mtid tid)) [0, 0, 1, 0] (pt_init (id_program pid mtid tid)) = Some r \<and>
     seen r = Inr (Some 0, [printids ''main thread:'' pid mtid, printids ''new thread: '' pid tid])"
  "\<exists>r. run_schedule (pthread_step (all_well addr) (id_program pid mtid tid)) [0, 1, 0, 0] (pt_init (id_program pid mtid tid)) = Some r \<and>
     seen r = Inr (Some 0, [printids ''new thread: '' pid tid, printids ''main thread:'' pid mtid])"
  by (simp_all add: pthread_step_def main_step_def thread_step_def pt_init_def id_program_def id_main_def thr_fn_def all_well_def
      say_def set_thread_def seen_def)

text \<open>
  cleanup.c: the first thread leaves the block of its handlers with \<open>return\<close>, because its argument is not null.  No run
  comes past that: the thread never ends, so \<open>main\<close> waits for it.
\<close>

definition cleanup_inv :: "pthreads \<Rightarrow> bool" where
  "cleanup_inv p \<longleftrightarrow> pt_code p = None \<and>
     (pt_main p = cleanup_main \<and> pt_thread p 1 = Absent \<or>
      pt_main p \<in> {tl cleanup_main, drop 2 cleanup_main} \<and>
      (\<exists>i < 5. pt_thread p 1 = Alive (drop i (cleanup_thr_fn1 True))
         (drop (3 - i) [''thread 1 second handler'', ''thread 1 first handler''])))"

lemma thread_step_frame:
  assumes "thread_step t p = Some (Inr p')"
  shows "pt_main p' = pt_main p \<and> pt_code p' = pt_code p \<and> (\<forall>t'. t' \<noteq> t \<longrightarrow> pt_thread p' t' = pt_thread p t')"
  using assms by (auto simp: thread_step_def say_def set_thread_def split: thread_state.splits list.splits thread_action.splits if_splits)

lemma thread_step_fault: "thread_step t p = Some (Inl f) \<Longrightarrow> f = Return_inside_cleanup"
  by (auto simp: thread_step_def split: thread_state.splits list.splits thread_action.splits if_splits)

lemma cleanup_thread1:
  assumes "cleanup_inv p" "thread_step 1 p = Some (Inr p')"
  shows "cleanup_inv p'"
proof -
  from assms obtain i where i: "i < 5" "pt_thread p 1 = Alive (drop i (cleanup_thr_fn1 True))
      (drop (3 - i) [''thread 1 second handler'', ''thread 1 first handler''])"
    by (auto simp: cleanup_inv_def thread_step_def)
  have "i < 4" "pt_thread p' 1 = Alive (drop (Suc i) (cleanup_thr_fn1 True))
      (drop (3 - Suc i) [''thread 1 second handler'', ''thread 1 first handler''])"
    using assms(2) i by (auto simp: thread_step_def less_Suc_eq numeral_eq_Suc cleanup_thr_fn1_def say_def set_thread_def)
  then show ?thesis
    using assms(1) i(2) thread_step_frame [OF assms(2)] by (auto simp: cleanup_inv_def intro!: exI [of _ "Suc i"])
qed

lemma cleanup_main_keeps:
  assumes "cleanup_inv p" "main_step (all_well addr) cleanup_program p = Some r"
  shows "\<exists>p'. r = Inr p' \<and> cleanup_inv p'"
proof -
  consider "pt_main p = cleanup_main" | "pt_main p = tl cleanup_main" | "pt_main p = drop 2 cleanup_main"
    using assms(1) by (auto simp: cleanup_inv_def)
  then show ?thesis
  proof cases
    case 1
    then have "r = Inr (set_thread 1 (Alive (cleanup_thr_fn1 True) []) (p\<lparr>pt_main := tl cleanup_main\<rparr>))"
      using assms(2) by (simp add: main_step_def cleanup_main_def all_well_def cleanup_program_def)
    then show ?thesis using assms(1) by (auto simp: cleanup_inv_def set_thread_def intro!: exI [of _ 0])
  next
    case 2
    then have "r = Inr (set_thread 2 (Alive (cleanup_thr_fn2 True) []) (p\<lparr>pt_main := drop 2 cleanup_main\<rparr>))"
      using assms(2) by (simp add: main_step_def cleanup_main_def all_well_def cleanup_program_def)
    then show ?thesis using assms(1) 2 by (auto simp: cleanup_inv_def set_thread_def cleanup_main_def)
  next
    case 3
    with assms show ?thesis by (auto simp: main_step_def cleanup_inv_def cleanup_main_def all_well_def)
  qed
qed

theorem cleanup_only_fault:
  "cleanup_inv p \<Longrightarrow> run_schedule (pthread_step (all_well addr) cleanup_program) as p = Some r \<Longrightarrow>
   r = Inl Return_inside_cleanup \<or> (\<exists>p'. r = Inr p' \<and> pt_code p' = None \<and>
     (\<exists>a \<in> {0, 1}. pthread_step (all_well addr) cleanup_program a p' \<noteq> None))"
proof (induction as arbitrary: p)
  case Nil
  have "pthread_step (all_well addr) cleanup_program 0 p \<noteq> None" if "pt_main p = cleanup_main"
    using that Nil.prems(1) by (simp add: cleanup_inv_def pthread_step_def main_step_def cleanup_main_def)
  moreover have "pthread_step (all_well addr) cleanup_program 1 p \<noteq> None" if "pt_main p \<noteq> cleanup_main"
    using that Nil.prems(1)
    by (auto simp: cleanup_inv_def pthread_step_def thread_step_def less_Suc_eq numeral_eq_Suc cleanup_thr_fn1_def)
  ultimately show ?case using Nil.prems by (auto simp: cleanup_inv_def)
next
  case (Cons a as)
  then obtain r1 where r1: "pthread_step (all_well addr) cleanup_program a p = Some r1" by (auto split: option.splits)
  show ?case
  proof (cases r1)
    case (Inl f)
    then have "f = Return_inside_cleanup"
      using r1 cleanup_main_keeps [OF Cons.prems(1)] thread_step_fault by (auto simp: pthread_step_def split: if_splits)
    then show ?thesis using Cons.prems(2) r1 Inl by (auto split: if_splits)
  next
    case (Inr p1)
    have "cleanup_inv p1"
    proof (cases "a = 0 \<or> a = 1")
      case True
      then show ?thesis
        using r1 Inr cleanup_main_keeps [OF Cons.prems(1)] cleanup_thread1 [OF Cons.prems(1)]
        by (auto simp: pthread_step_def split: if_splits)
    next
      case False
      then show ?thesis
        using r1 Inr thread_step_frame [of a p p1] Cons.prems(1) by (auto simp: pthread_step_def cleanup_inv_def split: if_splits)
    qed
    then show ?thesis using Cons r1 Inr by simp
  qed
qed

lemma cleanup_inv_init: "cleanup_inv (pt_init cleanup_program)"
  by (simp add: cleanup_inv_def pt_init_def cleanup_program_def)

text \<open>The second thread leaves its block with \<open>pthread_exit\<close>: its handlers run, the last one first.\<close>

lemma cleanup_thread2_alone:
  "\<exists>p'. run_schedule (pthread_step env prog) [2, 2, 2, 2, 2, 2, 2] (p\<lparr>pt_code := None, pt_thread := (pt_thread p)(2 := Alive (cleanup_thr_fn2 True) [])\<rparr>)
      = Some (Inr p') \<and> pt_thread p' 2 = Ended (Number 2) \<and>
    pt_out p' = pt_out p @ map (\<lambda>s. s @ line_end) [''thread 2 start'', ''thread 2 push complete'',
      ''cleanup: thread 2 second handler'', ''cleanup: thread 2 first handler'']"
  by (simp add: pthread_step_def thread_step_def cleanup_thr_fn2_def say_def set_thread_def cleanup_def)

end
