(* ===== verification/Process_Examples.thy ===== *)
theory Process_Examples
  imports Thread_Examples
begin

text \<open>
  The process and file programs of the course: flags.c and ls.c (src/materials/03-process-threads-files/code/fileio) and
  pipe_ls_wc.c (src/materials/08-pipes/examples).  The answers of the system are arguments; the value of a program is its
  exit code with what it printed, or the descriptors of the process when it becomes another program.
\<close>

unbundle bit_operations_syntax

section \<open>flags\<close>

text \<open>\<open>atoi\<close> of the C library: white space, a sign, digits; a number that is no \<open>int\<close> is undefined.\<close>

definition is_space :: "char \<Rightarrow> bool" where
  "is_space c \<longleftrightarrow> c = CHR '' '' \<or> of_char c \<in> {9 .. 13 :: nat}"

definition decimal :: "string \<Rightarrow> int" where
  "decimal ds = foldl (\<lambda>n c. 10 * n + (of_char c - 48)) 0 ds"

definition atoi :: "string \<Rightarrow> ub + int" where
  "atoi s =
     (let t = dropWhile is_space s;
          (neg, u) = (case t of c # cs \<Rightarrow> if c = CHR ''-'' then (True, cs) else if c = CHR ''+'' then (False, cs) else (False, t)
                      | [] \<Rightarrow> (False, t));
          n = decimal (takeWhile (\<lambda>c. of_char c \<in> {48 .. 57 :: nat}) u);
          v = (if neg then - n else n)
      in if in_int v then Inr v else Inl Signed_overflow)"

text \<open>The constants of fcntl.h on Linux.\<close>

definition O_ACCMODE :: u32 where "O_ACCMODE = 3"
definition O_RDONLY :: u32 where "O_RDONLY = 0"
definition O_WRONLY :: u32 where "O_WRONLY = 1"
definition O_RDWR :: u32 where "O_RDWR = 2"
definition O_APPEND :: u32 where "O_APPEND = 0x400"
definition O_NONBLOCK_flag :: u32 where "O_NONBLOCK_flag = 0x800"
definition O_DSYNC :: u32 where "O_DSYNC = 0x1000"
definition O_SYNC :: u32 where "O_SYNC = 0x101000"

lemmas O_defs = O_ACCMODE_def O_RDONLY_def O_WRONLY_def O_RDWR_def O_APPEND_def O_NONBLOCK_flag_def O_DSYNC_def O_SYNC_def

definition flags_text :: "u32 \<Rightarrow> int \<times> string" where
  "flags_text val =
     (let mode = val AND O_ACCMODE
      in if mode \<noteq> O_RDONLY \<and> mode \<noteq> O_WRONLY \<and> mode \<noteq> O_RDWR then (1, ''unknown access mode'')
         else (0, (if mode = O_RDONLY then ''read only'' else if mode = O_WRONLY then ''write only'' else ''read write'') @
                  (if val AND O_APPEND \<noteq> 0 then '', append'' else []) @
                  (if val AND O_NONBLOCK_flag \<noteq> 0 then '', nonblocking'' else []) @
                  (if val AND O_SYNC \<noteq> 0 then '', synchronous writes'' else []) @ line_end))"

text \<open>\<open>getfl fd\<close> is the answer of \<open>fcntl(fd, F_GETFL, 0)\<close>.\<close>

definition flags_main :: "(int \<Rightarrow> int) \<Rightarrow> string list \<Rightarrow> ub + int \<times> string" where
  "flags_main getfl argv =
     (if length argv \<noteq> 2 then Inr (1, ''usage: a.out <descriptor#>'' @ line_end)
      else res_bind (atoi (argv ! 1)) (\<lambda>fd.
        if getfl fd < 0 then Inr (1, ''fcntl error for fd '' @ show_int fd @ line_end)
        else Inr (flags_text (word_of_int (getfl fd)))))"

section \<open>ls\<close>

text \<open>\<open>dir name\<close> is what \<open>readdir\<close> gives of a directory, in order, or \<open>None\<close> when it cannot be opened.\<close>

definition ls_main :: "(string \<Rightarrow> string list option) \<Rightarrow> string list \<Rightarrow> int \<times> string" where
  "ls_main dir argv =
     (if length argv \<noteq> 2 then (1, ''usage: ls directory_name'')
      else case dir (argv ! 1) of
             None \<Rightarrow> (2, ''can'' @ [CHR 0xE2, CHR 0x80, CHR 0x99] @ ''t open '' @ argv ! 1)
           | Some names \<Rightarrow> (0, concat (map (\<lambda>n. n @ line_end) names)))"

section \<open>ls | wc -l\<close>

datatype open_file = Pipe_out | Pipe_in | Other_file nat

type_synonym fd_table = "int \<rightharpoonup> open_file"

datatype process_fault = Pfd_not_initialised | Pfd_out_of_range

text \<open>How a process ends: \<open>main\<close> returns, or \<open>execlp\<close> starts another program, with the descriptors it then has.\<close>

datatype process_end = Main_returned int fd_table | Became "string list" fd_table

definition dup2 :: "int \<Rightarrow> int \<Rightarrow> fd_table \<Rightarrow> fd_table" where
  "dup2 oldfd newfd tab = (case tab oldfd of None \<Rightarrow> tab | Some f \<Rightarrow> tab(newfd \<mapsto> f))"

definition close_fd :: "int \<Rightarrow> fd_table \<Rightarrow> fd_table" where
  "close_fd fd tab = tab(fd := None)"

text \<open>The first child, with \<open>pfd\<close> as the array it is: it has two elements, and \<open>pfd[2]\<close> is read.\<close>

definition ls_child :: "int list \<Rightarrow> fd_table \<Rightarrow> process_fault + fd_table" where
  "ls_child pfd tab =
     (let tab1 = close_fd (pfd ! 0) tab
      in if pfd ! 1 \<noteq> 1 then
           (let tab2 = dup2 (pfd ! 1) 1 tab1
            in if 2 < length pfd then Inr (close_fd (pfd ! 2) tab2) else Inl Pfd_out_of_range)
         else Inr tab1)"

definition wc_child :: "int \<Rightarrow> int \<Rightarrow> fd_table \<Rightarrow> fd_table" where
  "wc_child pfd0 pfd1 tab =
     (let tab1 = close_fd pfd1 tab
      in if pfd0 \<noteq> 0 then close_fd pfd0 (dup2 pfd0 0 tab1) else tab1)"

text \<open>The end of \<open>main\<close>, and its second \<open>switch\<close>; \<open>execlp\<close> returns when it fails.\<close>

definition close_and_wait :: "int \<Rightarrow> int \<Rightarrow> fd_table \<Rightarrow> process_end" where
  "close_and_wait pfd0 pfd1 tab = Main_returned 0 (close_fd pfd1 (close_fd pfd0 tab))"

definition second_fork :: "int \<Rightarrow> bool \<Rightarrow> int \<Rightarrow> int \<Rightarrow> fd_table \<Rightarrow> process_end" where
  "second_fork pid exec_ok pfd0 pfd1 tab =
     (if pid = - 1 then Main_returned (- 1) tab
      else if pid = 0 then
        (let tab1 = wc_child pfd0 pfd1 tab
         in if exec_ok then Became [''wc'', ''-l''] tab1 else close_and_wait pfd0 pfd1 tab1)
      else close_and_wait pfd0 pfd1 tab)"

text \<open>
  The process that gets the answers \<open>pid1\<close> and \<open>pid2\<close> of the two calls of \<open>fork\<close>; \<open>pfd\<close> is what \<open>pipe\<close> gave, whose result
  is not looked at.
\<close>

definition pipe_main ::
  "(int \<times> int) option \<Rightarrow> int \<Rightarrow> bool \<Rightarrow> int \<Rightarrow> bool \<Rightarrow> fd_table \<Rightarrow> process_fault + process_end" where
  "pipe_main pfd pid1 exec1_ok pid2 exec2_ok tab =
     (case pfd of
        None \<Rightarrow> if pid1 = - 1 then Inr (Main_returned (- 1) tab)
                else if pid1 \<noteq> 0 \<and> pid2 = - 1 then Inr (Main_returned (- 1) tab) else Inl Pfd_not_initialised
      | Some (pfd0, pfd1) \<Rightarrow>
          (let tab1 = tab(pfd0 \<mapsto> Pipe_out, pfd1 \<mapsto> Pipe_in)
           in if pid1 = - 1 then Inr (Main_returned (- 1) tab1)
              else if pid1 = 0 then
                res_bind (ls_child [pfd0, pfd1] tab1) (\<lambda>tab2.
                  Inr (if exec1_ok then Became [''ls''] tab2 else second_fork pid2 exec2_ok pfd0 pfd1 tab2))
              else Inr (second_fork pid2 exec2_ok pfd0 pfd1 tab1)))"

section \<open>What the programs do\<close>

lemma decimal_snoc: "decimal (xs @ [c]) = 10 * decimal xs + (of_char c - 48)"
  by (simp add: decimal_def)

lemma of_digit_char: "d < 10 \<Longrightarrow> (of_char (digit_char d) :: nat) = 48 + d"
  by (simp add: digit_char_def)

lemma of_digit_char_int: "d < 10 \<Longrightarrow> (of_char (digit_char d) :: int) = 48 + int d"
  using of_digit_char [of d] by (metis of_char_of of_nat_add of_nat_numeral of_nat_of_char)

lemma decimal_show_nat: "decimal (show_nat n) = int n"
proof (induction n rule: show_nat.induct)
  case (1 n)
  have "10 * int (n div 10) + int (n mod 10) = int n" by presburger
  with 1 show ?case by (subst show_nat.simps) (auto simp: decimal_snoc of_digit_char_int, simp add: decimal_def of_digit_char_int)
qed

lemma show_nat_not_empty: "show_nat n \<noteq> []"
  by (subst show_nat.simps) simp

lemma digits_show_nat: "\<forall>c \<in> set (show_nat n). of_char c \<in> {48 .. 57 :: nat}"
proof (induction n rule: show_nat.induct)
  case (1 n)
  then show ?case by (subst show_nat.simps) (auto simp: of_digit_char)
qed

text \<open>\<open>atoi\<close> reads back what \<open>printf("%d")\<close> writes.\<close>

lemma atoi_show_int:
  assumes "in_int n"
  shows "atoi (show_int n) = Inr n"
proof -
  have t: "takeWhile (\<lambda>c. (48 :: nat) \<le> of_char c \<and> of_char c \<le> (57 :: nat)) (show_nat m) = show_nat m" for m
    using digits_show_nat [of m] by simp
  have d: "\<exists>c cs. show_nat m = c # cs \<and> \<not> is_space c \<and> c \<noteq> CHR ''-'' \<and> c \<noteq> CHR ''+''" for m
    using digits_show_nat [of m] show_nat_not_empty [of m] by (cases "show_nat m") (auto simp: is_space_def)
  show ?thesis
  proof (cases "n < 0")
    case True
    have "\<not> is_space (CHR ''-'')" by (simp add: is_space_def)
    then show ?thesis
      using True assms by (simp add: atoi_def show_int_def t decimal_show_nat Let_def)
  next
    case False
    obtain c cs where c: "show_nat (nat n) = c # cs" "\<not> is_space c" "c \<noteq> CHR ''-''" "c \<noteq> CHR ''+''" using d by blast
    then show ?thesis
      using False assms
      by (simp add: atoi_def show_int_def t [of "nat n", unfolded c(1)] decimal_show_nat [of "nat n", unfolded c(1)]
          Let_def del: takeWhile.simps)
  qed
qed

text \<open>The program prints the access mode and the flags the descriptor was opened with.\<close>

lemma flags_text_reads:
  assumes "mode \<in> {O_RDONLY, O_WRONLY, O_RDWR}"
  shows "flags_text (mode OR (if a then O_APPEND else 0) OR (if n then O_NONBLOCK_flag else 0) OR (if y then O_SYNC else 0)) =
    (0, (if mode = O_RDONLY then ''read only'' else if mode = O_WRONLY then ''write only'' else ''read write'') @
        (if a then '', append'' else []) @ (if n then '', nonblocking'' else []) @
        (if y then '', synchronous writes'' else []) @ line_end)"
  using assms by (cases a; cases n; cases y) (auto simp: flags_text_def O_defs)

lemma flags_main_prints:
  assumes "in_int fd"
  shows "getfl fd \<ge> 0 \<Longrightarrow> flags_main getfl [prog, show_int fd] = Inr (flags_text (word_of_int (getfl fd)))"
    and "getfl fd < 0 \<Longrightarrow> flags_main getfl [prog, show_int fd] = Inr (1, ''fcntl error for fd '' @ show_int fd @ line_end)"
  using atoi_show_int [OF assms] by (simp_all add: flags_main_def)

text \<open>\<open>O_SYNC\<close> has two bits, and one of them is \<open>O_DSYNC\<close>: such a descriptor is reported as synchronous too.\<close>

lemma flags_text_dsync: "flags_text (O_RDWR OR O_DSYNC) = flags_text (O_RDWR OR O_SYNC)"
  by (simp add: flags_text_def O_defs)

text \<open>The first child reads past \<open>pfd\<close> unless its standard output was closed before; so \<open>ls\<close> is not reached.\<close>

lemma ls_reads_past_pfd:
  assumes "pfd1 \<noteq> 1"
  shows "pipe_main (Some (pfd0, pfd1)) 0 exec1_ok pid2 exec2_ok tab = Inl Pfd_out_of_range"
  using assms by (simp add: pipe_main_def ls_child_def)

lemma ls_writes_pipe:
  assumes "pfd0 \<noteq> 1" "\<forall>f \<in> ran tab. f \<noteq> Pipe_out \<and> f \<noteq> Pipe_in"
  shows "\<exists>tab'. pipe_main (Some (pfd0, 1)) 0 True pid2 exec2_ok tab = Inr (Became [''ls''] tab') \<and>
    tab' 1 = Some Pipe_in \<and> Pipe_out \<notin> ran tab'"
  using assms by (auto simp: pipe_main_def ls_child_def close_fd_def ran_def split: if_splits)

text \<open>
  \<open>wc\<close> reads the pipe on its standard input and holds no end to write to; neither does the parent when it waits.  So
  \<open>wc\<close> sees the end of its input when \<open>ls\<close> has ended.
\<close>

lemma wc_reads_pipe:
  assumes "pfd0 \<noteq> pfd1" "pfd1 \<noteq> 0" "pid1 > 0" "\<forall>f \<in> ran tab. f \<noteq> Pipe_out \<and> f \<noteq> Pipe_in"
  shows "\<exists>tab'. pipe_main (Some (pfd0, pfd1)) pid1 e1 0 True tab = Inr (Became [''wc'', ''-l''] tab') \<and>
    tab' 0 = Some Pipe_out \<and> Pipe_in \<notin> ran tab'"
  using assms by (auto simp: pipe_main_def second_fork_def wc_child_def close_fd_def dup2_def ran_def Let_def split: if_splits)

lemma parent_holds_no_pipe:
  assumes "pid1 > 0" "pid2 > 0" "\<forall>f \<in> ran tab. f \<noteq> Pipe_out \<and> f \<noteq> Pipe_in"
  shows "\<exists>tab'. pipe_main (Some (pfd0, pfd1)) pid1 e1 pid2 e2 tab = Inr (Main_returned 0 tab') \<and>
    Pipe_out \<notin> ran tab' \<and> Pipe_in \<notin> ran tab'"
  using assms by (auto simp: pipe_main_def second_fork_def close_and_wait_def close_fd_def ran_def split: if_splits)

end
