(* ===== verification/Allocator.thy ===== *)
theory Allocator
  imports Prelude
begin

text \<open>
  The allocator of src/include/afina/allocator and src/src/allocator as it is: the operations of \<open>Simple\<close> are stubs, and a
  \<open>Pointer\<close> has no state.  The errors are declared and never thrown.
\<close>

section \<open>Errors and pointers\<close>

datatype alloc_error_type = InvalidFree | NoMemory

record alloc_error =
  ae_type :: alloc_error_type
  ae_message :: string

definition AllocError :: "alloc_error_type \<Rightarrow> string \<Rightarrow> alloc_error" where
  "AllocError t message = \<lparr>ae_type = t, ae_message = message\<rparr>"

definition getType :: "alloc_error \<Rightarrow> alloc_error_type" where
  "getType e = ae_type e"

text \<open>\<open>Pointer\<close> has no members; copies and assignments do nothing.\<close>

datatype pointer = Pointer

definition Pointer_copy :: "pointer \<Rightarrow> pointer" where
  "Pointer_copy p = Pointer"

definition Pointer_assign :: "pointer \<Rightarrow> pointer \<Rightarrow> pointer" where
  "Pointer_assign self p = self"

definition Pointer_get :: "pointer \<Rightarrow> u64" where
  "Pointer_get p = 0"

section \<open>Simple\<close>

record simple =
  s_base :: u64
  s_base_len :: u64

definition Simple :: "u64 \<Rightarrow> u64 \<Rightarrow> simple" where
  "Simple base sz = \<lparr>s_base = base, s_base_len = sz\<rparr>"

definition alloc :: "simple \<Rightarrow> u64 \<Rightarrow> alloc_error + simple \<times> pointer" where
  "alloc s N = Inr (s, Pointer)"

definition realloc :: "simple \<Rightarrow> pointer \<Rightarrow> u64 \<Rightarrow> alloc_error + simple \<times> pointer" where
  "realloc s p N = Inr (s, p)"

definition free_pointer :: "simple \<Rightarrow> pointer \<Rightarrow> alloc_error + simple \<times> pointer" where
  "free_pointer s p = Inr (s, p)"

definition defrag :: "simple \<Rightarrow> simple" where
  "defrag s = s"

definition dump :: "simple \<Rightarrow> string" where
  "dump s = []"

section \<open>What it does not do\<close>

definition in_area :: "simple \<Rightarrow> u64 \<Rightarrow> u64 \<Rightarrow> bool" where
  "in_area s v N \<longleftrightarrow> unat (s_base s) \<le> unat v \<and> unat v + unat N \<le> unat (s_base s) + unat (s_base_len s)"

text \<open>
  No allocation fails, and none gives memory of the area, which cannot start at the null address: every request, however
  large, is answered with the null pointer, and a pointer that was freed can be freed again.
\<close>

lemma alloc_outside_area:
  assumes "base \<noteq> 0"
  shows "\<exists>s p. alloc (Simple base sz) N = Inr (s, p) \<and> \<not> in_area s (Pointer_get p) N \<and>
    free_pointer s p = Inr (s, p) \<and> realloc s p M = Inr (s, p)"
  using assms by (simp add: alloc_def Simple_def in_area_def Pointer_get_def free_pointer_def realloc_def unat_eq_zero)

end
