(* ===== verification/Spec2Isabelle.thy ===== *)
theory Spec2Isabelle
  imports Uv_Safety Uv_Timer Safe_Counter Servers Concurrent_Clients Coroutine_Engine
    Echo_Server Memcached_Parser Application Latch_Demo Shared_Lock Epoll_Example Sync_Examples Socket_Examples
    Process_Examples Allocator
begin

text \<open>
  Verification of Afina, a caching server that speaks a subset of the memcached text protocol.

  \<^bold>\<open>The program.\<close>  \<open>main\<close> (src/src/main.cpp) builds one storage and one of three network layers and runs them until a
  signal.  A network layer reads bytes from its clients, feeds them to the protocol parser, reads the data block the
  header announces, executes the command the parser builds on the storage and sends the reply.  The blocking layer does
  this in a function per connection on a thread pool, the epoll layer in a worker thread per event set, the libuv layer in
  the callbacks of a worker.  Beside the server the repository holds a coroutine engine and the programs of the
  course: a reader/writer lock, an echo server and smaller examples.

  \<^bold>\<open>Conventions\<close> (Prelude).  A result is a sum with the failure on the left; \<open>ub\<close> lists the undefined behaviours of C++ a
  run can reach, and they are results like any other, so a theorem that code returns also says that it meets none.
  Machine integers are words or integers with their range written out (\<open>in_int\<close>, \<open>to_int\<close>, \<open>to_size_t\<close>).  A loop that may
  not end is a \<open>partial_function (option)\<close>: \<open>None\<close> says that it does not return, and every theorem about such code states
  that it returns, or that it does not.  The only bound is that of \<open>explore\<close> (Schedules), which follows every schedule of
  a small program and gives \<open>None\<close> when the bound is too small; the lemmas state the ends it finds.  Answers of the operating system, of libuv and of
  the scheduler are parameters or steps that are always possible.

  \<^bold>\<open>Storage\<close> (Storage_Contract, LRU_Storage: src/include/afina/Storage.h, src/src/storage).  \<open>storage_ops\<close> is the abstract
  class; the locale \<open>storage_contract\<close> states what its comments promise.  \<open>lru_store\<close> is the LRU backend with the identities
  of its list nodes, so that iterators can dangle.  The interpretation \<open>lru\<close> discharges the contract, \<open>lru_bounded\<close> that of
  the locale \<open>bounded_storage\<close>, which adds which data is refused because it does not fit.  C1 to C5: every
  history refines a plain recency list, a stored value is found, eviction takes the least recently used, the size
  stays exact as long as no \<open>Put\<close> and no \<open>Set\<close> is made on a cached key, and what goes wrong when one is (also
  \<open>put_grow_exceeds_capacity\<close>, \<open>set_same_value_drifts\<close> and, for \<open>Delete\<close>, \<open>delete_present_dangles\<close>).

  \<^bold>\<open>Commands\<close> (Commands: src/include/afina/execute, src/src/execute).  Proved once in \<open>storage_contract\<close> and taken over
  through \<open>lru\<close> and \<open>lru_bounded\<close>.  C6, C7, C8 and C32: the replies and effects of \<open>append\<close>, \<open>get\<close>, \<open>add\<close> and \<open>replace\<close>;
  \<open>set_replies_stored_when_refused\<close> is about refused data.  Cache_Spec is the specification as the comments document it: a
  cache is a partial map to items of flags and value, data that does not fit is answered \<open>NOT_STORED\<close>, \<open>cache_step\<close> and
  \<open>cache_trace\<close> are its transitions labelled with commands and replies.  C9: sessions without flags and expiry, of data that
  fits, refine it, and no value moves from one key to another.  Outside of these limits the code departs from it (C6, C7,
  C32, \<open>set_drops_flags_and_exptime\<close>).
  Concurrent_Clients cuts the commands at their storage operations, and an operation at taking the mutex, reading, writing
  and giving the mutex back, and interleaves the connections of any number of clients.  C10 to C12: the mutex makes the
  operations atomic and commands of one operation linearizable, in every interleaving a key only holds what was brought for
  it, and two appends can lose data.

  \<^bold>\<open>Parser\<close> (Parser: src/src/protocol; Requests: the texts of whole requests; Memcached_Parser: src/src/network/memcached).
  C13 to C16: cutting the input does not matter, headers round-trip and \<open>Build\<close> is defined in every reachable state;
  \<open>flags_overflow_missed\<close> is about an overflow test that is not one.  C37: the older parser agrees with this one on a header that arrives in one call, but for the
  wording of an error; the lemma \<open>continued_call_forgets\<close> says what it gives otherwise.

  \<^bold>\<open>The libuv layer\<close> (Uv_Worker: src/src/network/uv).  \<open>worker\<close> and \<open>connection\<close> are the objects, an operation is one callback or
  method, calls of libuv are recorded in order with result codes as a parameter.  C17 to C21: a request in any pieces is
  executed once, the buffer positions stay in range, a malformed request is answered and the connection closed; two
  requests in one read are never finished, and an early end of file fails an assert.  Uv_Safety puts the callbacks
  together: \<open>uv_reach\<close> are the runs of a worker under the contract of libuv (\<open>may_happen\<close>), the invariant \<open>worker_inv\<close> says
  who is alive and counts the tasks.  C22: what can go wrong in such a run is one of four faults (\<open>known_fault\<close>); C23: the
  count of the running tasks is exact.  Uv_Session follows a client that waits for its replies.  C24: what it stores over
  the wire without flags and expiry it reads back; \<open>set_drops_flags_and_exptime\<close> is about the others.

  \<^bold>\<open>The thread pool\<close> (Executor: src/include/afina/Executor.h, src/src/network/blocking/Executor.cpp).  A step relation with one
  step per critical section.  C25 and C26: bounds and first-in first-out order; a stopped pool never drains its
  queue.  \<open>idle_thread_spins\<close> is about its idle threads.

  \<^bold>\<open>The reader/writer lock\<close> (Shared_Mutex: src/materials/09-advanced-synchronization).  C27, C28: exclusion in every reachable
  state, and never all threads asleep.  Safe_Counter is the counter of the demo on this lock; C29: it loses no increment.  Shared_Lock is the wrapper of the same header: a history of constructors, moves,
  swaps and exceptions keeps every ownership in exactly one object (\<open>balanced_run\<close>).  Count_Down_Latch is the latch: no
  thread waits at an open latch, but \<open>await\<close> may return from a closed one.

  \<^bold>\<open>The blocking and the epoll layer\<close> (Socket_Io, Blocking_Server, Epoll_Worker: src/src/network/blocking and nonblocking).
  Both connection functions contain the same loop; its text is in Socket_Io, where a \<open>send\<close> may be short, and the locale \<open>client_loop\<close> proves
  what a session of requests does from the one equation the two loops satisfy.  The interpretations \<open>blocking_loop\<close> and
  \<open>epoll_loop\<close> are on the two functions.  C30: the end of the stream in the epoll layer; the theorems
  \<open>blocking_session\<close>, \<open>epoll_session\<close>, \<open>blocking_eof_in_body\<close>, \<open>blocking_prepend_escapes\<close>, \<open>accept_limit_not_enforced\<close> and
  \<open>epoll_stop_closes_twice\<close> are about the end of the stream, unsupported commands, the limit of clients and \<open>Stop\<close>.

  \<^bold>\<open>The layers together\<close> (Servers).  The locale \<open>session_server\<close> is the contract of a server: whatever the environment, the
  replies to orderly requests are those of \<open>run_session\<close>, as far as \<open>send\<close> takes them.  It is interpreted on the three
  layers.  C31: the layers leave the same storage and send the same replies, up to short sends.

  \<^bold>\<open>Coroutines\<close> (Coroutine_Engine: src/include/afina/coroutine, src/src/coroutine).  Contexts on a heap, a routine as the list
  of actions that are left, the stack as bytes.  C33 to C35: all routines run to their end when they only call forward, a
  second \<open>yield\<close> loses its caller, and \<open>Restore\<close> undoes \<open>Store\<close>, but may overwrite its own frame.

  \<^bold>\<open>Echo server\<close> (Echo_Server: src/materials/05-non-blocking-network).  C36: one message and the next through partial writes.
  Epoll_Example is the edge-triggered example of the same directory: what it prints and when it closes.

  \<^bold>\<open>Timers\<close> (Uv_Queue, Uv_Heap, Uv_Handle, Uv_Timer: src/third-party/libuv-1.11.0).  The intrusive queue, the pointer heap, the
  handle macros and the timers of the vendored libuv, on which \<open>main\<close> arms its metrics timer.  The locale \<open>intrusive_queue\<close> is
  interpreted on the queue macros, \<open>heap_compare\<close> on the order of the timers.  C38: a round of the timers returns and fires
  exactly the due ones in order.

  \<^bold>\<open>Examples\<close> (Sync_Examples: src/materials/07-synchronization-primitives; Pipe_Examples: cat.c and simple_pipe.c;
  Socket_Examples: src/materials/04-network-blocking; Latch_Demo; Thread_Examples and Process_Examples:
  src/materials/03-process-threads-files and pipe_ls_wc.c).  Threads and processes as interleavings of actions that a list
  chooses; ranks or \<open>explore\<close> bound the length of every run.  C39: the hand-over with a condition variable; the lemmas
  \<open>transfers_complete\<close> and \<open>pages_saved\<close> are about the other two programs.  C40: what the child at the end of a pipe prints,
  also when calls fail; \<open>cat_copies\<close> is about cat, \<open>client_prints_greeting\<close> and \<open>print_loop_texts\<close> about the servers, \<open>latch_demo_ends\<close> and
  \<open>over_after_ten\<close> about the demo of the latch, \<open>exitstatus_runs\<close>, \<open>badexit_runs\<close> and \<open>cleanup_only_fault\<close> about the thread
  programs, \<open>flags_text_reads\<close> and \<open>wc_reads_pipe\<close> about the process programs.

  \<^bold>\<open>The allocator\<close> (Allocator: src/src/allocator).  Its bodies are empty; \<open>alloc_outside_area\<close> says what that gives.

  \<^bold>\<open>The application\<close> (Application: src/src/main.cpp).  The order of the calls of \<open>main\<close> and how a failure ends it.

  \<^bold>\<open>Not modelled.\<close>  The rest of libuv, the option parser and the test framework are third-party code.  The drafts
  test_nonblock.cpp and test.cpp are not compiled, src/src/storage/Storage.h is an older copy of the interface that nothing
  includes, and \<open>Server\<close> is an abstract class.  Console output of the server is left out.  The timed operations of the lock
  and the \<open>delete\<close> command are declared without an implementation, and the timed members of the wrapper cannot be
  instantiated.
\<close>

end
